(* ===== verification/Fitz_Prelude.thy ===== *)
theory Fitz_Prelude
  imports Main "HOL-Library.Word"
begin

text \<open>
  Shared vocabulary of the development: the machine integers and byte strings of the
  Rust sources, big-endian encodings, UTF-8 validity as \<^verbatim>\<open>std::str::from_utf8\<close> checks it,
  \<^verbatim>\<open>split\<close> and \<^verbatim>\<open>split_once\<close> on strings, and the generic lemmas on lists, options and words
  that the component theories use.

  A Rust \<^verbatim>\<open>&str\<close> is a \<^typ>\<open>string\<close> with one \<^typ>\<open>char\<close> per UTF-8 byte, so \<^verbatim>\<open>str::len\<close> is
  \<open>length\<close>; a \<^verbatim>\<open>&[u8]\<close> is a list of 8-bit words.
\<close>

unbundle bit_operations_syntax

type_synonym u8 = "8 word"
type_synonym u16 = "16 word"
type_synonym u32 = "32 word"
type_synonym u64 = "64 word"
type_synonym u128 = "128 word"
type_synonym bytes = "u8 list"

named_theorems codec_simps \<open>round-trip equations of the field decoders\<close>
named_theorems codec_dests \<open>inversion rules of the field decoders\<close>

section \<open>Definitions\<close>

subsection \<open>Big-endian integers\<close>

text \<open>\<^verbatim>\<open>to_be_bytes\<close> for a word of \<open>k\<close> bytes, and \<^verbatim>\<open>from_be_bytes\<close>.\<close>

definition to_be_bytes :: "nat \<Rightarrow> 'a::len word \<Rightarrow> bytes" where
  "to_be_bytes k w = map (\<lambda>i. ucast (drop_bit (8 * i) w)) (rev [0..<k])"

definition from_be_bytes :: "bytes \<Rightarrow> 'a::len word" where
  "from_be_bytes bs = foldl (\<lambda>acc b. push_bit 8 acc OR ucast b) 0 bs"

text \<open>\<^verbatim>\<open>u32::try_from(usize)\<close> (and \<^verbatim>\<open>u16::try_from\<close>), and its saturating form.\<close>

definition try_from_usize :: "nat \<Rightarrow> 'a::len word option" where
  "try_from_usize n = (if n < 2 ^ LENGTH('a) then Some (of_nat n) else None)"

subsection \<open>UTF-8\<close>

definition utf8_cont :: "u8 \<Rightarrow> bool" where
  "utf8_cont b \<longleftrightarrow> 0x80 \<le> b \<and> b \<le> 0xBF"

text \<open>The well-formed byte sequences of Unicode table 3-7, which \<^verbatim>\<open>from_utf8\<close> accepts.\<close>

fun utf8_valid :: "bytes \<Rightarrow> bool" where
  "utf8_valid [] = True"
| "utf8_valid (b # bs) =
     (if b < 0x80 then utf8_valid bs
      else if 0xC2 \<le> b \<and> b \<le> 0xDF then
        (case bs of c # r \<Rightarrow> utf8_cont c \<and> utf8_valid r | _ \<Rightarrow> False)
      else if 0xE0 \<le> b \<and> b \<le> 0xEF then
        (case bs of c # d # r \<Rightarrow>
           (if b = 0xE0 then 0xA0 \<le> c \<and> c \<le> 0xBF
            else if b = 0xED then 0x80 \<le> c \<and> c \<le> 0x9F
            else utf8_cont c) \<and> utf8_cont d \<and> utf8_valid r
         | _ \<Rightarrow> False)
      else if 0xF0 \<le> b \<and> b \<le> 0xF4 then
        (case bs of c # d # e # r \<Rightarrow>
           (if b = 0xF0 then 0x90 \<le> c \<and> c \<le> 0xBF
            else if b = 0xF4 then 0x80 \<le> c \<and> c \<le> 0x8F
            else utf8_cont c) \<and> utf8_cont d \<and> utf8_cont e \<and> utf8_valid r
         | _ \<Rightarrow> False)
      else False)"

definition as_bytes :: "string \<Rightarrow> bytes" where
  "as_bytes s = map (\<lambda>c. of_nat (of_char c)) s"

definition str_of_bytes :: "bytes \<Rightarrow> string" where
  "str_of_bytes bs = map (\<lambda>b. char_of (unat b)) bs"

definition from_utf8 :: "bytes \<Rightarrow> string option" where
  "from_utf8 bs = (if utf8_valid bs then Some (str_of_bytes bs) else None)"

text \<open>A \<^typ>\<open>string\<close> that a Rust \<^verbatim>\<open>str\<close> can hold.\<close>

definition is_str :: "string \<Rightarrow> bool" where
  "is_str s \<longleftrightarrow> utf8_valid (as_bytes s)"

subsection \<open>Splitting strings\<close>

text \<open>\<^verbatim>\<open>str::split(char)\<close>: always at least one segment.\<close>

fun split_on :: "char \<Rightarrow> string \<Rightarrow> string list" where
  "split_on c [] = [[]]"
| "split_on c (x # xs) =
     (if x = c then [] # split_on c xs
      else (case split_on c xs of [] \<Rightarrow> [[x]] | s # ss \<Rightarrow> (x # s) # ss))"

definition strip_prefix :: "'a list \<Rightarrow> 'a list \<Rightarrow> 'a list option" where
  "strip_prefix p xs = (if take (length p) xs = p then Some (drop (length p) xs) else None)"

text \<open>\<^verbatim>\<open>str::split_once(pat)\<close>: split at the first occurrence.\<close>

fun split_once :: "string \<Rightarrow> string \<Rightarrow> (string \<times> string) option" where
  "split_once p [] = (if p = [] then Some ([], []) else None)"
| "split_once p (x # xs) =
     (case strip_prefix p (x # xs) of
        Some rest \<Rightarrow> Some ([], rest)
      | None \<Rightarrow> map_option (\<lambda>(a, b). (x # a, b)) (split_once p xs))"

text \<open>\<^verbatim>\<open>[S]::join(sep)\<close>.\<close>

fun join_with :: "string \<Rightarrow> string list \<Rightarrow> string" where
  "join_with sep [] = []"
| "join_with sep [s] = s"
| "join_with sep (s # t # ss) = s @ sep @ join_with sep (t # ss)"

text \<open>\<^verbatim>\<open>iter().position(pred)\<close>.\<close>

fun position :: "('a \<Rightarrow> bool) \<Rightarrow> 'a list \<Rightarrow> nat option" where
  "position P [] = None"
| "position P (x # xs) = (if P x then Some 0 else map_option Suc (position P xs))"

section \<open>Big-endian integers\<close>

lemma length_to_be_bytes [simp]: "length (to_be_bytes k w) = k"
  by (simp add: to_be_bytes_def)

lemma shift_in_byte:
  "push_bit 8 (drop_bit (8 * Suc k) w) OR ucast (ucast (drop_bit (8 * k) w) :: u8) = drop_bit (8 * k) w"
  for w :: "'a::len word"
proof (rule bit_word_eqI)
  fix n
  assume n: "n < LENGTH('a)"
  show "bit (push_bit 8 (drop_bit (8 * Suc k) w) OR ucast (ucast (drop_bit (8 * k) w) :: u8)) n
      = bit (drop_bit (8 * k) w) n"
  proof (cases "n < 8")
    case True
    then show ?thesis
      using n by (auto simp: bit_or_iff bit_push_bit_iff bit_ucast_iff bit_drop_bit_eq)
  next
    case False
    then have "8 * Suc k + (n - 8) = 8 * k + n" by simp
    then show ?thesis
      using n False by (auto simp: bit_or_iff bit_push_bit_iff bit_ucast_iff bit_drop_bit_eq
          simp del: mult_Suc_right)
  qed
qed

lemma foldl_be_bytes:
  "foldl (\<lambda>acc b. push_bit 8 acc OR ucast b) (drop_bit (8 * k) w)
     (map (\<lambda>i. ucast (drop_bit (8 * i) w) :: u8) (rev [0..<k])) = w"
  for w :: "'a::len word"
proof (induction k)
  case 0
  then show ?case by simp
next
  case (Suc k)
  then show ?case by (simp only: upt_Suc_append rev_append rev.simps append.simps list.map
        foldl_Cons le0 shift_in_byte)
qed

lemma from_to_be_bytes:
  "LENGTH('a) = 8 * k \<Longrightarrow> from_be_bytes (to_be_bytes k w) = w"
  for w :: "'a::len word"
proof -
  assume len: "LENGTH('a) = 8 * k"
  have "drop_bit (8 * k) w = 0"
    by (rule bit_word_eqI) (use len in \<open>auto simp: bit_drop_bit_eq dest: bit_imp_le_length\<close>)
  with foldl_be_bytes [of k w] show ?thesis
    by (simp add: from_be_bytes_def to_be_bytes_def)
qed

lemma foldl_be_snoc:
  "from_be_bytes (bs @ [b]) = push_bit 8 (from_be_bytes bs) OR ucast b"
  by (simp add: from_be_bytes_def)

lemma to_be_bytes_Suc:
  "to_be_bytes (Suc k) w = to_be_bytes k (drop_bit 8 w) @ [ucast w]"
  for w :: "'a::len word"
proof (induction k)
  case 0
  then show ?case by (simp add: to_be_bytes_def)
next
  case (Suc k)
  have "to_be_bytes (Suc (Suc k)) w = ucast (drop_bit (8 * Suc k) w) # to_be_bytes (Suc k) w"
    by (simp add: to_be_bytes_def)
  also have "\<dots> = ucast (drop_bit (8 * k) (drop_bit 8 w)) # to_be_bytes k (drop_bit 8 w) @ [ucast w]"
    using Suc.IH by (simp add: drop_bit_drop_bit add.commute)
  also have "\<dots> = to_be_bytes (Suc k) (drop_bit 8 w) @ [ucast w]"
    by (simp add: to_be_bytes_def)
  finally show ?case .
qed

lemma drop_byte_shift_in:
  assumes "8 * Suc (length bs) \<le> LENGTH('a)"
  shows "drop_bit 8 (push_bit 8 (from_be_bytes bs :: 'a::len word) OR ucast (b :: u8)) = from_be_bytes bs"
proof (rule bit_word_eqI)
  fix n
  assume n: "n < LENGTH('a)"
  have top: "\<not> bit (from_be_bytes bs :: 'a word) m" if "8 * length bs \<le> m" for m
    using that
  proof (induction bs arbitrary: m rule: rev_induct)
    case Nil
    then show ?case by (simp add: from_be_bytes_def)
  next
    case (snoc c cs)
    then have "\<not> bit (from_be_bytes cs :: 'a word) (m - 8)" by auto
    with snoc.prems show ?case
      by (auto simp: foldl_be_snoc bit_or_iff bit_push_bit_iff bit_ucast_iff dest: bit_imp_le_length)
  qed
  show "bit (drop_bit 8 (push_bit 8 (from_be_bytes bs :: 'a word) OR ucast b)) n
      = bit (from_be_bytes bs :: 'a word) n"
  proof (cases "n < 8 * length bs")
    case True
    with assms n show ?thesis
      by (auto simp: bit_or_iff bit_push_bit_iff bit_ucast_iff bit_drop_bit_eq dest: bit_imp_le_length)
  next
    case False
    with top [of n] show ?thesis
      by (auto simp: bit_or_iff bit_push_bit_iff bit_ucast_iff bit_drop_bit_eq dest: bit_imp_le_length)
  qed
qed

lemma to_from_be_bytes:
  assumes "8 * length bs \<le> LENGTH('a)"
  shows "to_be_bytes (length bs) (from_be_bytes bs :: 'a::len word) = bs"
  using assms
proof (induction bs rule: rev_induct)
  case Nil
  then show ?case by (simp add: to_be_bytes_def)
next
  case (snoc b bs)
  let ?w = "from_be_bytes (bs @ [b]) :: 'a word"
  have "drop_bit 8 ?w = from_be_bytes bs"
    using snoc.prems by (simp add: foldl_be_snoc drop_byte_shift_in del: drop_bit_or)
  moreover have "(ucast ?w :: u8) = b"
  proof (rule bit_word_eqI)
    fix n
    assume "n < LENGTH(8)"
    then show "bit (ucast ?w :: u8) n = bit b n"
      using snoc.prems by (auto simp: foldl_be_snoc bit_or_iff bit_push_bit_iff bit_ucast_iff)
  qed
  ultimately show ?case
    using snoc by (simp add: to_be_bytes_Suc)
qed

lemma unat_try_from_usize: "try_from_usize n = Some w \<Longrightarrow> unat w = n"
  by (auto simp: try_from_usize_def unat_of_nat split: if_splits)

lemma try_from_usize_unat [simp]: "try_from_usize (unat w) = Some w"
  by (simp add: try_from_usize_def)

section \<open>Strings\<close>

lemma length_as_bytes [simp]: "length (as_bytes s) = length s"
  by (simp add: as_bytes_def)

lemma length_str_of_bytes [simp]: "length (str_of_bytes bs) = length bs"
  by (simp add: str_of_bytes_def)

lemma as_bytes_append [simp]: "as_bytes (s @ t) = as_bytes s @ as_bytes t"
  by (simp add: as_bytes_def)

lemma of_char_byte: "(of_char c :: nat) < 2 ^ LENGTH(8)"
  by (simp add: nat_of_char_less_256)

lemma str_of_bytes_as_bytes [simp]: "str_of_bytes (as_bytes s) = s"
  by (induction s) (simp_all add: str_of_bytes_def as_bytes_def unat_of_nat of_char_byte)

lemma unat_byte_mod [simp]: "unat b mod 256 = unat b" for b :: u8
  using unsigned_less [where ?'a = nat, of b] by simp

lemma as_bytes_str_of_bytes [simp]: "as_bytes (str_of_bytes bs) = bs"
  by (induction bs) (simp_all add: str_of_bytes_def as_bytes_def)

lemma as_bytes_inject [simp]: "as_bytes s = as_bytes t \<longleftrightarrow> s = t"
  by (metis str_of_bytes_as_bytes)

lemma from_utf8_as_bytes [simp]: "is_str s \<Longrightarrow> from_utf8 (as_bytes s) = Some s"
  by (simp add: from_utf8_def is_str_def)

lemma from_utf8_SomeD: "from_utf8 bs = Some s \<Longrightarrow> bs = as_bytes s \<and> is_str s"
  by (auto simp: from_utf8_def is_str_def split: if_splits)

subsection \<open>Splitting\<close>

lemma split_on_not_Nil [simp]: "split_on c s \<noteq> []"
  by (induction s) (auto split: list.splits)

lemma split_on_no_sep: "seg \<in> set (split_on c s) \<Longrightarrow> c \<notin> set seg"
  by (induction s arbitrary: seg) (auto split: list.splits if_splits)

lemma join_split_on: "join_with [c] (split_on c s) = s"
proof (induction s)
  case Nil
  then show ?case by simp
next
  case (Cons x xs)
  show ?case
  proof (cases "split_on c xs")
    case Nil
    then show ?thesis by simp
  next
    case (Cons t ts)
    with Cons.IH show ?thesis by (cases ts) auto
  qed
qed

lemma split_on_append_sep:
  "c \<notin> set s \<Longrightarrow> split_on c (s @ c # t) = s # split_on c t"
  by (induction s) auto

lemma split_on_single: "c \<notin> set s \<Longrightarrow> split_on c s = [s]"
  by (induction s) auto

lemma split_join_on:
  "ss \<noteq> [] \<Longrightarrow> \<forall>s \<in> set ss. c \<notin> set s \<Longrightarrow> split_on c (join_with [c] ss) = ss"
  by (induction "[c]" ss rule: join_with.induct) (auto simp: split_on_append_sep split_on_single)

lemma strip_prefix_append [simp]: "strip_prefix p (p @ xs) = Some xs"
  by (simp add: strip_prefix_def)

lemma strip_prefix_SomeD: "strip_prefix p xs = Some r \<Longrightarrow> xs = p @ r"
  by (auto simp: strip_prefix_def split: if_splits) (metis append_take_drop_id)

lemma split_once_SomeD: "split_once p xs = Some (a, b) \<Longrightarrow> xs = a @ p @ b"
proof (induction xs arbitrary: a b)
  case Nil
  then show ?case by (simp split: if_splits)
next
  case (Cons x xs)
  then show ?case
    by (auto split: option.splits dest!: strip_prefix_SomeD)
qed

lemma split_once_first:
  assumes "p \<noteq> []" "hd p \<notin> set a"
  shows "split_once p (a @ p @ b) = Some (a, b)"
  using assms(2)
proof (induction a)
  case Nil
  with assms(1) show ?case by (cases p) (simp_all add: strip_prefix_def)
next
  case (Cons x a)
  with assms(1) have "strip_prefix p (x # a @ p @ b) = None"
    by (cases p) (auto simp: strip_prefix_def)
  with Cons show ?case by simp
qed

lemma split_once_None_iff: "split_once p xs = None \<longleftrightarrow> (\<nexists>a b. xs = a @ p @ b)"
proof (induction xs)
  case Nil
  then show ?case by auto
next
  case (Cons x xs)
  show ?case
  proof (cases "strip_prefix p (x # xs)")
    case None
    have "(\<exists>a b. x # xs = a @ p @ b) \<longleftrightarrow> (\<exists>a b. xs = a @ p @ b)"
    proof
      assume "\<exists>a b. x # xs = a @ p @ b"
      then obtain a b where ab: "x # xs = a @ p @ b" by blast
      with None have "a \<noteq> []" by (auto simp: strip_prefix_def)
      with ab show "\<exists>a b. xs = a @ p @ b" by (cases a) auto
    next
      assume "\<exists>a b. xs = a @ p @ b"
      then show "\<exists>a b. x # xs = a @ p @ b" by (metis append_Cons)
    qed
    with None Cons.IH show ?thesis by simp
  next
    case (Some r)
    then have "x # xs = [] @ p @ r" by (auto dest: strip_prefix_SomeD)
    with Some show ?thesis by (metis option.distinct(1) option.simps(5) split_once.simps(2))
  qed
qed

lemma position_SomeD:
  "position P xs = Some i \<Longrightarrow> i < length xs \<and> P (xs ! i) \<and> (\<forall>x \<in> set (take i xs). \<not> P x)"
  by (induction xs arbitrary: i) (auto split: if_splits)

lemma position_append:
  "\<forall>x \<in> set xs. \<not> P x \<Longrightarrow> P y \<Longrightarrow> position P (xs @ y # ys) = Some (length xs)"
  by (induction xs) auto

lemma position_None_iff: "position P xs = None \<longleftrightarrow> (\<forall>x \<in> set xs. \<not> P x)"
  by (induction xs) auto

end
