(* ===== verification/Payload_Codec.thy ===== *)
theory Payload_Codec
  imports Fitz_Prelude
begin

text \<open>
  \<^verbatim>\<open>src/src/protocol/payload_codec.rs\<close>: the sequential encoder and the bounds-checked
  decoder every message body goes through.

  The encoder is its buffer; the decoder is the payload and the offset. A getter returns
  its \<^verbatim>\<open>Result\<close> together with the decoder it leaves behind, also on an error, since
  \<^verbatim>\<open>&mut self\<close> has been advanced past the fields already read. The error strings are the
  constructors of \<open>payload_error\<close>. Offsets are \<open>nat\<close>: a length is below \<open>2 ^ 32\<close> and an
  offset at most the length of a slice, so \<^verbatim>\<open>offset + len\<close> stays below \<^verbatim>\<open>usize::MAX\<close> on the
  64-bit targets the broker is built for.

  The interface of one field is the locale \<open>field_codec\<close>; it is interpreted for every pair of a
  putter and a getter, and the message bodies of the other theories are composed from it.
\<close>

section \<open>Definitions\<close>

definition usize_to_u32_saturating :: "nat \<Rightarrow> u32" where
  "usize_to_u32_saturating value = (case try_from_usize value of Some w \<Rightarrow> w | None \<Rightarrow> -1)"

subsection \<open>Encoder\<close>

record payload_encoder =
  buf :: bytes

definition payload_encoder_new :: payload_encoder where
  "payload_encoder_new = \<lparr>buf = []\<rparr>"

definition encoder_clear :: "payload_encoder \<Rightarrow> payload_encoder" where
  "encoder_clear e = e\<lparr>buf := []\<rparr>"

definition finish :: "payload_encoder \<Rightarrow> bytes \<times> payload_encoder" where
  "finish e = (buf e, e\<lparr>buf := []\<rparr>)"

definition put_u8 :: "payload_encoder \<Rightarrow> u8 \<Rightarrow> payload_encoder" where
  "put_u8 e val = e\<lparr>buf := buf e @ [val]\<rparr>"

definition put_u16 :: "payload_encoder \<Rightarrow> u16 \<Rightarrow> payload_encoder" where
  "put_u16 e val = e\<lparr>buf := buf e @ to_be_bytes 2 val\<rparr>"

definition put_u32 :: "payload_encoder \<Rightarrow> u32 \<Rightarrow> payload_encoder" where
  "put_u32 e val = e\<lparr>buf := buf e @ to_be_bytes 4 val\<rparr>"

definition put_u64 :: "payload_encoder \<Rightarrow> u64 \<Rightarrow> payload_encoder" where
  "put_u64 e val = e\<lparr>buf := buf e @ to_be_bytes 8 val\<rparr>"

definition put_string :: "payload_encoder \<Rightarrow> string \<Rightarrow> payload_encoder" where
  "put_string e val =
     (let e = put_u32 e (usize_to_u32_saturating (length val))
      in e\<lparr>buf := buf e @ as_bytes val\<rparr>)"

definition put_bytes :: "payload_encoder \<Rightarrow> bytes \<Rightarrow> payload_encoder" where
  "put_bytes e val =
     (let e = put_u32 e (usize_to_u32_saturating (length val))
      in e\<lparr>buf := buf e @ val\<rparr>)"

definition put_raw :: "payload_encoder \<Rightarrow> bytes \<Rightarrow> payload_encoder" where
  "put_raw e val = e\<lparr>buf := buf e @ val\<rparr>"

definition put_optional_u64 :: "payload_encoder \<Rightarrow> u64 option \<Rightarrow> payload_encoder" where
  "put_optional_u64 e val = (case val of Some v \<Rightarrow> put_u64 (put_u8 e 1) v | None \<Rightarrow> put_u8 e 0)"

definition put_optional_string :: "payload_encoder \<Rightarrow> string option \<Rightarrow> payload_encoder" where
  "put_optional_string e val =
     (case val of
        Some s \<Rightarrow>
          (let e = put_u32 (put_u8 e 1) (usize_to_u32_saturating (length s))
           in e\<lparr>buf := buf e @ as_bytes s\<rparr>)
      | None \<Rightarrow> put_u8 e 0)"

subsection \<open>Decoder\<close>

datatype payload_error =
    IncompleteU8 | IncompleteU16 | IncompleteU32 | IncompleteU64
  | IncompleteString | IncompleteBytes | InvalidUtf8 | InvalidOptional u8

record payload_decoder =
  payload :: bytes
  offset :: nat

type_synonym 'a decoded = "(payload_error + 'a) \<times> payload_decoder"

text \<open>Rust's \<^verbatim>\<open>?\<close>: stop at the first error, otherwise go on with the advanced decoder.\<close>

definition and_then :: "'a decoded \<Rightarrow> ('a \<Rightarrow> payload_decoder \<Rightarrow> 'b decoded) \<Rightarrow> 'b decoded" where
  "and_then r k = (case r of (Inl e, d) \<Rightarrow> (Inl e, d) | (Inr v, d) \<Rightarrow> k v d)"

text \<open>\<^verbatim>\<open>.map_err(f)?\<close> in a caller with an error type of its own.\<close>

definition map_err_then ::
  "(payload_error \<Rightarrow> 'e) \<Rightarrow> 'a decoded \<Rightarrow> ('a \<Rightarrow> payload_decoder \<Rightarrow> 'e + 'b) \<Rightarrow> 'e + 'b" where
  "map_err_then f r k = (case r of (Inl e, d) \<Rightarrow> Inl (f e) | (Inr v, d) \<Rightarrow> k v d)"

definition payload_decoder_new :: "bytes \<Rightarrow> payload_decoder" where
  "payload_decoder_new p = \<lparr>payload = p, offset = 0\<rparr>"

definition remaining :: "payload_decoder \<Rightarrow> nat" where
  "remaining d = length (payload d) - offset d"

definition advance :: "nat \<Rightarrow> payload_decoder \<Rightarrow> payload_decoder" where
  "advance n d = d\<lparr>offset := offset d + n\<rparr>"

text \<open>The slice \<^verbatim>\<open>payload[offset..offset + len]\<close>, read only after its bounds check.\<close>

definition here :: "nat \<Rightarrow> payload_decoder \<Rightarrow> bytes" where
  "here n d = take n (drop (offset d) (payload d))"

definition peek_u8 :: "payload_decoder \<Rightarrow> payload_error + u8" where
  "peek_u8 d =
     (if offset d + 1 > length (payload d) then Inl IncompleteU8 else Inr (payload d ! offset d))"

definition get_u8 :: "payload_decoder \<Rightarrow> u8 decoded" where
  "get_u8 d =
     (if offset d + 1 > length (payload d) then (Inl IncompleteU8, d)
      else (Inr (payload d ! offset d), advance 1 d))"

definition get_u16 :: "payload_decoder \<Rightarrow> u16 decoded" where
  "get_u16 d =
     (if offset d + 2 > length (payload d) then (Inl IncompleteU16, d)
      else (Inr (from_be_bytes [payload d ! offset d, payload d ! (offset d + 1)]), advance 2 d))"

definition get_u32 :: "payload_decoder \<Rightarrow> u32 decoded" where
  "get_u32 d =
     (if offset d + 4 > length (payload d) then (Inl IncompleteU32, d)
      else (Inr (from_be_bytes [payload d ! offset d, payload d ! (offset d + 1),
                                payload d ! (offset d + 2), payload d ! (offset d + 3)]),
            advance 4 d))"

definition get_u64 :: "payload_decoder \<Rightarrow> u64 decoded" where
  "get_u64 d =
     (if offset d + 8 > length (payload d) then (Inl IncompleteU64, d)
      else (Inr (from_be_bytes [payload d ! offset d, payload d ! (offset d + 1),
                                payload d ! (offset d + 2), payload d ! (offset d + 3),
                                payload d ! (offset d + 4), payload d ! (offset d + 5),
                                payload d ! (offset d + 6), payload d ! (offset d + 7)]),
            advance 8 d))"

definition get_string_ref :: "payload_decoder \<Rightarrow> string decoded" where
  "get_string_ref d = and_then (get_u32 d) (\<lambda>n d.
     let len = unat n in
     if offset d + len > length (payload d) then (Inl IncompleteString, d)
     else (case from_utf8 (here len d) of
             None \<Rightarrow> (Inl InvalidUtf8, d)
           | Some s \<Rightarrow> (Inr s, advance len d)))"

definition get_string :: "payload_decoder \<Rightarrow> string decoded" where
  "get_string d = get_string_ref d"

definition get_bytes :: "payload_decoder \<Rightarrow> bytes decoded" where
  "get_bytes d = and_then (get_u32 d) (\<lambda>n d.
     let len = unat n in
     if offset d + len > length (payload d) then (Inl IncompleteBytes, d)
     else (Inr (here len d), advance len d))"


definition skip_bytes :: "payload_decoder \<Rightarrow> unit decoded" where
  "skip_bytes d = and_then (get_u32 d) (\<lambda>n d.
     let len = unat n in
     if offset d + len > length (payload d) then (Inl IncompleteBytes, d)
     else (Inr (), advance len d))"

definition get_optional_flag :: "payload_decoder \<Rightarrow> bool decoded" where
  "get_optional_flag d = and_then (get_u8 d) (\<lambda>flag d.
     if flag = 0 then (Inr False, d)
     else if flag = 1 then (Inr True, d)
     else (Inl (InvalidOptional flag), d))"

definition get_optional_u64 :: "payload_decoder \<Rightarrow> u64 option decoded" where
  "get_optional_u64 d = and_then (get_optional_flag d) (\<lambda>present d.
     if present then and_then (get_u64 d) (\<lambda>v d. (Inr (Some v), d)) else (Inr None, d))"

definition get_optional_string :: "payload_decoder \<Rightarrow> string option decoded" where
  "get_optional_string d = and_then (get_optional_flag d) (\<lambda>present d.
     if present then and_then (get_string d) (\<lambda>v d. (Inr (Some v), d)) else (Inr None, d))"

definition get_optional_bytes :: "payload_decoder \<Rightarrow> bytes option decoded" where
  "get_optional_bytes d = and_then (get_optional_flag d) (\<lambda>present d.
     if present then and_then (get_bytes d) (\<lambda>v d. (Inr (Some v), d)) else (Inr None, d))"

definition skip_optional_bytes :: "payload_decoder \<Rightarrow> unit decoded" where
  "skip_optional_bytes d = and_then (get_optional_flag d) (\<lambda>present d.
     if present then skip_bytes d else (Inr (), d))"

definition is_complete :: "payload_decoder \<Rightarrow> bool" where
  "is_complete d \<longleftrightarrow> offset d = length (payload d)"

section \<open>The interface of one field\<close>

text \<open>A decoder that has consumed \<open>pre\<close> and still has \<open>rest\<close> to read.\<close>

definition cur :: "bytes \<Rightarrow> bytes \<Rightarrow> payload_decoder" where
  "cur pre rest = \<lparr>payload = pre @ rest, offset = length pre\<rparr>"

text \<open>
  What a putter and a getter promise: on the values the field can carry, the putter appends
  the field's wire form and the getter reads it back and stops right behind it; and whatever
  the getter accepts is the wire form of the value it returns.
\<close>

locale field_codec =
  fixes put :: "payload_encoder \<Rightarrow> 'a \<Rightarrow> payload_encoder"
    and get :: "payload_decoder \<Rightarrow> 'a decoded"
    and wire :: "'a \<Rightarrow> bytes"
    and ok :: "'a \<Rightarrow> bool"
  assumes put_wire: "ok v \<Longrightarrow> put e v = e\<lparr>buf := buf e @ wire v\<rparr>"
    and get_wire: "ok v \<Longrightarrow> get (cur pre (wire v @ post)) = (Inr v, cur (pre @ wire v) post)"
    and get_inv: "get (cur pre rest) = (Inr v, d) \<Longrightarrow>
      ok v \<and> (\<exists>post. rest = wire v @ post \<and> d = cur (pre @ wire v) post)"
begin

lemma wire_prefix_free:
  assumes "ok v" "ok w" "wire v @ xs = wire w @ ys"
  shows "v = w \<and> xs = ys"
proof -
  from get_wire [OF assms(1), of "[]" xs] get_wire [OF assms(2), of "[]" ys] assms(3)
  have "v = w" by simp
  with assms(3) show ?thesis by simp
qed

lemma get_wire_end: "ok v \<Longrightarrow> get (cur pre (wire v)) = (Inr v, cur (pre @ wire v) [])"
  using get_wire [of v pre "[]"] by simp

lemma get_put:
  "ok v \<Longrightarrow> get (cur (buf e) (drop (length (buf e)) (buf (put e v)))) =
     (Inr v, cur (buf (put e v)) [])"
  by (simp add: put_wire get_wire_end)

end

section \<open>The fields are codecs\<close>

lemma unat_usize_to_u32_saturating [simp]:
  "n < 2 ^ 32 \<Longrightarrow> unat (usize_to_u32_saturating n) = n"
  by (simp add: usize_to_u32_saturating_def try_from_usize_def unat_of_nat)

lemma usize_to_u32_saturating_unat [simp]: "usize_to_u32_saturating (unat (w :: u32)) = w"
  by (simp add: usize_to_u32_saturating_def)

lemma here_cur: "here n (cur pre rest) = take n rest"
  by (simp add: here_def cur_def)

lemma advance_cur: "n \<le> length rest \<Longrightarrow> advance n (cur pre rest) = cur (pre @ take n rest) (drop n rest)"
  by (simp add: advance_def cur_def)

lemma room_cur: "offset (cur pre rest) + n > length (payload (cur pre rest)) \<longleftrightarrow> length rest < n"
  by (auto simp: cur_def)

lemma nth_cur: "i < length rest \<Longrightarrow> payload (cur pre rest) ! (offset (cur pre rest) + i) = rest ! i"
  by (simp add: cur_def)

lemmas cur_simps = here_cur advance_cur room_cur

lemma payload_decoder_new_cur: "payload_decoder_new p = cur [] p"
  by (simp add: payload_decoder_new_def cur_def)

lemma is_complete_cur [simp]: "is_complete (cur pre rest) \<longleftrightarrow> rest = []"
  by (simp add: is_complete_def cur_def)

text \<open>One lemma carries the scalar getters: a bounds check, then \<open>k\<close> big-endian bytes.\<close>

lemma list_of_nths: "map (\<lambda>i. payload (cur pre rest) ! (offset (cur pre rest) + i)) [0..<k] = take k rest"
  if "k \<le> length rest"
  using that by (intro nth_equalityI) (simp_all add: nth_cur)

lemma get_u8_cur: "get_u8 (cur pre rest) =
   (if length rest < 1 then (Inl IncompleteU8, cur pre rest)
    else (Inr (hd rest), cur (pre @ take 1 rest) (drop 1 rest)))"
  unfolding get_u8_def room_cur
  by (cases rest) (simp_all add: advance_cur, simp add: cur_def)

lemma get_u16_cur: "get_u16 (cur pre rest) =
   (if length rest < 2 then (Inl IncompleteU16, cur pre rest)
    else (Inr (from_be_bytes (take 2 rest)), cur (pre @ take 2 rest) (drop 2 rest)))"
  using list_of_nths [of 2 rest pre] unfolding get_u16_def room_cur
  by (simp add: advance_cur upt_rec)

lemma get_u32_cur: "get_u32 (cur pre rest) =
   (if length rest < 4 then (Inl IncompleteU32, cur pre rest)
    else (Inr (from_be_bytes (take 4 rest)), cur (pre @ take 4 rest) (drop 4 rest)))"
  using list_of_nths [of 4 rest pre] unfolding get_u32_def room_cur
  by (simp add: advance_cur upt_rec numeral_eq_Suc)

lemma get_u64_cur: "get_u64 (cur pre rest) =
   (if length rest < 8 then (Inl IncompleteU64, cur pre rest)
    else (Inr (from_be_bytes (take 8 rest)), cur (pre @ take 8 rest) (drop 8 rest)))"
  using list_of_nths [of 8 rest pre] unfolding get_u64_def room_cur
  by (simp add: advance_cur upt_rec numeral_eq_Suc)

lemmas get_cur = get_u8_cur get_u16_cur get_u32_cur get_u64_cur

lemma be_prefix:
  assumes "LENGTH('a) = 8 * k" "\<not> length rest < k"
  shows "to_be_bytes k (from_be_bytes (take k rest) :: 'a::len word) = take k rest"
  using to_from_be_bytes [of "take k rest", where ?'a = 'a] assms by (simp add: min_absorb2)

interpretation c_u8: field_codec put_u8 get_u8 "\<lambda>v. [v]" "\<lambda>_. True"
proof (unfold_locales, goal_cases)
  case (1 v e)
  then show ?case by (simp add: put_u8_def)
next
  case (2 v pre post)
  then show ?case by (simp add: get_cur)
next
  case (3 pre rest v d)
  then show ?case by (cases rest) (auto simp: get_cur split: if_splits)
qed

interpretation c_u16: field_codec put_u16 get_u16 "to_be_bytes 2" "\<lambda>_. True"
proof (unfold_locales, goal_cases)
  case (1 v e)
  then show ?case by (simp add: put_u16_def)
next
  case (2 v pre post)
  then show ?case by (simp add: get_cur from_to_be_bytes)
next
  case (3 pre rest v d)
  then show ?case using be_prefix [where ?'a = 16, of 2 rest]
    by (auto simp: get_cur split: if_splits intro!: exI [of _ "drop 2 rest"])
qed

interpretation c_u32: field_codec put_u32 get_u32 "to_be_bytes 4" "\<lambda>_. True"
proof (unfold_locales, goal_cases)
  case (1 v e)
  then show ?case by (simp add: put_u32_def)
next
  case (2 v pre post)
  then show ?case by (simp add: get_cur from_to_be_bytes)
next
  case (3 pre rest v d)
  then show ?case using be_prefix [where ?'a = 32, of 4 rest]
    by (auto simp: get_cur split: if_splits intro!: exI [of _ "drop 4 rest"])
qed

interpretation c_u64: field_codec put_u64 get_u64 "to_be_bytes 8" "\<lambda>_. True"
proof (unfold_locales, goal_cases)
  case (1 v e)
  then show ?case by (simp add: put_u64_def)
next
  case (2 v pre post)
  then show ?case by (simp add: get_cur from_to_be_bytes)
next
  case (3 pre rest v d)
  then show ?case using be_prefix [where ?'a = 64, of 8 rest]
    by (auto simp: get_cur split: if_splits intro!: exI [of _ "drop 8 rest"])
qed

text \<open>The wire form of a length-prefixed slice, and the values that fit its length field.\<close>

definition prefixed :: "bytes \<Rightarrow> bytes" where
  "prefixed bs = to_be_bytes 4 (usize_to_u32_saturating (length bs)) @ bs"

abbreviation fits :: "'a list \<Rightarrow> bool" where
  "fits xs \<equiv> length xs < 2 ^ 32"

lemma get_u32_prefix [codec_simps]:
  "get_u32 (cur pre (prefixed bs @ post)) =
     (Inr (usize_to_u32_saturating (length bs)),
      cur (pre @ to_be_bytes 4 (usize_to_u32_saturating (length bs))) (bs @ post))"
  using c_u32.get_wire [of pre "usize_to_u32_saturating (length bs)" "bs @ post"]
  by (simp add: prefixed_def)

lemma prefixed_cases:
  assumes "\<not> length rest < unat (n :: u32)"
  shows "to_be_bytes 4 n @ rest = prefixed (take (unat n) rest) @ drop (unat n) rest"
  using assms by (simp add: prefixed_def min_absorb2)

interpretation c_bytes: field_codec put_bytes get_bytes prefixed fits
proof (unfold_locales, goal_cases)
  case (1 v e)
  then show ?case by (simp add: put_bytes_def prefixed_def put_u32_def Let_def)
next
  case (2 v pre post)
  then show ?case
    by (simp add: get_bytes_def codec_simps and_then_def Let_def cur_simps)
      (simp add: prefixed_def)
next
  case (3 pre rest v d)
  then obtain n r where n: "get_u32 (cur pre rest) = (Inr n, r)"
    by (auto simp: get_bytes_def and_then_def split: prod.splits sum.splits)
  then obtain post where post: "rest = to_be_bytes 4 n @ post" "r = cur (pre @ to_be_bytes 4 n) post"
    by (auto dest: c_u32.get_inv)
  with 3 n show ?case
    using prefixed_cases [of post n]
    by (auto simp: get_bytes_def and_then_def Let_def cur_simps prefixed_def min_absorb2
        split: if_splits intro!: exI [of _ "drop (unat n) post"])
      (use unsigned_less [where ?'a = nat, of n] in simp)
qed

abbreviation str_fits :: "string \<Rightarrow> bool" where
  "str_fits s \<equiv> is_str s \<and> fits s"

interpretation c_string: field_codec put_string get_string "\<lambda>s. prefixed (as_bytes s)" str_fits
proof (unfold_locales, goal_cases)
  case (1 v e)
  then show ?case by (simp add: put_string_def prefixed_def put_u32_def Let_def)
next
  case (2 v pre post)
  then show ?case
    by (simp add: get_string_def get_string_ref_def codec_simps and_then_def Let_def cur_simps)
      (simp add: prefixed_def)
next
  case (3 pre rest v d)
  then obtain n r where n: "get_u32 (cur pre rest) = (Inr n, r)"
    by (auto simp: get_string_def get_string_ref_def and_then_def split: prod.splits sum.splits)
  then obtain post where post: "rest = to_be_bytes 4 n @ post" "r = cur (pre @ to_be_bytes 4 n) post"
    by (auto dest: c_u32.get_inv)
  with 3 n have "take (unat n) post = as_bytes v" "is_str v" "\<not> length post < unat n"
    "d = cur (pre @ to_be_bytes 4 n @ take (unat n) post) (drop (unat n) post)"
    by (auto simp: get_string_def get_string_ref_def and_then_def Let_def cur_simps
        split: if_splits option.splits dest!: from_utf8_SomeD)
  moreover from this have "length v = unat n"
    by (metis length_as_bytes length_take min_absorb2 not_less)
  ultimately show ?case
    using post prefixed_cases [of post n] unsigned_less [where ?'a = nat, of n]
    by (auto simp: prefixed_def intro!: exI [of _ "drop (unat n) post"])
qed

subsection \<open>Optional fields\<close>

fun wire_optional :: "('a \<Rightarrow> bytes) \<Rightarrow> 'a option \<Rightarrow> bytes" where
  "wire_optional w None = [0]"
| "wire_optional w (Some v) = 1 # w v"

lemma get_optional_flag_cur:
  "get_optional_flag (cur pre rest) =
     (case rest of
        [] \<Rightarrow> (Inl IncompleteU8, cur pre rest)
      | b # bs \<Rightarrow>
          (if b = 0 then (Inr False, cur (pre @ [b]) bs)
           else if b = 1 then (Inr True, cur (pre @ [b]) bs)
           else (Inl (InvalidOptional b), cur (pre @ [b]) bs)))"
  by (cases rest) (simp_all add: get_optional_flag_def and_then_def get_u8_cur)

text \<open>Any field codec gives one for its optional form: flag byte, then the value.\<close>

context field_codec
begin

lemma get_optional_inv:
  "and_then (get_optional_flag (cur pre rest)) (\<lambda>present d.
     if present then and_then (get d) (\<lambda>v d. (Inr (Some v), d)) else (Inr None, d)) = (Inr v, d)
   \<Longrightarrow> (case v of None \<Rightarrow> True | Some x \<Rightarrow> ok x) \<and>
     (\<exists>post. rest = wire_optional wire v @ post \<and> d = cur (pre @ wire_optional wire v) post)"
  by (auto simp: and_then_def get_optional_flag_cur
      split: list.splits if_splits prod.splits sum.splits dest!: get_inv)

lemma get_optional_wire:
  "(case v of None \<Rightarrow> True | Some x \<Rightarrow> ok x) \<Longrightarrow>
   and_then (get_optional_flag (cur pre (wire_optional wire v @ post))) (\<lambda>present d.
     if present then and_then (get d) (\<lambda>v d. (Inr (Some v), d)) else (Inr None, d)) =
   (Inr v, cur (pre @ wire_optional wire v) post)"
  using get_wire [of _ "pre @ [1]" post]
  by (cases v) (simp_all add: and_then_def get_optional_flag_cur)

end

interpretation c_optional_u64: field_codec put_optional_u64 get_optional_u64
  "wire_optional (to_be_bytes 8)" "\<lambda>_. True"
proof (unfold_locales, goal_cases)
  case (1 v e)
  then show ?case by (cases v) (simp_all add: put_optional_u64_def put_u8_def put_u64_def)
next
  case (2 v pre post)
  then show ?case
    using c_u64.get_optional_wire [of v pre post] by (auto simp: get_optional_u64_def split: option.splits)
next
  case (3 pre rest v d)
  then show ?case using c_u64.get_optional_inv [of pre rest v d] by (simp add: get_optional_u64_def)
qed

interpretation c_optional_string: field_codec put_optional_string get_optional_string
  "wire_optional (\<lambda>s. prefixed (as_bytes s))" "\<lambda>v. case v of None \<Rightarrow> True | Some s \<Rightarrow> str_fits s"
proof (unfold_locales, goal_cases)
  case (1 v e)
  then show ?case
    by (cases v) (simp_all add: put_optional_string_def put_u8_def put_u32_def prefixed_def Let_def)
next
  case (2 v pre post)
  then show ?case
    using c_string.get_optional_wire [of v pre post] by (auto simp: get_optional_string_def split: option.splits)
next
  case (3 pre rest v d)
  then show ?case
    using c_string.get_optional_inv [of pre rest v d] by (simp add: get_optional_string_def)
qed

lemmas get_wires [codec_simps] =
  c_u8.get_wire [simplified] c_u16.get_wire [simplified] c_u32.get_wire [simplified]
  c_u64.get_wire [simplified] c_bytes.get_wire c_string.get_wire
  c_optional_u64.get_wire [simplified] c_optional_string.get_wire
  c_u8.get_wire_end [simplified] c_u16.get_wire_end [simplified] c_u32.get_wire_end [simplified]
  c_u64.get_wire_end [simplified] c_bytes.get_wire_end c_string.get_wire_end
  c_optional_u64.get_wire_end [simplified] c_optional_string.get_wire_end

lemmas put_wires [codec_simps] =
  c_u8.put_wire [simplified] c_u16.put_wire [simplified] c_u32.put_wire [simplified]
  c_u64.put_wire [simplified] c_bytes.put_wire c_string.put_wire
  c_optional_u64.put_wire [simplified] c_optional_string.put_wire

lemmas get_invs [codec_dests] =
  c_u8.get_inv c_u16.get_inv c_u32.get_inv c_u64.get_inv c_bytes.get_inv c_string.get_inv
  c_optional_u64.get_inv c_optional_string.get_inv

lemma and_then_Inr [codec_simps]: "and_then (Inr v, d) k = k v d"
  by (simp add: and_then_def)

lemma and_then_InrE [elim!]:
  assumes "and_then r k = (Inr v, d)"
  obtains u d' where "r = (Inr u, d')" "k u d' = (Inr v, d)"
  using assms by (auto simp: and_then_def split: prod.splits sum.splits)

lemma map_err_then_Inr [codec_simps]: "map_err_then f (Inr v, d) k = k v d"
  by (simp add: map_err_then_def)

lemma map_err_then_InrE [elim!]:
  assumes "map_err_then f r k = Inr v"
  obtains u d' where "r = (Inr u, d')" "k u d' = Inr v"
  using assms by (auto simp: map_err_then_def split: prod.splits sum.splits)

text \<open>
  What a whole message body promises: the decoder accepts exactly the encodings of well-formed
  values. Decoding is then a bijection between accepted bodies and well-formed values.
\<close>

locale body_codec =
  fixes encode :: "'a \<Rightarrow> bytes"
    and decode :: "bytes \<Rightarrow> 'e + 'a"
    and ok :: "'a \<Rightarrow> bool"
  assumes decode_encode: "ok v \<Longrightarrow> decode (encode v) = Inr v"
    and decode_canonical: "decode body = Inr v \<Longrightarrow> ok v \<and> encode v = body"
begin

lemma decode_iff: "decode body = Inr v \<longleftrightarrow> ok v \<and> encode v = body"
  using decode_encode decode_canonical by blast

lemma encode_inject: "ok v \<Longrightarrow> ok w \<Longrightarrow> encode v = encode w \<longleftrightarrow> v = w"
  using decode_encode by (metis sum.inject(2))

lemma rejects_trailing: "ok v \<Longrightarrow> extra \<noteq> [] \<Longrightarrow> decode (encode v @ extra) \<noteq> Inr v"
  using decode_canonical by fastforce

end

section \<open>Message layouts\<close>

text \<open>
  A message body is a sequence of typed fields. The layouts below are the specification against
  which the putters and getters are compared: a list of field values, and the list of their
  kinds, which is all a decoder knows.
\<close>

datatype field_kind = KU8 | KU16 | KU32 | KU64 | KStr | KBytes | KOptU64 | KOptStr

datatype field =
    FU8 u8 | FU16 u16 | FU32 u32 | FU64 u64 | FStr string | FBytes bytes
  | FOptU64 "u64 option" | FOptStr "string option"

fun kind :: "field \<Rightarrow> field_kind" where
  "kind (FU8 _) = KU8"
| "kind (FU16 _) = KU16"
| "kind (FU32 _) = KU32"
| "kind (FU64 _) = KU64"
| "kind (FStr _) = KStr"
| "kind (FBytes _) = KBytes"
| "kind (FOptU64 _) = KOptU64"
| "kind (FOptStr _) = KOptStr"

fun field_ok :: "field \<Rightarrow> bool" where
  "field_ok (FStr s) = str_fits s"
| "field_ok (FBytes b) = fits b"
| "field_ok (FOptStr (Some s)) = str_fits s"
| "field_ok _ = True"

fun put_field :: "field \<Rightarrow> payload_encoder \<Rightarrow> payload_encoder" where
  "put_field (FU8 v) e = put_u8 e v"
| "put_field (FU16 v) e = put_u16 e v"
| "put_field (FU32 v) e = put_u32 e v"
| "put_field (FU64 v) e = put_u64 e v"
| "put_field (FStr v) e = put_string e v"
| "put_field (FBytes v) e = put_bytes e v"
| "put_field (FOptU64 v) e = put_optional_u64 e v"
| "put_field (FOptStr v) e = put_optional_string e v"

fun get_field :: "field_kind \<Rightarrow> payload_decoder \<Rightarrow> field decoded" where
  "get_field KU8 d = and_then (get_u8 d) (\<lambda>v d. (Inr (FU8 v), d))"
| "get_field KU16 d = and_then (get_u16 d) (\<lambda>v d. (Inr (FU16 v), d))"
| "get_field KU32 d = and_then (get_u32 d) (\<lambda>v d. (Inr (FU32 v), d))"
| "get_field KU64 d = and_then (get_u64 d) (\<lambda>v d. (Inr (FU64 v), d))"
| "get_field KStr d = and_then (get_string d) (\<lambda>v d. (Inr (FStr v), d))"
| "get_field KBytes d = and_then (get_bytes d) (\<lambda>v d. (Inr (FBytes v), d))"
| "get_field KOptU64 d = and_then (get_optional_u64 d) (\<lambda>v d. (Inr (FOptU64 v), d))"
| "get_field KOptStr d = and_then (get_optional_string d) (\<lambda>v d. (Inr (FOptStr v), d))"

fun get_fields :: "field_kind list \<Rightarrow> payload_decoder \<Rightarrow> field list decoded" where
  "get_fields [] d = (Inr [], d)"
| "get_fields (k # ks) d =
     and_then (get_field k d) (\<lambda>f d. and_then (get_fields ks d) (\<lambda>fs d. (Inr (f # fs), d)))"

definition encode_fields :: "field list \<Rightarrow> bytes" where
  "encode_fields fs = fst (finish (fold put_field fs payload_encoder_new))"

fun wire_field :: "field \<Rightarrow> bytes" where
  "wire_field (FU8 v) = [v]"
| "wire_field (FU16 v) = to_be_bytes 2 v"
| "wire_field (FU32 v) = to_be_bytes 4 v"
| "wire_field (FU64 v) = to_be_bytes 8 v"
| "wire_field (FStr v) = prefixed (as_bytes v)"
| "wire_field (FBytes v) = prefixed v"
| "wire_field (FOptU64 v) = wire_optional (to_be_bytes 8) v"
| "wire_field (FOptStr v) = wire_optional (\<lambda>s. prefixed (as_bytes s)) v"

lemma field_ok_opt: "field_ok (FOptStr v) \<longleftrightarrow> (case v of None \<Rightarrow> True | Some s \<Rightarrow> str_fits s)"
  by (cases v) auto

lemma put_field_wire: "field_ok f \<Longrightarrow> put_field f e = e\<lparr>buf := buf e @ wire_field f\<rparr>"
  by (cases f) (auto simp: codec_simps field_ok_opt simp del: field_ok.simps(3))

lemma fold_put_field:
  "list_all field_ok fs \<Longrightarrow> buf (fold put_field fs e) = buf e @ concat (map wire_field fs)"
  by (induction fs arbitrary: e) (auto simp: put_field_wire)

lemma encode_fields_wire: "list_all field_ok fs \<Longrightarrow> encode_fields fs = concat (map wire_field fs)"
  by (simp add: encode_fields_def finish_def fold_put_field payload_encoder_new_def)

lemma get_field_wire:
  "field_ok f \<Longrightarrow> get_field (kind f) (cur pre (wire_field f @ post)) = (Inr f, cur (pre @ wire_field f) post)"
  by (cases f) (auto simp: codec_simps field_ok_opt simp del: field_ok.simps(3))

lemma get_field_inv:
  "get_field k (cur pre rest) = (Inr f, d) \<Longrightarrow>
     field_ok f \<and> kind f = k \<and> (\<exists>post. rest = wire_field f @ post \<and> d = cur (pre @ wire_field f) post)"
  by (cases k) (auto simp: field_ok_opt simp del: field_ok.simps(3) dest!: codec_dests)

lemma get_fields_wire:
  "list_all field_ok fs \<Longrightarrow>
     get_fields (map kind fs) (cur pre (concat (map wire_field fs) @ post)) =
       (Inr fs, cur (pre @ concat (map wire_field fs)) post)"
  by (induction fs arbitrary: pre) (auto simp: codec_simps get_field_wire)

lemma get_fields_inv:
  "get_fields ks (cur pre rest) = (Inr fs, d) \<Longrightarrow>
     list_all field_ok fs \<and> map kind fs = ks \<and>
     (\<exists>post. rest = concat (map wire_field fs) @ post \<and> d = cur (pre @ concat (map wire_field fs)) post)"
proof (induction ks arbitrary: pre rest fs)
  case Nil
  then show ?case by auto
next
  case (Cons k ks)
  then show ?case by (fastforce dest!: get_field_inv)
qed

section \<open>Properties\<close>

text \<open>
  \<^bold>\<open>C8.\<close> Round trip of message bodies: for every sequence of typed fields whose strings are
  UTF-8 and whose lengths fit the 32-bit prefix, decoding the encoder's output with the same
  layout gives the fields back and consumes the payload exactly.
\<close>

theorem payload_layout_roundtrip:
  assumes "list_all field_ok fs"
  shows "\<exists>d. get_fields (map kind fs) (payload_decoder_new (encode_fields fs)) = (Inr fs, d) \<and> is_complete d"
  using get_fields_wire [OF assms, of "[]" "[]"]
  by (simp add: encode_fields_wire [OF assms] payload_decoder_new_cur)

theorem payload_layout_roundtrip_witness:
  "\<exists>d. get_fields [KU8, KStr, KOptU64]
     (payload_decoder_new (encode_fields [FU8 7, FStr ''kv'', FOptU64 (Some 9)]))
     = (Inr [FU8 7, FStr ''kv'', FOptU64 (Some 9)], d) \<and> is_complete d"
  using payload_layout_roundtrip [of "[FU8 7, FStr ''kv'', FOptU64 (Some 9)]"]
  by (simp add: is_str_def as_bytes_def)

text \<open>
  \<^bold>\<open>C9.\<close> Canonical bodies: a payload that a layout decodes completely is exactly the encoding of
  the decoded fields, so no two payloads decode to the same message, and every decoded string is
  UTF-8 and every length fits its prefix.
\<close>

theorem payload_layout_canonical:
  assumes "get_fields ks (payload_decoder_new p) = (Inr fs, d)" "is_complete d"
  shows "p = encode_fields fs \<and> map kind fs = ks \<and> list_all field_ok fs"
  using get_fields_inv [of ks "[]" p fs d] assms
  by (auto simp: payload_decoder_new_cur encode_fields_wire)

theorem payload_layout_canonical_witness:
  "[0, 0, 0, 1, 65, 5] = encode_fields [FStr ''A'', FU8 5] \<and>
   map kind [FStr ''A'', FU8 5] = [KStr, KU8] \<and> list_all field_ok [FStr ''A'', FU8 5]"
proof (rule payload_layout_canonical)
  show "get_fields [KStr, KU8] (payload_decoder_new [0, 0, 0, 1, 65, 5]) =
      (Inr [FStr ''A'', FU8 5], \<lparr>payload = [0, 0, 0, 1, 65, 5], offset = 6\<rparr>)"
    by (simp add: get_string_def get_string_ref_def get_u32_def get_u8_def and_then_def
        payload_decoder_new_def from_be_bytes_def advance_def here_def from_utf8_def
        str_of_bytes_def char_of_def bit_0)
  show "is_complete \<lparr>payload = [0, 0, 0, 1, 65, 5], offset = 6\<rparr>"
    by (simp add: is_complete_def)
qed


end
