(* ===== verification/Wire_Header.thy ===== *)
theory Wire_Header
  imports Payload_Codec
begin

text \<open>
  \<^verbatim>\<open>src/src/protocol/wire2/header.rs\<close> and \<^verbatim>\<open>wire3/header.rs\<close>: the fixed 15-byte message header,
  its flag registry for wire formats 2 and 3, and the exact-length message it frames.

  \<^verbatim>\<open>HeaderFlags\<close> is a newtype over \<^verbatim>\<open>u8\<close> and is that byte here. \<^verbatim>\<open>Option<NonZeroU64>\<close> is an optional
  word that is never \<open>Some 0\<close> (\<open>nonzero\<close>). The \<^verbatim>\<open>expect\<close> of \<^verbatim>\<open>encode_message\<close> is the result \<open>None\<close>.
\<close>

section \<open>Definitions\<close>

definition HEADER_LEN :: nat where
  "HEADER_LEN = 15"

definition FLAG_ACK_REQUESTED :: u8 where
  "FLAG_ACK_REQUESTED = 0b00000001"

definition FLAG_RESPONSE_FINAL :: u8 where
  "FLAG_RESPONSE_FINAL = 0b00000010"

definition FLAG_EXTENSIONS_PRESENT :: u8 where
  "FLAG_EXTENSIONS_PRESENT = 0b00000100"

definition RESERVED_FLAGS :: u8 where
  "RESERVED_FLAGS = NOT (FLAG_ACK_REQUESTED OR FLAG_RESPONSE_FINAL)"

definition WIRE3_RESERVED_FLAGS :: u8 where
  "WIRE3_RESERVED_FLAGS =
     NOT (FLAG_ACK_REQUESTED OR FLAG_RESPONSE_FINAL OR FLAG_EXTENSIONS_PRESENT)"

definition with_extensions_present :: "u8 \<Rightarrow> u8" where
  "with_extensions_present flags = flags OR FLAG_EXTENSIONS_PRESENT"

definition is_response_final :: "u8 \<Rightarrow> bool" where
  "is_response_final flags \<longleftrightarrow> flags AND FLAG_RESPONSE_FINAL \<noteq> 0"

definition is_ack_requested :: "u8 \<Rightarrow> bool" where
  "is_ack_requested flags \<longleftrightarrow> flags AND FLAG_ACK_REQUESTED \<noteq> 0"

definition is_extensions_present :: "u8 \<Rightarrow> bool" where
  "is_extensions_present flags \<longleftrightarrow> flags AND FLAG_EXTENSIONS_PRESENT \<noteq> 0"

definition from_bits :: "u8 \<Rightarrow> u8 + u8" where
  "from_bits bits =
     (if bits AND RESERVED_FLAGS = 0 then Inr bits else Inl (bits AND RESERVED_FLAGS))"

definition from_wire3_bits :: "u8 \<Rightarrow> u8 + u8" where
  "from_wire3_bits bits =
     (if bits AND WIRE3_RESERVED_FLAGS = 0 then Inr bits else Inl (bits AND WIRE3_RESERVED_FLAGS))"

definition nonzero_new :: "'a::len word \<Rightarrow> 'a word option" where
  "nonzero_new w = (if w = 0 then None else Some w)"

record message_header =
  message_type :: u16
  hdr_flags :: u8
  correlation :: "u64 option"
  hdr_length :: u32

datatype extension_error =
    CoreTooLarge | CoreLengthMissing | CoreLengthOutOfBounds | FieldHeaderTruncated
  | FieldIdReserved | FieldLengthOverflow | FieldValueTruncated | NoExtensionFields
  | KnownSingletonRepeated | CapabilityListTruncated | CapabilityListLengthMismatch
  | CapabilityListMissing | CapabilityIdReserved | CapabilityIdsOutOfOrder | FieldsOutOfOrder
  | DuplicateField | FieldTooLarge | PayloadTooLarge | InvalidQueueTtl

datatype message_error =
    HeaderTruncated nat
  | ReservedFlags u8 u16 "u64 option"
  | TooLarge u32 u32
  | LengthMismatch u32 nat
  | InvalidExtensions extension_error

definition header_encode :: "message_header \<Rightarrow> bytes" where
  "header_encode h =
     to_be_bytes 2 (message_type h) @ [hdr_flags h]
     @ to_be_bytes 8 (case correlation h of None \<Rightarrow> 0 | Some c \<Rightarrow> c)
     @ to_be_bytes 4 (hdr_length h)"

definition decode_with_flags :: "bytes \<Rightarrow> (u8 \<Rightarrow> u8 + u8) \<Rightarrow> message_error + message_header" where
  "decode_with_flags frame decode_flags =
     (if length frame < HEADER_LEN then Inl (HeaderTruncated (length frame))
      else
        let mt = from_be_bytes [frame ! 0, frame ! 1];
            corr = nonzero_new (from_be_bytes (take 8 (drop 3 frame)))
        in case decode_flags (frame ! 2) of
             Inl bits \<Rightarrow> Inl (ReservedFlags bits mt corr)
           | Inr flags \<Rightarrow> Inr \<lparr>message_type = mt, hdr_flags = flags, correlation = corr,
                              hdr_length = from_be_bytes (take 4 (drop 11 frame))\<rparr>)"

definition header_decode :: "bytes \<Rightarrow> message_error + message_header" where
  "header_decode frame = decode_with_flags frame from_bits"

definition header_decode_wire3 :: "bytes \<Rightarrow> message_error + message_header" where
  "header_decode_wire3 frame = decode_with_flags frame from_wire3_bits"

definition encode_message :: "u16 \<Rightarrow> u8 \<Rightarrow> u64 option \<Rightarrow> bytes \<Rightarrow> bytes option" where
  "encode_message mt flags corr val =
     map_option (\<lambda>len.
       header_encode \<lparr>message_type = mt, hdr_flags = flags, correlation = corr, hdr_length = len\<rparr> @ val)
       (try_from_usize (length val))"

text \<open>The size and exact-length checks that both decoders run on the decoded header.\<close>

definition max_value_bytes :: "u32 \<Rightarrow> u32" where
  "max_value_bytes max_message_bytes = (if max_message_bytes < 15 then 0 else max_message_bytes - 15)"

definition decode_message :: "bytes \<Rightarrow> u32 \<Rightarrow> message_error + (message_header \<times> bytes)" where
  "decode_message frame max_message_bytes =
     (case header_decode frame of
        Inl e \<Rightarrow> Inl e
      | Inr header \<Rightarrow>
          if max_message_bytes < 15 \<or> hdr_length header > max_value_bytes max_message_bytes
          then Inl (TooLarge (hdr_length header) (max_value_bytes max_message_bytes))
          else
            let val = drop HEADER_LEN frame in
            if length val \<noteq> unat (hdr_length header)
            then Inl (LengthMismatch (hdr_length header) (length val))
            else Inr (header, val))"

definition decode_message_wire3 :: "bytes \<Rightarrow> u32 \<Rightarrow> message_error + (message_header \<times> bytes)" where
  "decode_message_wire3 frame max_message_bytes =
     (case header_decode_wire3 frame of
        Inl e \<Rightarrow> Inl e
      | Inr header \<Rightarrow>
          if max_message_bytes < 15 \<or> hdr_length header > max_value_bytes max_message_bytes
          then Inl (TooLarge (hdr_length header) (max_value_bytes max_message_bytes))
          else
            let val = drop HEADER_LEN frame in
            if length val \<noteq> unat (hdr_length header)
            then Inl (LengthMismatch (hdr_length header) (length val))
            else Inr (header, val))"

section \<open>Headers\<close>

abbreviation nonzero :: "'a::len word option \<Rightarrow> bool" where
  "nonzero c \<equiv> c \<noteq> Some 0"

lemma nonzero_new_get [simp]: "nonzero c \<Longrightarrow> nonzero_new (case c of None \<Rightarrow> 0 | Some w \<Rightarrow> w) = c"
  by (cases c) (auto simp: nonzero_new_def)

lemma get_nonzero_new [simp]: "(case nonzero_new w of None \<Rightarrow> 0 | Some w \<Rightarrow> w) = w"
  by (simp add: nonzero_new_def)

lemma nonzero_nonzero_new [simp]: "nonzero (nonzero_new w)"
  by (simp add: nonzero_new_def)

lemma length_header_encode [simp]: "length (header_encode h) = HEADER_LEN"
  by (simp add: header_encode_def HEADER_LEN_def)

lemma decode_with_flags_encode:
  assumes "nonzero (correlation h)"
  shows "decode_with_flags (header_encode h @ rest) f =
    (case f (hdr_flags h) of
       Inl bits \<Rightarrow> Inl (ReservedFlags bits (message_type h) (correlation h))
     | Inr flags \<Rightarrow> Inr (h\<lparr>hdr_flags := flags\<rparr>))"
proof -
  let ?m = "to_be_bytes 2 (message_type h)"
  let ?c = "to_be_bytes 8 (case correlation h of None \<Rightarrow> 0 | Some c \<Rightarrow> c)"
  let ?l = "to_be_bytes 4 (hdr_length h)"
  let ?frame = "?m @ [hdr_flags h] @ ?c @ ?l @ rest"
  have "[?frame ! 0, ?frame ! 1] = ?m"
    by (rule nth_equalityI) (auto simp: nth_append less_Suc_eq)
  moreover have "take 8 (drop 3 ?frame) = ?c" "take 4 (drop 11 ?frame) = ?l" "?frame ! 2 = hdr_flags h"
    by (simp_all add: nth_append)
  ultimately show ?thesis
    using assms unfolding decode_with_flags_def header_encode_def
    by (simp add: from_to_be_bytes HEADER_LEN_def split: sum.splits)
qed

lemma encode_decode_with_flags:
  assumes "decode_with_flags frame f = Inr h" "\<And>b b'. f b = Inr b' \<Longrightarrow> b' = b"
  shows "take HEADER_LEN frame = header_encode h \<and> nonzero (correlation h) \<and> f (hdr_flags h) = Inr (hdr_flags h)"
proof -
  from assms(1) have len: "15 \<le> length frame"
    by (auto simp: decode_with_flags_def HEADER_LEN_def split: if_splits)
  obtain flags where flags: "f (frame ! 2) = Inr flags"
    using assms(1) len by (auto simp: decode_with_flags_def Let_def split: if_splits sum.splits)
  with assms(2) have same: "flags = frame ! 2" by blast
  have m: "[frame ! 0, frame ! 1] = take 2 frame"
    using len by (intro nth_equalityI) (auto simp: less_Suc_eq)
  have h: "h = \<lparr>message_type = from_be_bytes (take 2 frame), hdr_flags = frame ! 2,
      correlation = nonzero_new (from_be_bytes (take 8 (drop 3 frame))),
      hdr_length = from_be_bytes (take 4 (drop 11 frame))\<rparr>"
    using assms(1) flags same len m
    by (auto simp: decode_with_flags_def Let_def HEADER_LEN_def split: if_splits)
  have "take 15 frame = take 2 frame @ [frame ! 2] @ take 8 (drop 3 frame) @ take 4 (drop 11 frame)"
  proof -
    have "take (2 + (1 + (8 + 4))) frame = take 2 frame @ take 1 (drop 2 frame)
        @ take 8 (drop 3 frame) @ take 4 (drop 11 frame)"
      by (simp only: take_add drop_drop) (simp add: numeral_3_eq_3)
    moreover have "take 1 (drop 2 frame) = [frame ! 2]"
      using len by (simp add: take_Suc_conv_app_nth hd_drop_conv_nth take_Suc)
    ultimately show ?thesis by simp
  qed
  with h len flags same show ?thesis
    by (simp add: header_encode_def HEADER_LEN_def be_prefix)
qed

section \<open>Messages under a flag registry\<close>

text \<open>
  The wire 2 and wire 3 decoders differ in the flag registry only. The locale is what they
  share: a registry that passes a byte through or reports its reserved bits, and a decoder that
  checks size and exact length behind the header.
\<close>

locale framed_message =
  fixes decode_flags :: "u8 \<Rightarrow> u8 + u8"
    and reserved :: u8
    and decode :: "bytes \<Rightarrow> u32 \<Rightarrow> message_error + (message_header \<times> bytes)"
  assumes flags_registry: "decode_flags b = (if b AND reserved = 0 then Inr b else Inl (b AND reserved))"
    and decode_checks: "decode frame limit =
      (case decode_with_flags frame decode_flags of
         Inl e \<Rightarrow> Inl e
       | Inr h \<Rightarrow>
           if limit < 15 \<or> hdr_length h > max_value_bytes limit
           then Inl (TooLarge (hdr_length h) (max_value_bytes limit))
           else if length (drop HEADER_LEN frame) \<noteq> unat (hdr_length h)
           then Inl (LengthMismatch (hdr_length h) (length (drop HEADER_LEN frame)))
           else Inr (h, drop HEADER_LEN frame))"
begin

lemma decode_encode_message:
  assumes "flags AND reserved = 0" "nonzero corr" "15 + length val \<le> unat limit"
  shows "\<exists>frame len. encode_message mt flags corr val = Some frame \<and> unat len = length val \<and>
    decode frame limit = Inr (\<lparr>message_type = mt, hdr_flags = flags, correlation = corr, hdr_length = len\<rparr>, val)"
proof -
  from assms(3) have lt: "length val < 2 ^ 32"
    using unsigned_less [where ?'a = nat, of limit] by simp
  define len :: u32 where "len = of_nat (length val)"
  from lt have len: "unat len = length val" by (simp add: len_def unat_of_nat)
  have enc: "encode_message mt flags corr val = Some (header_encode
      \<lparr>message_type = mt, hdr_flags = flags, correlation = corr, hdr_length = len\<rparr> @ val)"
    using lt by (simp add: encode_message_def try_from_usize_def len_def)
  have "\<not> limit < 15" "\<not> len > max_value_bytes limit"
    using assms(3) len by (auto simp: max_value_bytes_def word_less_nat_alt unat_sub word_le_nat_alt)
  then have "decode (header_encode \<lparr>message_type = mt, hdr_flags = flags, correlation = corr, hdr_length = len\<rparr> @ val) limit
      = Inr (\<lparr>message_type = mt, hdr_flags = flags, correlation = corr, hdr_length = len\<rparr>, val)"
    using assms len by (simp add: decode_checks decode_with_flags_encode flags_registry)
  with enc len show ?thesis by blast
qed

lemma encode_decode_message:
  assumes "decode frame limit = Inr (h, val)"
  shows "encode_message (message_type h) (hdr_flags h) (correlation h) val = Some frame \<and>
    nonzero (correlation h) \<and> hdr_flags h AND reserved = 0 \<and> unat (hdr_length h) = length val \<and>
    length frame \<le> unat limit"
proof -
  from assms have dec: "decode_with_flags frame decode_flags = Inr h"
    and small: "\<not> limit < 15" "\<not> hdr_length h > max_value_bytes limit"
    and val: "val = drop HEADER_LEN frame" "length val = unat (hdr_length h)"
    by (auto simp: decode_checks split: sum.splits if_splits)
  have "\<And>b b'. decode_flags b = Inr b' \<Longrightarrow> b' = b"
    by (simp add: flags_registry split: if_splits)
  from encode_decode_with_flags [OF dec this] have
    hdr: "take HEADER_LEN frame = header_encode h" "nonzero (correlation h)"
      "decode_flags (hdr_flags h) = Inr (hdr_flags h)"
    by blast+
  have "frame = header_encode h @ val"
    using append_take_drop_id [of HEADER_LEN frame] unfolding hdr(1) val(1) by simp
  moreover from this have "length frame = 15 + length val"
    by (simp only: length_append length_header_encode HEADER_LEN_def)
  moreover have "15 + length val \<le> unat limit"
    using small unfolding val(2) by (simp add: max_value_bytes_def word_less_nat_alt unat_sub word_le_nat_alt)
  moreover have "encode_message (message_type h) (hdr_flags h) (correlation h) val = Some (header_encode h @ val)"
    unfolding encode_message_def val(2) using unsigned_less [where ?'a = nat, of "hdr_length h"]
    by (cases h) (simp add: try_from_usize_def)
  moreover have "hdr_flags h AND reserved = 0"
    using hdr(3) by (simp add: flags_registry split: if_splits)
  ultimately show ?thesis
    using hdr(2) val(2) by simp
qed

lemma decode_rejects_reserved:
  assumes "15 \<le> length frame" "frame ! 2 AND reserved \<noteq> 0"
  shows "decode frame limit = Inl (ReservedFlags (frame ! 2 AND reserved)
     (from_be_bytes [frame ! 0, frame ! 1]) (nonzero_new (from_be_bytes (take 8 (drop 3 frame)))))"
  using assms by (simp add: decode_checks decode_with_flags_def flags_registry HEADER_LEN_def)

end

interpretation w2: framed_message from_bits RESERVED_FLAGS decode_message
  by unfold_locales
    (simp_all add: from_bits_def decode_message_def header_decode_def Let_def split: sum.splits)

interpretation w3: framed_message from_wire3_bits WIRE3_RESERVED_FLAGS decode_message_wire3
  by unfold_locales
    (simp_all add: from_wire3_bits_def decode_message_wire3_def header_decode_wire3_def Let_def split: sum.splits)

lemma reserved_flags_decompose: "b AND RESERVED_FLAGS = (b AND WIRE3_RESERVED_FLAGS) OR (b AND FLAG_EXTENSIONS_PRESENT)"
proof -
  have "RESERVED_FLAGS = WIRE3_RESERVED_FLAGS OR FLAG_EXTENSIONS_PRESENT"
    by (simp add: RESERVED_FLAGS_def WIRE3_RESERVED_FLAGS_def FLAG_ACK_REQUESTED_def
        FLAG_RESPONSE_FINAL_def FLAG_EXTENSIONS_PRESENT_def)
  then show ?thesis by (metis bit.conj_disj_distrib)
qed

lemma reserved_flags_split:
  "b AND RESERVED_FLAGS = 0 \<longleftrightarrow> b AND WIRE3_RESERVED_FLAGS = 0 \<and> \<not> is_extensions_present b"
  by (simp add: reserved_flags_decompose is_extensions_present_def or_eq_0_iff)

lemma reserved_flags_same:
  "\<not> is_extensions_present b \<Longrightarrow> b AND RESERVED_FLAGS = b AND WIRE3_RESERVED_FLAGS"
  by (simp add: reserved_flags_decompose is_extensions_present_def)

section \<open>Properties\<close>

text \<open>
  \<^bold>\<open>C11.\<close> Round trip of messages on wire formats 2 and 3: a message whose flags are registered
  for the format and whose total size is within the negotiated limit is decoded to the header and the
  value it was encoded from.
\<close>

theorem message_roundtrip:
  assumes "nonzero corr" and "15 + length val \<le> unat limit"
  shows "(flags AND RESERVED_FLAGS = 0 \<longrightarrow>
      (\<exists>frame len. encode_message mt flags corr val = Some frame \<and> unat len = length val \<and>
        decode_message frame limit = Inr (\<lparr>message_type = mt, hdr_flags = flags, correlation = corr, hdr_length = len\<rparr>, val))) \<and>
    (flags AND WIRE3_RESERVED_FLAGS = 0 \<longrightarrow>
      (\<exists>frame len. encode_message mt flags corr val = Some frame \<and> unat len = length val \<and>
        decode_message_wire3 frame limit = Inr (\<lparr>message_type = mt, hdr_flags = flags, correlation = corr, hdr_length = len\<rparr>, val)))"
  using w2.decode_encode_message [OF _ assms] w3.decode_encode_message [OF _ assms] by blast

theorem message_roundtrip_witness:
  "\<exists>frame len. encode_message 200 4 (Some 7) [1, 2] = Some frame \<and> unat len = length [1, 2 :: u8] \<and>
     decode_message_wire3 frame 17 = Inr (\<lparr>message_type = 200, hdr_flags = 4, correlation = Some 7, hdr_length = len\<rparr>, [1, 2])"
  using message_roundtrip [of "Some 7" "[1, 2]" 17 4 200]
  by (simp add: WIRE3_RESERVED_FLAGS_def FLAG_ACK_REQUESTED_def FLAG_RESPONSE_FINAL_def FLAG_EXTENSIONS_PRESENT_def)

text \<open>
  \<^bold>\<open>C12.\<close> Only canonical frames within the limit are accepted: a frame that decodes is exactly the
  encoding of the decoded header and value, its flags are registered, its correlation is never zero,
  and its total size does not exceed the negotiated limit.
\<close>

theorem message_canonical:
  assumes "decode_message frame limit = Inr (h, val)"
  shows "encode_message (message_type h) (hdr_flags h) (correlation h) val = Some frame \<and>
    nonzero (correlation h) \<and> hdr_flags h AND RESERVED_FLAGS = 0 \<and>
    unat (hdr_length h) = length val \<and> length frame \<le> unat limit"
  using assms by (rule w2.encode_decode_message)

theorem message_canonical_witness:
  "encode_message 1 0 None [9] = Some [0, 1, 0, 0, 0, 0, 0, 0, 0, 0, 0, 0, 0, 0, 1, 9]"
  using message_canonical [of "[0, 1, 0, 0, 0, 0, 0, 0, 0, 0, 0, 0, 0, 0, 1, 9]" 16
      "\<lparr>message_type = 1, hdr_flags = 0, correlation = None, hdr_length = 1\<rparr>" "[9]"]
  by (simp add: decode_message_def header_decode_def decode_with_flags_def HEADER_LEN_def from_bits_def
      from_be_bytes_def nonzero_new_def max_value_bytes_def)

text \<open>
  \<^bold>\<open>C13.\<close> Wire 3 extends wire 2 by one flag only: on a frame without the extension flag the two
  decoders return the same result, error or not; on a complete header with the flag, the wire 2
  decoder reports it as a reserved bit together with the message type and correlation needed to answer
  the request.
\<close>

theorem wire3_extends_wire2:
  "((15 \<le> length frame \<longrightarrow> \<not> is_extensions_present (frame ! 2)) \<longrightarrow>
     decode_message_wire3 frame limit = decode_message frame limit) \<and>
   (15 \<le> length frame \<and> is_extensions_present (frame ! 2) \<longrightarrow>
     decode_message frame limit = Inl (ReservedFlags (frame ! 2 AND RESERVED_FLAGS)
       (from_be_bytes [frame ! 0, frame ! 1]) (nonzero_new (from_be_bytes (take 8 (drop 3 frame))))))"
proof (intro conjI impI)
  assume ext: "15 \<le> length frame \<longrightarrow> \<not> is_extensions_present (frame ! 2)"
  then have "decode_with_flags frame from_wire3_bits = decode_with_flags frame from_bits"
    by (auto simp: decode_with_flags_def HEADER_LEN_def from_bits_def from_wire3_bits_def
        dest: reserved_flags_same)
  then show "decode_message_wire3 frame limit = decode_message frame limit"
    by (simp add: w2.decode_checks w3.decode_checks)
next
  assume "15 \<le> length frame \<and> is_extensions_present (frame ! 2)"
  then show "decode_message frame limit = Inl (ReservedFlags (frame ! 2 AND RESERVED_FLAGS)
       (from_be_bytes [frame ! 0, frame ! 1]) (nonzero_new (from_be_bytes (take 8 (drop 3 frame)))))"
    by (intro w2.decode_rejects_reserved) (auto simp: reserved_flags_split)
qed

theorem wire3_extends_wire2_witness:
  "decode_message_wire3 [0, 1, 3] 100 = decode_message [0, 1, 3] 100 \<and>
   decode_message [0, 1, 4, 0, 0, 0, 0, 0, 0, 0, 0, 0, 0, 0, 0] 100 = Inl (ReservedFlags 4 1 None)"
  using wire3_extends_wire2 [of "[0, 1, 3]" 100]
    wire3_extends_wire2 [of "[0, 1, 4, 0, 0, 0, 0, 0, 0, 0, 0, 0, 0, 0, 0]" 100]
  by (simp add: is_extensions_present_def FLAG_EXTENSIONS_PRESENT_def RESERVED_FLAGS_def
      FLAG_ACK_REQUESTED_def FLAG_RESPONSE_FINAL_def from_be_bytes_def nonzero_new_def)

end
