(* ===== verification/Wire_Envelope.thy ===== *)
theory Wire_Envelope
  imports Payload_Codec
begin

text \<open>
  The response envelope of wire format 2 (\<^verbatim>\<open>src/protocol/wire2/envelope.rs\<close>) and
  the error catalog (\<^verbatim>\<open>src/protocol/wire2/catalog.rs\<close>). A response body is a status
  byte followed by the domain payload, or by one error envelope: code, class, effect and
  diagnostic text. The catalog lists every code with its class and effect. The lemmas show that
  the envelope decoder is exactly inverse to the two encoders and that the catalog assigns every
  code once, with the class its slot announces.
\<close>

section \<open>Definitions\<close>

subsection \<open>The envelope\<close>

datatype error_class =
    DomainClass | Unauthorized | InvalidRoute | InvalidPattern | RegistrationLimit | Busy
  | Backend | Timeout | BadRequest | NotFound | Unsupported

text \<open>The discriminant, \<^verbatim>\<open>class as u8\<close> and \<^verbatim>\<open>class as u16\<close>.\<close>

fun class_discriminant :: "error_class \<Rightarrow> 'a::len word" where
  "class_discriminant DomainClass = 0"
| "class_discriminant Unauthorized = 1"
| "class_discriminant InvalidRoute = 2"
| "class_discriminant InvalidPattern = 3"
| "class_discriminant RegistrationLimit = 4"
| "class_discriminant Busy = 5"
| "class_discriminant Backend = 6"
| "class_discriminant Timeout = 7"
| "class_discriminant BadRequest = 8"
| "class_discriminant NotFound = 9"
| "class_discriminant Unsupported = 10"

definition error_class_all :: "error_class list" where
  "error_class_all = [DomainClass, Unauthorized, InvalidRoute, InvalidPattern, RegistrationLimit,
     Busy, Backend, Timeout, BadRequest, NotFound, Unsupported]"

definition error_class_from_u8 :: "u8 \<Rightarrow> error_class option" where
  "error_class_from_u8 value =
     (if value = 0 then Some DomainClass
      else if value = 1 then Some Unauthorized
      else if value = 2 then Some InvalidRoute
      else if value = 3 then Some InvalidPattern
      else if value = 4 then Some RegistrationLimit
      else if value = 5 then Some Busy
      else if value = 6 then Some Backend
      else if value = 7 then Some Timeout
      else if value = 8 then Some BadRequest
      else if value = 9 then Some NotFound
      else if value = 10 then Some Unsupported
      else None)"

definition shared_slot :: "error_class \<Rightarrow> u16 option" where
  "shared_slot c = (case c of DomainClass \<Rightarrow> None | other \<Rightarrow> Some (class_discriminant other))"

datatype effect = NotApplied | Indeterminate | Applied

fun effect_discriminant :: "effect \<Rightarrow> u8" where
  "effect_discriminant NotApplied = 0"
| "effect_discriminant Indeterminate = 1"
| "effect_discriminant Applied = 2"

definition effect_from_u8 :: "u8 \<Rightarrow> effect option" where
  "effect_from_u8 value =
     (if value = 0 then Some NotApplied
      else if value = 1 then Some Indeterminate
      else if value = 2 then Some Applied
      else None)"

record wire_error =
  err_code :: u16
  err_class :: error_class
  err_effect :: effect
  err_message :: string

datatype response = Success bytes | Error wire_error

datatype envelope_error =
    EmptyBody | UnknownStatus u8 | UnknownClass u8 | UnknownEffect u8
  | Malformed payload_error | TrailingBytes

definition STATUS_SUCCESS :: u8 where "STATUS_SUCCESS = 0"
definition STATUS_ERROR :: u8 where "STATUS_ERROR = 1"

definition encode_success :: "bytes \<Rightarrow> bytes" where
  "encode_success body = [STATUS_SUCCESS] @ body"

definition encode_error :: "wire_error \<Rightarrow> bytes" where
  "encode_error e =
     (let enc = payload_encoder_new;
          enc = put_u8 enc STATUS_ERROR;
          enc = put_u16 enc (err_code e);
          enc = put_u8 enc (class_discriminant (err_class e));
          enc = put_u8 enc (effect_discriminant (err_effect e));
          enc = put_string enc (err_message e)
      in fst (finish enc))"

definition decode_response :: "bytes \<Rightarrow> envelope_error + response" where
  "decode_response body =
     (case body of
        [] \<Rightarrow> Inl EmptyBody
      | status # rest \<Rightarrow>
          if status = STATUS_SUCCESS then Inr (Success rest)
          else if status = STATUS_ERROR then
            map_err_then Malformed (get_u16 (payload_decoder_new rest)) (\<lambda>code dec.
            map_err_then Malformed (get_u8 dec) (\<lambda>class dec.
            case error_class_from_u8 class of
              None \<Rightarrow> Inl (UnknownClass class)
            | Some class \<Rightarrow>
                map_err_then Malformed (get_u8 dec) (\<lambda>effect dec.
                case effect_from_u8 effect of
                  None \<Rightarrow> Inl (UnknownEffect effect)
                | Some effect \<Rightarrow>
                    map_err_then Malformed (get_string dec) (\<lambda>message dec.
                    if \<not> is_complete dec then Inl TrailingBytes
                    else Inr (Error \<lparr>err_code = code, err_class = class, err_effect = effect,
                                      err_message = message\<rparr>)))))
          else Inl (UnknownStatus status))"

subsection \<open>The catalog\<close>

record code_entry =
  code :: u16
  entry_name :: string
  entry_class :: error_class
  entry_effect :: effect

definition blocks :: "u16 list" where
  "blocks = [0, 1000, 2000, 3000, 4000, 5000, 6000, 7000]"

definition SHARED_LAST :: u16 where "SHARED_LAST = 10"
definition DOMAIN_FIRST :: u16 where "DOMAIN_FIRST = 50"

definition shared :: "u16 \<Rightarrow> error_class \<Rightarrow> u16 option" where
  "shared blk c = (case shared_slot c of Some slot \<Rightarrow> Some (blk + slot) | None \<Rightarrow> None)"

definition row :: "u16 \<Rightarrow> string \<Rightarrow> error_class \<Rightarrow> effect \<Rightarrow> code_entry" where
  "row c n k f = \<lparr>code = c, entry_name = n, entry_class = k, entry_effect = f\<rparr>"

definition shared_rows :: "u16 \<Rightarrow> code_entry list" where
  "shared_rows blk =
     [row (blk + 1) ''UNAUTHORIZED'' Unauthorized NotApplied,
      row (blk + 2) ''INVALID_ROUTE'' InvalidRoute NotApplied,
      row (blk + 3) ''INVALID_PATTERN'' InvalidPattern NotApplied,
      row (blk + 4) ''REGISTRATION_LIMIT'' RegistrationLimit NotApplied,
      row (blk + 5) ''BUSY'' Busy NotApplied,
      row (blk + 6) ''BACKEND'' Backend Indeterminate,
      row (blk + 7) ''TIMEOUT'' Timeout Indeterminate,
      row (blk + 8) ''BAD_REQUEST'' BadRequest NotApplied,
      row (blk + 9) ''NOT_FOUND'' NotFound NotApplied,
      row (blk + 10) ''UNSUPPORTED'' Unsupported NotApplied]"

definition VERSION_MISMATCH :: u16 where "VERSION_MISMATCH = 50"
definition FAMILY_NOT_PROVISIONED :: u16 where "FAMILY_NOT_PROVISIONED = 51"
definition CONNECT_TIMEOUT :: u16 where "CONNECT_TIMEOUT = 52"
definition RESERVED_0053 :: u16 where "RESERVED_0053 = 53"
definition DRAINING :: u16 where "DRAINING = 54"
definition FORCED_CLOSE :: u16 where "FORCED_CLOSE = 55"
definition LIMIT_CHANGED :: u16 where "LIMIT_CHANGED = 56"

definition PROTOCOL_ROWS :: "code_entry list" where
  "PROTOCOL_ROWS =
     [row VERSION_MISMATCH ''VERSION_MISMATCH'' Unsupported NotApplied,
      row FAMILY_NOT_PROVISIONED ''FAMILY_NOT_PROVISIONED'' InvalidRoute NotApplied,
      row CONNECT_TIMEOUT ''CONNECT_TIMEOUT'' BadRequest NotApplied,
      row RESERVED_0053 ''RESERVED_0053'' Unsupported NotApplied,
      row DRAINING ''DRAINING'' Busy NotApplied,
      row FORCED_CLOSE ''FORCED_CLOSE'' Backend Indeterminate,
      row LIMIT_CHANGED ''LIMIT_CHANGED'' Unsupported NotApplied]"

definition DOMAIN_ROWS :: "code_entry list" where
  "DOMAIN_ROWS =
     [row 1050 ''TRANSACTION_NOT_FOUND'' NotFound NotApplied,
      row 1051 ''INVALID_MODE'' BadRequest NotApplied,
      row 1052 ''KEY_NOT_FOUND'' NotFound NotApplied,
      row 1053 ''ISOLATION_CONFLICT'' DomainClass NotApplied,
      row 1054 ''WRITE_IN_READONLY'' BadRequest NotApplied,
      row 1055 ''KEY_EXISTS'' DomainClass NotApplied,
      row 1056 ''REALM_MISMATCH'' InvalidRoute NotApplied,
      row 1057 ''TRANSACTION_ABORTED'' DomainClass NotApplied,
      row 2050 ''CONCURRENCY_CONFLICT'' DomainClass NotApplied,
      row 2051 ''SESSION_ALREADY_ACTIVE'' DomainClass NotApplied,
      row 2052 ''SESSION_NOT_FOUND'' NotFound NotApplied,
      row 2053 ''INVALID_READ_BOUND'' BadRequest NotApplied,
      row 2054 ''RESOURCE_NOT_FOUND'' NotFound NotApplied,
      row 2055 ''FILTER_UNSUPPORTED_VERSION'' Unsupported NotApplied,
      row 2056 ''FILTER_INVALID_PAYLOAD'' BadRequest NotApplied,
      row 2057 ''READ_RESPONSE_TOO_LARGE'' BadRequest NotApplied,
      row 3050 ''TRANSPORT_CLOSED'' DomainClass NotApplied,
      row 4050 ''INVALID_TOKEN'' BadRequest NotApplied,
      row 4051 ''INFLIGHT_EXPIRED'' DomainClass NotApplied,
      row 4052 ''MESSAGE_NOT_FOUND'' NotFound NotApplied,
      row 4053 ''QUEUE_NOT_FOUND'' NotFound NotApplied,
      row 5050 ''HELD'' DomainClass NotApplied,
      row 5051 ''INVALID_FENCE'' BadRequest NotApplied,
      row 5052 ''EXPIRED'' DomainClass NotApplied,
      row 5053 ''LEASE_NOT_FOUND'' NotFound NotApplied,
      row 5054 ''INVALID_TOKEN'' BadRequest NotApplied,
      row 5055 ''ACQUIRE_WAIT_EXPIRED'' DomainClass NotApplied,
      row 5056 ''WAITERS_LIMIT'' Busy NotApplied,
      row 5057 ''INVALID_LIST_CURSOR'' BadRequest NotApplied,
      row 6050 ''WORKER_NOT_FOUND'' NotFound Indeterminate,
      row 6051 ''ROUTE_NOT_REGISTERED'' NotFound NotApplied,
      row 6052 ''CORRELATION_NOT_FOUND'' NotFound NotApplied,
      row 6053 ''INVALID_SEQUENCE'' BadRequest Indeterminate,
      row 6054 ''DUPLICATE_CORRELATION'' BadRequest NotApplied,
      row 6055 ''WRONG_WORKER'' Unauthorized NotApplied,
      row 7050 ''SCHEDULE_NOT_FOUND'' NotFound NotApplied,
      row 7051 ''INVALID_CRON'' BadRequest NotApplied,
      row 7052 ''DEFINITION_LIMIT'' RegistrationLimit NotApplied]"

definition SCHEDULE_TAIL_ROWS :: "code_entry list" where
  "SCHEDULE_TAIL_ROWS =
     [row 7053 ''INVALID_TARGET'' BadRequest NotApplied,
      row 7054 ''INVALID_DELIVERY_MODE'' BadRequest NotApplied]"

definition all_entries :: "code_entry list" where
  "all_entries = concat (map shared_rows blocks) @ PROTOCOL_ROWS @ DOMAIN_ROWS @ SCHEDULE_TAIL_ROWS"

definition lookup :: "u16 \<Rightarrow> code_entry option" where
  "lookup c = find (\<lambda>entry. code entry = c) all_entries"

definition WIRE1_TO_WIRE2 :: "(u16 \<times> u16) list" where
  "WIRE1_TO_WIRE2 =
     [(1001, 1050), (1002, 1051), (1003, 1052), (1004, 1053), (1005, 1054), (1006, 1055),
      (1007, 1002), (1008, 1056), (1009, 1006), (1010, 1057), (1011, 1001), (1012, 1003),
      (1013, 1004), (1014, 1005), (2001, 2050), (2002, 2051), (2003, 2052), (2004, 2053),
      (2005, 2054), (2006, 2055), (2007, 2056), (2009, 2001), (2010, 2003), (2011, 2004),
      (2012, 2006), (2013, 2057), (2014, 2005), (3001, 3002), (3002, 3003), (3003, 3004),
      (3004, 3050), (3005, 3006), (3006, 3005), (3009, 3001), (4001, 4050), (4002, 4051),
      (4003, 4052), (4004, 4053), (4005, 4005), (4006, 4008), (4007, 4006), (4009, 4001),
      (4010, 4003), (4011, 4004), (5001, 5050), (5002, 5051), (5003, 5052), (5004, 5053),
      (5005, 5054), (5006, 5055), (5007, 5056), (5008, 5008), (5009, 5001), (5010, 5003),
      (5011, 5057), (5012, 5003), (6001, 6007), (6002, 6050), (6003, 6005), (6004, 6051),
      (6005, 6052), (6006, 6053), (6007, 6054), (6008, 6055), (6009, 6001), (6010, 6006),
      (6011, 6002), (6012, 6003), (6013, 6004), (7001, 7050), (7002, 7051), (7003, 7052),
      (7004, 7008), (7005, 7053), (7006, 7003), (7007, 7004), (7008, 7054), (7009, 7001),
      (7010, 7005), (7011, 7007)]"

section \<open>The envelope is a codec\<close>

lemma error_class_from_u8_discriminant [simp]: "error_class_from_u8 (class_discriminant c) = Some c"
  by (cases c) (simp_all add: error_class_from_u8_def)

lemma error_class_from_u8_SomeD: "error_class_from_u8 v = Some c \<Longrightarrow> v = class_discriminant c"
  by (auto simp: error_class_from_u8_def split: if_splits)

lemma effect_from_u8_discriminant [simp]: "effect_from_u8 (effect_discriminant f) = Some f"
  by (cases f) (simp_all add: effect_from_u8_def)

lemma effect_from_u8_SomeD: "effect_from_u8 v = Some f \<Longrightarrow> v = effect_discriminant f"
  by (auto simp: effect_from_u8_def split: if_splits)

fun encode_response :: "response \<Rightarrow> bytes" where
  "encode_response (Success body) = encode_success body"
| "encode_response (Error e) = encode_error e"

fun response_ok :: "response \<Rightarrow> bool" where
  "response_ok (Success body) = True"
| "response_ok (Error e) = str_fits (err_message e)"

lemma encode_error_wire:
  assumes "str_fits (err_message e)"
  shows "encode_error e = [1] @ to_be_bytes 2 (err_code e) @ [class_discriminant (err_class e)]
    @ [effect_discriminant (err_effect e)] @ prefixed (as_bytes (err_message e))"
  using assms by (simp add: encode_error_def payload_encoder_new_def finish_def STATUS_ERROR_def codec_simps)

lemma decode_response_error:
  assumes "str_fits (err_message e)"
  shows "decode_response (encode_error e) = Inr (Error e)"
  unfolding encode_error_wire [OF assms] using assms
  by (simp add: decode_response_def STATUS_SUCCESS_def STATUS_ERROR_def payload_decoder_new_cur codec_simps
      c_u8.get_wire [of _ _ "b # bs" for b bs, simplified] c_u8.get_wire [simplified])

interpretation response_body: body_codec encode_response decode_response response_ok
proof (unfold_locales, goal_cases)
  case (1 v)
  then show ?case
    by (cases v) (simp_all add: decode_response_error, simp add: decode_response_def encode_success_def STATUS_SUCCESS_def)
next
  case (2 body v)
  then show ?case
    by (cases v)
      (auto simp: decode_response_def encode_success_def STATUS_SUCCESS_def STATUS_ERROR_def
        payload_decoder_new_cur encode_error_wire
        split: list.splits if_splits option.splits
        dest!: codec_dests error_class_from_u8_SomeD effect_from_u8_SomeD)
qed

section \<open>Catalog facts\<close>

lemma catalog_codes: "map code all_entries =
    [1, 2, 3, 4, 5, 6, 7, 8, 9, 10, 1001, 1002, 1003, 1004, 1005, 1006, 1007, 1008, 1009, 1010,
     2001, 2002, 2003, 2004, 2005, 2006, 2007, 2008, 2009, 2010, 3001, 3002, 3003, 3004, 3005,
     3006, 3007, 3008, 3009, 3010, 4001, 4002, 4003, 4004, 4005, 4006, 4007, 4008, 4009, 4010,
     5001, 5002, 5003, 5004, 5005, 5006, 5007, 5008, 5009, 5010, 6001, 6002, 6003, 6004, 6005,
     6006, 6007, 6008, 6009, 6010, 7001, 7002, 7003, 7004, 7005, 7006, 7007, 7008, 7009, 7010,
     50, 51, 52, 53, 54, 55, 56, 1050, 1051, 1052, 1053, 1054, 1055, 1056, 1057, 2050, 2051,
     2052, 2053, 2054, 2055, 2056, 2057, 3050, 4050, 4051, 4052, 4053, 5050, 5051, 5052, 5053,
     5054, 5055, 5056, 5057, 6050, 6051, 6052, 6053, 6054, 6055, 7050, 7051, 7052, 7053, 7054]"
  by (simp add: all_entries_def blocks_def shared_rows_def row_def PROTOCOL_ROWS_def DOMAIN_ROWS_def
      SCHEDULE_TAIL_ROWS_def VERSION_MISMATCH_def FAMILY_NOT_PROVISIONED_def CONNECT_TIMEOUT_def
      RESERVED_0053_def DRAINING_def FORCED_CLOSE_def LIMIT_CHANGED_def)

lemma distinct_unat: "distinct (map unat xs) \<Longrightarrow> distinct xs"
  by (simp add: distinct_map)

lemma member_unat: "x \<in> set xs \<longleftrightarrow> unat x \<in> set (map unat xs)"
  by (auto simp: word_unat_eq_iff [symmetric])

lemma catalog_codes_distinct: "distinct (map code all_entries)"
  by (rule distinct_unat) (simp add: catalog_codes)

lemma lookup_entry: "e \<in> set all_entries \<Longrightarrow> lookup (code e) = Some e"
proof -
  have "find (\<lambda>x. code x = code e) es = Some e" if "e \<in> set es" "distinct (map code es)" for es
    using that by (induction es) (auto simp: image_iff)
  then show "e \<in> set all_entries \<Longrightarrow> ?thesis"
    using catalog_codes_distinct by (simp add: lookup_def)
qed

lemma catalog_slots:
  "list_all (\<lambda>e. let slot = code e mod 1000 in slot \<noteq> 0 \<and> (slot \<le> SHARED_LAST \<or> DOMAIN_FIRST \<le> slot) \<and>
     (SHARED_LAST < slot \<or> shared_slot (entry_class e) = Some slot)) all_entries"
  by code_simp

lemma catalog_shared:
  assumes "blk \<in> set blocks" and "c \<noteq> DomainClass"
  shows "\<exists>e \<in> set all_entries. shared blk c = Some (code e) \<and> entry_class e = c"
proof -
  have "\<exists>e \<in> set (shared_rows blk). shared blk c = Some (code e) \<and> entry_class e = c"
    using assms(2) by (cases c) (simp_all add: shared_rows_def shared_def shared_slot_def row_def)
  with assms(1) show ?thesis by (auto simp: all_entries_def)
qed

lemma migration_targets:
  "list_all (\<lambda>(old, new). new \<in> set (map code all_entries) \<and> old div 1000 = new div 1000) WIRE1_TO_WIRE2"
proof -
  have "set (map unat (map snd WIRE1_TO_WIRE2)) \<subseteq> set (map unat (map code all_entries))"
    by (simp add: catalog_codes WIRE1_TO_WIRE2_def)
  moreover have "list_all (\<lambda>(old, new). old div 1000 = new div 1000) WIRE1_TO_WIRE2"
    by (simp add: WIRE1_TO_WIRE2_def)
  ultimately show ?thesis unfolding member_unat by (auto simp: list_all_iff)
qed

lemma lookup_code: "c \<in> set (map code all_entries) \<Longrightarrow> lookup c \<noteq> None"
  using lookup_entry by auto

lemma migration_distinct: "distinct (map fst WIRE1_TO_WIRE2)"
  by (rule distinct_unat) (simp add: WIRE1_TO_WIRE2_def)

section \<open>Properties\<close>

text \<open>
  \<^bold>\<open>C14.\<close> The response decoder is exactly inverse to the two encoders: a body decodes to a
  success if and only if it is that success encoded, and to an error if and only if it is that error
  encoded and the diagnostic text is a string that fits its length field. Trailing bytes, unknown
  classes and unknown effects are therefore never accepted.
\<close>

theorem response_envelope_exact:
  "(decode_response body = Inr (Success p) \<longleftrightarrow> body = encode_success p) \<and>
   (decode_response body = Inr (Error e) \<longleftrightarrow>
      is_str (err_message e) \<and> length (err_message e) < 2 ^ 32 \<and> body = encode_error e)"
  using response_body.decode_iff [of body "Success p"] response_body.decode_iff [of body "Error e"]
  by auto

text \<open>
  \<^bold>\<open>C15.\<close> The error catalog is unambiguous and complete: looking up the code of an entry
  returns that entry; a code in the shared range of its block carries the class of its slot, and no
  code lies in the gap between the shared and the domain range; every block has an entry for every
  shared class; and every migration row maps a distinct wire 1 code to a catalogued code of the same
  block.
\<close>

theorem catalog_unambiguous:
  assumes "e \<in> set all_entries" and "blk \<in> set blocks" and "c \<noteq> DomainClass"
    and "(old, new) \<in> set WIRE1_TO_WIRE2"
  shows "lookup (code e) = Some e \<and>
    code e mod 1000 \<noteq> 0 \<and> (code e mod 1000 \<le> SHARED_LAST \<or> DOMAIN_FIRST \<le> code e mod 1000) \<and>
    (SHARED_LAST < code e mod 1000 \<or> shared_slot (entry_class e) = Some (code e mod 1000)) \<and>
    (\<exists>entry. shared blk c = Some (code entry) \<and> lookup (code entry) = Some entry \<and> entry_class entry = c) \<and>
    lookup new \<noteq> None \<and> old div 1000 = new div 1000 \<and> map_of WIRE1_TO_WIRE2 old = Some new"
proof -
  obtain entry where "entry \<in> set all_entries" "shared blk c = Some (code entry)" "entry_class entry = c"
    using catalog_shared [OF assms(2,3)] by blast
  then show ?thesis
    using lookup_entry assms(1) catalog_slots migration_targets migration_distinct assms(4)
    by (auto simp: list_all_iff Let_def dest: lookup_code)
qed

theorem catalog_unambiguous_witness:
  "lookup 5 = Some (row 5 ''BUSY'' Busy NotApplied) \<and> lookup 1050 \<noteq> None"
proof -
  have e: "row 5 ''BUSY'' Busy NotApplied \<in> set all_entries"
    by (simp add: all_entries_def shared_rows_def blocks_def)
  have b: "3000 \<in> set blocks" by (simp add: blocks_def)
  have m: "(1001, 1050) \<in> set WIRE1_TO_WIRE2" by (simp add: WIRE1_TO_WIRE2_def)
  show ?thesis using catalog_unambiguous [OF e b _ m, of Busy] by (simp add: row_def)
qed

end
