(* ===== verification/Wire_Handshake.thy ===== *)
theory Wire_Handshake
  imports Payload_Codec
begin

text \<open>
  The handshake bodies of wire format 2 (\<^verbatim>\<open>src/protocol/wire2/handshake.rs\<close>):
  \<^verbatim>\<open>CONNECT\<close>, \<^verbatim>\<open>HELLO\<close>, \<^verbatim>\<open>CONNECT_REJECTED\<close> and
  \<^verbatim>\<open>GOAWAY\<close>, and version negotiation. Three of the four bodies are exact codecs;
  \<^verbatim>\<open>HELLO\<close> ignores what a later broker appends.
\<close>

section \<open>Definitions\<close>

record connect =
  min_version :: u16
  max_version :: u16
  client_caps :: u32
  jwt :: string
  service_name :: string
  client_build :: string

record hello =
  version :: u16
  broker_caps :: u32
  max_message_bytes :: u32
  max_in_flight :: u32
  session_id :: u64

record connect_rejected =
  reject_code :: u16
  reject_message :: string

record go_away =
  goaway_code :: u16
  grace_ms :: u32
  reason :: string

datatype handshake_error =
    BadField payload_error | Trailing | InvertedRange u16 u16 | HelloTooShort nat

definition HELLO_MIN_LEN :: nat where
  "HELLO_MIN_LEN = 2 + 4 + 4 + 4 + 8"

definition negotiate_version :: "u16 \<Rightarrow> u16 \<Rightarrow> u16 \<Rightarrow> u16 \<Rightarrow> u16 option" where
  "negotiate_version client_min client_max broker_min broker_max =
     (let low = if client_min > broker_min then client_min else broker_min;
          high = if client_max < broker_max then client_max else broker_max
      in if low \<le> high then Some high else None)"

definition connect_encode :: "connect \<Rightarrow> bytes" where
  "connect_encode c =
     (let enc = payload_encoder_new;
          enc = put_u16 enc (min_version c);
          enc = put_u16 enc (max_version c);
          enc = put_u32 enc (client_caps c);
          enc = put_string enc (jwt c);
          enc = put_string enc (service_name c);
          enc = put_string enc (client_build c)
      in fst (finish enc))"

definition connect_decode :: "bytes \<Rightarrow> handshake_error + connect" where
  "connect_decode value =
     map_err_then BadField (get_u16 (payload_decoder_new value)) (\<lambda>min_v dec.
     map_err_then BadField (get_u16 dec) (\<lambda>max_v dec.
     map_err_then BadField (get_u32 dec) (\<lambda>caps dec.
     map_err_then BadField (get_string dec) (\<lambda>j dec.
     map_err_then BadField (get_string dec) (\<lambda>service dec.
     map_err_then BadField (get_string dec) (\<lambda>build dec.
     if \<not> is_complete dec then Inl Trailing
     else if min_v > max_v then Inl (InvertedRange min_v max_v)
     else Inr \<lparr>min_version = min_v, max_version = max_v, client_caps = caps, jwt = j,
                service_name = service, client_build = build\<rparr>))))))"

definition hello_encode :: "hello \<Rightarrow> bytes" where
  "hello_encode h =
     (let enc = payload_encoder_new;
          enc = put_u16 enc (version h);
          enc = put_u32 enc (broker_caps h);
          enc = put_u32 enc (max_message_bytes h);
          enc = put_u32 enc (max_in_flight h);
          enc = put_u64 enc (session_id h)
      in fst (finish enc))"

definition hello_decode :: "bytes \<Rightarrow> handshake_error + hello" where
  "hello_decode value =
     (if length value < HELLO_MIN_LEN then Inl (HelloTooShort (length value))
      else
        map_err_then BadField (get_u16 (payload_decoder_new value)) (\<lambda>v dec.
        map_err_then BadField (get_u32 dec) (\<lambda>caps dec.
        map_err_then BadField (get_u32 dec) (\<lambda>max_bytes dec.
        map_err_then BadField (get_u32 dec) (\<lambda>in_flight dec.
        map_err_then BadField (get_u64 dec) (\<lambda>session dec.
        Inr \<lparr>version = v, broker_caps = caps, max_message_bytes = max_bytes,
             max_in_flight = in_flight, session_id = session\<rparr>))))))"

definition connect_rejected_encode :: "connect_rejected \<Rightarrow> bytes" where
  "connect_rejected_encode r =
     (let enc = payload_encoder_new;
          enc = put_u16 enc (reject_code r);
          enc = put_string enc (reject_message r)
      in fst (finish enc))"

definition connect_rejected_decode :: "bytes \<Rightarrow> handshake_error + connect_rejected" where
  "connect_rejected_decode value =
     map_err_then BadField (get_u16 (payload_decoder_new value)) (\<lambda>c dec.
     map_err_then BadField (get_string dec) (\<lambda>m dec.
     if \<not> is_complete dec then Inl Trailing
     else Inr \<lparr>reject_code = c, reject_message = m\<rparr>))"

definition go_away_encode :: "go_away \<Rightarrow> bytes" where
  "go_away_encode g =
     (let enc = payload_encoder_new;
          enc = put_u16 enc (goaway_code g);
          enc = put_u32 enc (grace_ms g);
          enc = put_string enc (reason g)
      in fst (finish enc))"

definition go_away_decode :: "bytes \<Rightarrow> handshake_error + go_away" where
  "go_away_decode value =
     map_err_then BadField (get_u16 (payload_decoder_new value)) (\<lambda>c dec.
     map_err_then BadField (get_u32 dec) (\<lambda>g dec.
     map_err_then BadField (get_string dec) (\<lambda>r dec.
     if \<not> is_complete dec then Inl Trailing
     else Inr \<lparr>goaway_code = c, grace_ms = g, reason = r\<rparr>)))"

section \<open>The bodies are codecs\<close>

lemmas encode_simps = payload_encoder_new_def finish_def codec_simps
lemmas decode_simps = payload_decoder_new_cur codec_simps

fun connect_ok :: "connect \<Rightarrow> bool" where
  "connect_ok c \<longleftrightarrow> min_version c \<le> max_version c \<and> str_fits (jwt c) \<and>
     str_fits (service_name c) \<and> str_fits (client_build c)"

interpretation connect_body: body_codec connect_encode connect_decode connect_ok
proof (unfold_locales, goal_cases)
  case (1 v)
  then show ?case by (simp add: connect_encode_def connect_decode_def encode_simps decode_simps not_less)
next
  case (2 body v)
  then show ?case
    by (auto simp: connect_encode_def connect_decode_def encode_simps payload_decoder_new_cur not_less
        split: if_splits dest!: codec_dests)
qed

interpretation connect_rejected_body: body_codec connect_rejected_encode connect_rejected_decode
  "\<lambda>r. str_fits (reject_message r)"
proof (unfold_locales, goal_cases)
  case (1 v)
  then show ?case by (simp add: connect_rejected_encode_def connect_rejected_decode_def encode_simps decode_simps)
next
  case (2 body v)
  then show ?case
    by (auto simp: connect_rejected_encode_def connect_rejected_decode_def encode_simps payload_decoder_new_cur
        split: if_splits dest!: codec_dests)
qed

interpretation go_away_body: body_codec go_away_encode go_away_decode "\<lambda>g. str_fits (reason g)"
proof (unfold_locales, goal_cases)
  case (1 v)
  then show ?case by (simp add: go_away_encode_def go_away_decode_def encode_simps decode_simps)
next
  case (2 body v)
  then show ?case
    by (auto simp: go_away_encode_def go_away_decode_def encode_simps payload_decoder_new_cur
        split: if_splits dest!: codec_dests)
qed

lemma hello_encode_wire: "hello_encode h =
   to_be_bytes 2 (version h) @ to_be_bytes 4 (broker_caps h) @ to_be_bytes 4 (max_message_bytes h)
   @ to_be_bytes 4 (max_in_flight h) @ to_be_bytes 8 (session_id h)"
  by (simp add: hello_encode_def encode_simps)

lemma hello_decode_append: "hello_decode (hello_encode h @ extra) = Inr h"
  by (simp add: hello_decode_def hello_encode_wire HELLO_MIN_LEN_def decode_simps)

lemma hello_decode_prefix: "hello_decode value = Inr h \<Longrightarrow> \<exists>extra. value = hello_encode h @ extra"
  by (auto simp: hello_decode_def hello_encode_wire payload_decoder_new_cur split: if_splits dest!: codec_dests)

lemma hello_decode_total: "HELLO_MIN_LEN \<le> length value \<Longrightarrow> \<exists>h. hello_decode value = Inr h"
  by (simp add: hello_decode_def HELLO_MIN_LEN_def payload_decoder_new_cur get_cur map_err_then_def) linarith

section \<open>Properties\<close>

text \<open>
  \<^bold>\<open>C16.\<close> The handshake bodies are exact: \<^verbatim>\<open>CONNECT\<close>,
  \<^verbatim>\<open>CONNECT_REJECTED\<close> and \<^verbatim>\<open>GOAWAY\<close> decode to a value if and only if
  the body is the encoding of that value and the value is well formed (its strings fit, and a
  \<^verbatim>\<open>CONNECT\<close> has a version range that is not inverted); \<^verbatim>\<open>HELLO\<close> decodes
  to a value if and only if the body starts with its encoding, and every body of at least
  22 bytes decodes.
\<close>

theorem handshake_bodies_exact:
  "(connect_decode body = Inr c \<longleftrightarrow>
      min_version c \<le> max_version c \<and> str_fits (jwt c) \<and> str_fits (service_name c) \<and>
      str_fits (client_build c) \<and> body = connect_encode c) \<and>
   (connect_rejected_decode body = Inr r \<longleftrightarrow> str_fits (reject_message r) \<and> body = connect_rejected_encode r) \<and>
   (go_away_decode body = Inr g \<longleftrightarrow> str_fits (reason g) \<and> body = go_away_encode g) \<and>
   (hello_decode body = Inr h \<longleftrightarrow> (\<exists>extra. body = hello_encode h @ extra)) \<and>
   ((\<exists>h. hello_decode body = Inr h) \<longleftrightarrow> 22 \<le> length body)"
proof -
  have "(\<exists>h. hello_decode body = Inr h) \<longleftrightarrow> 22 \<le> length body"
    using hello_decode_total [of body]
    by (auto simp: HELLO_MIN_LEN_def hello_encode_wire dest: hello_decode_prefix)
  moreover have "connect_decode body = Inr c \<longleftrightarrow>
      min_version c \<le> max_version c \<and> str_fits (jwt c) \<and> str_fits (service_name c) \<and>
      str_fits (client_build c) \<and> body = connect_encode c"
    unfolding connect_body.decode_iff connect_ok.simps by blast
  moreover have "connect_rejected_decode body = Inr r \<longleftrightarrow> str_fits (reject_message r) \<and> body = connect_rejected_encode r"
    unfolding connect_rejected_body.decode_iff by blast
  moreover have "go_away_decode body = Inr g \<longleftrightarrow> str_fits (reason g) \<and> body = go_away_encode g"
    unfolding go_away_body.decode_iff by blast
  moreover have "hello_decode body = Inr h \<longleftrightarrow> (\<exists>extra. body = hello_encode h @ extra)"
    using hello_decode_append [of h] hello_decode_prefix [of body h] by blast
  ultimately show ?thesis by (intro conjI)
qed

text \<open>
  \<^bold>\<open>C17.\<close> Version negotiation picks the highest version in both ranges, and fails exactly
  when the ranges have no common version.
\<close>

theorem negotiate_version_highest_common:
  "(negotiate_version cmin cmax bmin bmax = Some v \<longleftrightarrow>
      v \<in> {cmin..cmax} \<inter> {bmin..bmax} \<and> (\<forall>w \<in> {cmin..cmax} \<inter> {bmin..bmax}. w \<le> v)) \<and>
   (negotiate_version cmin cmax bmin bmax = None \<longleftrightarrow> {cmin..cmax} \<inter> {bmin..bmax} = {})"
proof -
  have "negotiate_version cmin cmax bmin bmax =
      (if max cmin bmin \<le> min cmax bmax then Some (min cmax bmax) else None)"
    unfolding negotiate_version_def Let_def max_def min_def by (auto simp: not_less)
  moreover have "{cmin..cmax} \<inter> {bmin..bmax} = {max cmin bmin..min cmax bmax}" by (rule Int_atLeastAtMost)
  ultimately show ?thesis
    by (auto simp del: max.bounded_iff min.bounded_iff intro: antisym)
qed

theorem negotiate_version_highest_common_witness: "negotiate_version 2 3 1 5 = Some 3"
proof -
  have "3 \<in> {2..3} \<inter> {1..5::u16} \<and> (\<forall>w \<in> {2..3} \<inter> {1..5::u16}. w \<le> 3)" by simp
  then show ?thesis using negotiate_version_highest_common [of 2 3 1 5 3] by blast
qed

end
