(* ===== verification/Wire3_Extensions.thy ===== *)
theory Wire3_Extensions
  imports Wire_Header
begin

text \<open>
  Wire 3 payloads (\<^verbatim>\<open>src/protocol/wire3/extensions.rs\<close>): a length-delimited core
  followed by extension fields, each a 16-bit identifier and a length-prefixed value. Unknown fields
  are skipped after a bounds check; the capability list of the handshake and the time to live of a
  queue message are validated and kept. Lengths are naturals: no value the code can hold in memory
  overflows the 64-bit \<^verbatim>\<open>usize\<close> on which it computes them, so the branches of its checked
  additions are never taken.
\<close>

section \<open>Definitions\<close>

definition CONNECT_MESSAGE_TYPE :: u16 where "CONNECT_MESSAGE_TYPE = 1"
definition HELLO_MESSAGE_TYPE :: u16 where "HELLO_MESSAGE_TYPE = 2"
definition CAPABILITY_IDS_FIELD_ID :: u16 where "CAPABILITY_IDS_FIELD_ID = 1"
definition QUEUE_TTL_HOURS_FIELD_ID :: u16 where "QUEUE_TTL_HOURS_FIELD_ID = 1"
definition EXTENSION_HEADER_LEN :: nat where "EXTENSION_HEADER_LEN = 6"
definition CAPABILITY_COUNT_LEN :: nat where "CAPABILITY_COUNT_LEN = 2"

datatype extension_direction = ClientToBroker | BrokerToClient

record core_payload_range =
  range_offset :: nat
  range_length :: nat

record known_fields =
  known_queue_ttl_hours :: "u32 option"

definition known_fields_none :: known_fields where
  "known_fields_none = \<lparr>known_queue_ttl_hours = None\<rparr>"

record decoded_payload =
  core :: core_payload_range
  known :: known_fields
  capability_ids :: "bytes option"

definition as_range :: "core_payload_range \<Rightarrow> nat \<times> nat" where
  "as_range r = (range_offset r, range_offset r + range_length r)"

definition slice :: "nat \<Rightarrow> nat \<Rightarrow> bytes \<Rightarrow> bytes" where
  "slice start stop p = take (stop - start) (drop start p)"

definition range_get :: "core_payload_range \<Rightarrow> bytes \<Rightarrow> bytes option" where
  "range_get r p =
     (let (start, stop) = as_range r
      in if start \<le> stop \<and> stop \<le> length p then Some (slice start stop p) else None)"

record extension_field =
  field_id :: u16
  field_value :: bytes

record encoded_payload =
  encoded_value :: bytes
  extensions_present :: bool

definition is_capability_field :: "extension_direction \<Rightarrow> u16 \<Rightarrow> u16 \<Rightarrow> bool" where
  "is_capability_field direction mt fid \<longleftrightarrow>
     fid = CAPABILITY_IDS_FIELD_ID \<and>
     (case direction of
        ClientToBroker \<Rightarrow> mt = CONNECT_MESSAGE_TYPE
      | BrokerToClient \<Rightarrow> mt = HELLO_MESSAGE_TYPE)"

definition requires_capability_field :: "extension_direction \<Rightarrow> u16 \<Rightarrow> bool" where
  "requires_capability_field direction mt \<longleftrightarrow>
     direction = ClientToBroker \<and> mt = CONNECT_MESSAGE_TYPE \<or>
     direction = BrokerToClient \<and> mt = HELLO_MESSAGE_TYPE"

definition validate_payload_length :: "nat \<Rightarrow> extension_error + unit" where
  "validate_payload_length n =
     (case try_from_usize n :: u32 option of Some _ \<Rightarrow> Inr () | None \<Rightarrow> Inl PayloadTooLarge)"

fun as_chunks4 :: "bytes \<Rightarrow> bytes list" where
  "as_chunks4 (a # b # c # d # rest) = [a, b, c, d] # as_chunks4 rest"
| "as_chunks4 _ = []"

fun check_capability_chunks :: "u32 \<Rightarrow> bytes list \<Rightarrow> extension_error + unit" where
  "check_capability_chunks previous [] = Inr ()"
| "check_capability_chunks previous (chunk # chunks) =
     (let capability_id = from_be_bytes chunk in
      if capability_id = 0 then Inl CapabilityIdReserved
      else if capability_id \<le> previous then Inl CapabilityIdsOutOfOrder
      else check_capability_chunks capability_id chunks)"

definition validate_capability_ids :: "bytes \<Rightarrow> extension_error + unit" where
  "validate_capability_ids value =
     (if length value < CAPABILITY_COUNT_LEN then Inl CapabilityListTruncated
      else
        let count = unat (from_be_bytes [value ! 0, value ! 1] :: u16);
            expected = count * 4 + CAPABILITY_COUNT_LEN
        in if length value \<noteq> expected then Inl CapabilityListLengthMismatch
           else check_capability_chunks 0 (as_chunks4 (drop CAPABILITY_COUNT_LEN value)))"

fun push_capability_ids :: "u32 \<Rightarrow> u32 list \<Rightarrow> bytes \<Rightarrow> extension_error + bytes" where
  "push_capability_ids previous [] value = Inr value"
| "push_capability_ids previous (capability_id # ids) value =
     (if capability_id = 0 then Inl CapabilityIdReserved
      else if capability_id \<le> previous then Inl CapabilityIdsOutOfOrder
      else push_capability_ids capability_id ids (value @ to_be_bytes 4 capability_id))"

definition encode_capability_ids :: "u32 list \<Rightarrow> extension_error + bytes" where
  "encode_capability_ids ids =
     (case try_from_usize (length ids) :: u16 option of
        None \<Rightarrow> Inl CapabilityListLengthMismatch
      | Some count \<Rightarrow> push_capability_ids 0 ids (to_be_bytes 2 count))"

definition is_queue_ttl_field :: "extension_direction \<Rightarrow> u16 \<Rightarrow> u16 \<Rightarrow> bool" where
  "is_queue_ttl_field direction mt fid \<longleftrightarrow>
     direction = ClientToBroker \<and> mt = 200 \<and> fid = QUEUE_TTL_HOURS_FIELD_ID"

definition queue_ttl_hours :: "bytes \<Rightarrow> extension_error + u32" where
  "queue_ttl_hours value =
     (if length value \<noteq> 4 then Inl InvalidQueueTtl
      else case nonzero_new (from_be_bytes value) of
             None \<Rightarrow> Inl InvalidQueueTtl
           | Some hours \<Rightarrow> Inr hours)"

text \<open>The mutable locals of the scan loop of \<^verbatim>\<open>decode_payload\<close>.\<close>

record scan =
  capability_field_seen :: bool
  extension_field_seen :: bool
  scan_fields :: known_fields
  scan_capability_ids :: "bytes option"

definition scan_capability :: "extension_direction \<Rightarrow> u16 \<Rightarrow> u16 \<Rightarrow> bytes \<Rightarrow> scan \<Rightarrow> extension_error + scan" where
  "scan_capability direction mt fid value st =
     (if is_capability_field direction mt fid then
        if capability_field_seen st then Inl KnownSingletonRepeated
        else case validate_capability_ids value of
               Inl e \<Rightarrow> Inl e
             | Inr _ \<Rightarrow> Inr (st\<lparr>capability_field_seen := True,
                             scan_capability_ids := Some (drop 2 value)\<rparr>)
      else Inr st)"

definition scan_queue_ttl :: "extension_direction \<Rightarrow> u16 \<Rightarrow> u16 \<Rightarrow> bytes \<Rightarrow> scan \<Rightarrow> extension_error + scan" where
  "scan_queue_ttl direction mt fid value st =
     (if is_queue_ttl_field direction mt fid then
        if known_queue_ttl_hours (scan_fields st) \<noteq> None then Inl KnownSingletonRepeated
        else case queue_ttl_hours value of
               Inl e \<Rightarrow> Inl e
             | Inr hours \<Rightarrow> Inr (st\<lparr>scan_fields := (scan_fields st)\<lparr>known_queue_ttl_hours := Some hours\<rparr>\<rparr>)
      else Inr st)"

function scan_payload ::
  "bytes \<Rightarrow> extension_direction \<Rightarrow> u16 \<Rightarrow> nat \<Rightarrow> scan \<Rightarrow> extension_error + scan" where
  "scan_payload p direction mt cursor st =
     (if cursor < length p then
        if length p - cursor < EXTENSION_HEADER_LEN then Inl FieldHeaderTruncated
        else
          let fid = from_be_bytes [p ! cursor, p ! (cursor + 1)] :: u16;
              value_length = unat (from_be_bytes [p ! (cursor + 2), p ! (cursor + 3),
                                                  p ! (cursor + 4), p ! (cursor + 5)] :: u32);
              value_start = cursor + EXTENSION_HEADER_LEN;
              value_end = value_start + value_length
          in if fid = 0 then Inl FieldIdReserved
             else if value_end > length p then Inl FieldValueTruncated
             else case scan_capability direction mt fid (slice value_start value_end p) st of
                    Inl e \<Rightarrow> Inl e
                  | Inr st \<Rightarrow>
                      (case scan_queue_ttl direction mt fid (slice value_start value_end p) st of
                         Inl e \<Rightarrow> Inl e
                       | Inr st \<Rightarrow> scan_payload p direction mt value_end (st\<lparr>extension_field_seen := True\<rparr>))
      else Inr st)"
  by pat_completeness auto
termination
  by (relation "measure (\<lambda>(p, _, _, cursor, _). length p - cursor)") (auto simp: EXTENSION_HEADER_LEN_def)

definition scan_start :: scan where
  "scan_start = \<lparr>capability_field_seen = False, extension_field_seen = False,
     scan_fields = known_fields_none, scan_capability_ids = None\<rparr>"

definition decode_payload :: "bytes \<Rightarrow> u16 \<Rightarrow> extension_direction \<Rightarrow> bool \<Rightarrow> extension_error + decoded_payload" where
  "decode_payload p mt direction present =
     (if \<not> present then
        if direction = BrokerToClient \<and> mt = HELLO_MESSAGE_TYPE then Inl CapabilityListMissing
        else Inr \<lparr>core = \<lparr>range_offset = 0, range_length = length p\<rparr>, known = known_fields_none,
                   capability_ids = None\<rparr>
      else if length p < 4 then Inl CoreLengthMissing
      else
        let core_length = unat (from_be_bytes [p ! 0, p ! 1, p ! 2, p ! 3] :: u32);
            core_start = 4;
            core_end = core_start + core_length
        in if core_end > length p then Inl CoreLengthOutOfBounds
           else case scan_payload p direction mt core_end scan_start of
                  Inl e \<Rightarrow> Inl e
                | Inr st \<Rightarrow>
                    if \<not> extension_field_seen st then Inl NoExtensionFields
                    else if requires_capability_field direction mt \<and> \<not> capability_field_seen st
                    then Inl CapabilityListMissing
                    else Inr \<lparr>core = \<lparr>range_offset = core_start, range_length = core_length\<rparr>,
                              known = scan_fields st, capability_ids = scan_capability_ids st\<rparr>)"

definition decode_core_payload ::
  "bytes \<Rightarrow> u16 \<Rightarrow> extension_direction \<Rightarrow> bool \<Rightarrow> extension_error + core_payload_range" where
  "decode_core_payload p mt direction present = map_sum id core (decode_payload p mt direction present)"

text \<open>The validating loop of \<^verbatim>\<open>encode_payload\<close> over its locals: previous identifier,
  capability seen, total_length length.\<close>

fun check_fields :: "extension_direction \<Rightarrow> u16 \<Rightarrow> u16 \<Rightarrow> bool \<Rightarrow> nat \<Rightarrow> extension_field list
    \<Rightarrow> extension_error + (bool \<times> nat)" where
  "check_fields direction mt previous seen total_length [] = Inr (seen, total_length)"
| "check_fields direction mt previous seen total_length (f # fs) =
     (if field_id f = 0 then Inl FieldIdReserved
      else if field_id f < previous then Inl FieldsOutOfOrder
      else if field_id f = previous then Inl DuplicateField
      else case try_from_usize (length (field_value f)) :: u32 option of
        None \<Rightarrow> Inl FieldTooLarge
      | Some value_length \<Rightarrow>
          let continue = (\<lambda>seen.
                if is_queue_ttl_field direction mt (field_id f) then
                  case queue_ttl_hours (field_value f) of
                    Inl e \<Rightarrow> Inl e
                  | Inr _ \<Rightarrow> check_fields direction mt (field_id f) seen
                       (total_length + EXTENSION_HEADER_LEN + unat value_length) fs
                else check_fields direction mt (field_id f) seen
                       (total_length + EXTENSION_HEADER_LEN + unat value_length) fs)
          in if is_capability_field direction mt (field_id f) then
               if seen then Inl KnownSingletonRepeated
               else case validate_capability_ids (field_value f) of
                      Inl e \<Rightarrow> Inl e
                    | Inr _ \<Rightarrow> continue True
             else continue seen)"

fun write_fields :: "bytes \<Rightarrow> extension_field list \<Rightarrow> extension_error + bytes" where
  "write_fields value [] = Inr value"
| "write_fields value (f # fs) =
     (case try_from_usize (length (field_value f)) :: u32 option of
        None \<Rightarrow> Inl FieldTooLarge
      | Some value_length \<Rightarrow>
          write_fields (value @ to_be_bytes 2 (field_id f) @ to_be_bytes 4 value_length @ field_value f) fs)"

definition encode_payload ::
  "bytes \<Rightarrow> u16 \<Rightarrow> extension_direction \<Rightarrow> extension_field list \<Rightarrow> extension_error + encoded_payload" where
  "encode_payload c mt direction fs =
     (if fs = [] then
        if requires_capability_field direction mt then Inl CapabilityListMissing
        else case try_from_usize (length c) :: u32 option of
               None \<Rightarrow> Inl CoreTooLarge
             | Some _ \<Rightarrow> Inr \<lparr>encoded_value = c, extensions_present = False\<rparr>
      else case try_from_usize (length c) :: u32 option of
        None \<Rightarrow> Inl CoreTooLarge
      | Some core_length \<Rightarrow>
          (case check_fields direction mt 0 False (4 + length c) fs of
             Inl e \<Rightarrow> Inl e
           | Inr (seen, total_length) \<Rightarrow>
               if requires_capability_field direction mt \<and> \<not> seen then Inl CapabilityListMissing
               else case validate_payload_length total_length of
                 Inl e \<Rightarrow> Inl e
               | Inr _ \<Rightarrow>
                   (case write_fields (to_be_bytes 4 core_length @ c) fs of
                      Inl e \<Rightarrow> Inl e
                    | Inr value \<Rightarrow> Inr \<lparr>encoded_value = value, extensions_present = True\<rparr>)))"

declare scan_payload.simps [simp del]

section \<open>Capability lists\<close>

lemma length_4: "length xs = 4 \<Longrightarrow> \<exists>a b c d. xs = [a, b, c, d]"
  by (auto simp: numeral_eq_Suc length_Suc_conv)

lemma as_chunks4_concat: "as_chunks4 (concat (map (to_be_bytes 4) (ids :: u32 list))) = map (to_be_bytes 4) ids"
proof (induction ids)
  case (Cons i ids)
  obtain a b c d where "to_be_bytes 4 i = [a, b, c, d]"
    using length_4 [of "to_be_bytes 4 i"] by auto
  with Cons show ?case by simp
qed simp

lemma check_capability_chunks_iff:
  "check_capability_chunks prev (map (to_be_bytes 4) ids) = Inr () \<longleftrightarrow>
     0 \<notin> set ids \<and> sorted_wrt (<) ids \<and> (\<forall>i \<in> set ids. prev < i)"
  by (induction ids arbitrary: prev) (auto simp: from_to_be_bytes Let_def not_le)

lemma push_capability_ids_iff:
  "push_capability_ids prev ids v = Inr w \<longleftrightarrow>
     0 \<notin> set ids \<and> sorted_wrt (<) ids \<and> (\<forall>i \<in> set ids. prev < i) \<and>
     w = v @ concat (map (to_be_bytes 4) ids)"
  by (induction ids arbitrary: prev v) (auto simp: not_le)

lemma chunks4_words:
  assumes "length bs = 4 * n"
  shows "\<exists>ids :: u32 list. length ids = n \<and> bs = concat (map (to_be_bytes 4) ids)"
  using assms
proof (induction n arbitrary: bs)
  case (Suc n)
  then have len: "length (drop 4 bs) = 4 * n" by simp
  from Suc.IH [OF len] obtain ids :: "u32 list"
    where ids: "length ids = n" "drop 4 bs = concat (map (to_be_bytes 4) ids)" by blast
  have "bs = to_be_bytes 4 (from_be_bytes (take 4 bs) :: u32) @ drop 4 bs"
    using be_prefix [where ?'a = 32, of 4 bs] Suc.prems by simp
  with ids show ?case by (intro exI [of _ "from_be_bytes (take 4 bs) # ids"]) simp
qed simp

lemma length_words: "length (concat (map (to_be_bytes 4) (ids :: u32 list))) = 4 * length ids"
  by (induction ids) simp_all

lemma encode_capability_ids_iff:
  "encode_capability_ids ids = Inr v \<longleftrightarrow>
     length ids < 2 ^ 16 \<and> 0 \<notin> set ids \<and> sorted_wrt (<) ids \<and>
     v = to_be_bytes 2 (of_nat (length ids) :: u16) @ concat (map (to_be_bytes 4) ids)"
  by (auto simp: encode_capability_ids_def try_from_usize_def push_capability_ids_iff word_gt_0 split: if_splits)

lemma encode_capability_ids_inject:
  assumes "encode_capability_ids ids = Inr v" "encode_capability_ids ids' = Inr v"
  shows "ids = ids'"
proof -
  from assms have "drop 2 v = concat (map (to_be_bytes 4) ids)" "drop 2 v = concat (map (to_be_bytes 4) ids')"
    unfolding encode_capability_ids_iff by simp_all
  then have "map (to_be_bytes 4) ids = map (to_be_bytes 4) ids'"
    by (metis as_chunks4_concat)
  moreover have "inj (to_be_bytes 4 :: u32 \<Rightarrow> bytes)"
    by (rule inj_on_inverseI [of _ from_be_bytes]) (simp add: from_to_be_bytes)
  ultimately show ?thesis by simp
qed

lemma two_bytes: "2 \<le> length bs \<Longrightarrow> [bs ! 0, bs ! Suc 0] = take 2 bs"
  by (intro nth_equalityI) (auto simp: less_Suc_eq)

lemma validate_capability_ids_iff:
  "validate_capability_ids v = Inr () \<longleftrightarrow> (\<exists>ids. encode_capability_ids ids = Inr v)"
proof
  assume valid: "validate_capability_ids v = Inr ()"
  define count :: u16 where "count = from_be_bytes (take 2 v)"
  from valid have len: "2 \<le> length v" "length v = unat count * 4 + 2"
    and chunks: "check_capability_chunks 0 (as_chunks4 (drop 2 v)) = Inr ()"
    by (auto simp: validate_capability_ids_def CAPABILITY_COUNT_LEN_def Let_def two_bytes count_def
        split: if_splits)
  from len obtain ids :: "u32 list" where ids: "length ids = unat count" "drop 2 v = concat (map (to_be_bytes 4) ids)"
    using chunks4_words [of "drop 2 v" "unat count"] by auto
  have "take 2 v = to_be_bytes 2 (of_nat (length ids) :: u16)"
    using be_prefix [where ?'a = 16, of 2 v] len ids(1) by (simp add: count_def)
  then have "v = to_be_bytes 2 (of_nat (length ids) :: u16) @ concat (map (to_be_bytes 4) ids)"
    using append_take_drop_id [of 2 v] ids(2) by simp
  moreover have "length ids < 2 ^ 16" using unsigned_less [where ?'a = nat, of count] ids(1) by simp
  ultimately show "\<exists>ids. encode_capability_ids ids = Inr v"
    using chunks ids(2) by (auto simp: encode_capability_ids_iff as_chunks4_concat check_capability_chunks_iff)
next
  assume "\<exists>ids. encode_capability_ids ids = Inr v"
  then obtain ids :: "u32 list" where ids: "length ids < 2 ^ 16" "0 \<notin> set ids" "sorted_wrt (<) ids"
    "v = to_be_bytes 2 (of_nat (length ids) :: u16) @ concat (map (to_be_bytes 4) ids)"
    unfolding encode_capability_ids_iff by blast
  have "[v ! 0, v ! Suc 0] = to_be_bytes 2 (of_nat (length ids) :: u16)"
    using two_bytes [of v] ids(4) by simp
  moreover have "check_capability_chunks 0 (map (to_be_bytes 4) ids) = Inr ()"
    using ids by (auto simp: check_capability_chunks_iff word_gt_0)
  ultimately show "validate_capability_ids v = Inr ()"
    using ids by (simp add: validate_capability_ids_def CAPABILITY_COUNT_LEN_def Let_def from_to_be_bytes
        unat_of_nat length_words as_chunks4_concat)
qed

section \<open>Fields on the wire\<close>

definition field_wire :: "extension_field \<Rightarrow> bytes" where
  "field_wire f = to_be_bytes 2 (field_id f) @ prefixed (field_value f)"

abbreviation field_fits :: "extension_field \<Rightarrow> bool" where
  "field_fits f \<equiv> field_id f \<noteq> 0 \<and> fits (field_value f)"

text \<open>The scan of a payload as a scan of its fields.\<close>

definition scan_field :: "extension_direction \<Rightarrow> u16 \<Rightarrow> extension_field \<Rightarrow> scan \<Rightarrow> extension_error + scan" where
  "scan_field direction mt f st =
     (case scan_capability direction mt (field_id f) (field_value f) st of
        Inl e \<Rightarrow> Inl e
      | Inr st \<Rightarrow> map_sum id (\<lambda>st. st\<lparr>extension_field_seen := True\<rparr>)
                   (scan_queue_ttl direction mt (field_id f) (field_value f) st))"

fun scan_list :: "extension_direction \<Rightarrow> u16 \<Rightarrow> extension_field list \<Rightarrow> scan \<Rightarrow> extension_error + scan" where
  "scan_list direction mt [] st = Inr st"
| "scan_list direction mt (f # fs) st =
     (case scan_field direction mt f st of Inl e \<Rightarrow> Inl e | Inr st \<Rightarrow> scan_list direction mt fs st)"

lemma length_field_wire: "length (field_wire f) = 6 + length (field_value f)"
  by (simp add: field_wire_def prefixed_def)

lemma slice_append: "slice (length pre) (length pre + length v) (pre @ v @ post) = v"
  by (simp add: slice_def)

lemma drop_nth4: "cursor + 4 \<le> length p \<Longrightarrow>
   [p ! cursor, p ! (cursor + 1), p ! (cursor + 2), p ! (cursor + 3)] = take 4 (drop cursor p)"
  by (intro nth_equalityI) (auto simp: less_Suc_eq numeral_eq_Suc)

lemma drop_nth2: "cursor + 2 \<le> length p \<Longrightarrow> [p ! cursor, p ! (cursor + 1)] = take 2 (drop cursor p)"
  by (intro nth_equalityI) (auto simp: less_Suc_eq)

lemma scan_payload_unfold:
  assumes "cursor < length p" "6 \<le> length p - cursor"
    and "from_be_bytes (take 2 (drop cursor p)) = fid" "unat (from_be_bytes (take 4 (drop (cursor + 2) p)) :: u32) = n"
  shows "scan_payload p direction mt cursor st =
    (if fid = 0 then Inl FieldIdReserved
     else if cursor + 6 + n > length p then Inl FieldValueTruncated
     else case scan_field direction mt \<lparr>field_id = fid, field_value = take n (drop (cursor + 6) p)\<rparr> st of
            Inl e \<Rightarrow> Inl e
          | Inr st \<Rightarrow> scan_payload p direction mt (cursor + 6 + n) st)"
proof -
  have "[p ! (cursor + 2), p ! (cursor + 3), p ! (cursor + 4), p ! (cursor + 5)] = take 4 (drop (cursor + 2) p)"
    using drop_nth4 [of "cursor + 2" p] assms(2) by (simp add: numeral_eq_Suc)
  moreover have "[p ! cursor, p ! (cursor + 1)] = take 2 (drop cursor p)"
    using drop_nth2 [of cursor p] assms(2) by simp
  ultimately show ?thesis
    using assms unfolding scan_payload.simps [of p direction mt cursor st] EXTENSION_HEADER_LEN_def
    by (simp add: Let_def slice_def scan_field_def split: sum.splits)
qed

lemma scan_payload_field:
  assumes "field_fits f"
  shows "scan_payload (pre @ field_wire f @ post) direction mt (length pre) st =
    (case scan_field direction mt f st of
       Inl e \<Rightarrow> Inl e
     | Inr st \<Rightarrow> scan_payload (pre @ field_wire f @ post) direction mt (length (pre @ field_wire f)) st)"
proof (cases f)
  case (fields fid v)
  let ?p = "pre @ field_wire f @ post"
  have "from_be_bytes (take 2 (drop (length pre) ?p)) = field_id f"
    by (simp add: field_wire_def from_to_be_bytes)
  moreover have "unat (from_be_bytes (take 4 (drop (length pre + 2) ?p)) :: u32) = length (field_value f)"
    using assms by (simp add: field_wire_def prefixed_def from_to_be_bytes)
  moreover have "take (length (field_value f)) (drop (length pre + 6) ?p) = field_value f"
    by (simp add: field_wire_def prefixed_def)
  ultimately show ?thesis
    using scan_payload_unfold [of "length pre" ?p "field_id f" "length (field_value f)" direction mt st] assms
    by (simp add: fields length_field_wire add.assoc split: sum.splits)
qed

lemma scan_payload_fields:
  "list_all field_fits fs \<Longrightarrow>
   scan_payload (pre @ concat (map field_wire fs)) direction mt (length pre) st = scan_list direction mt fs st"
proof (induction fs arbitrary: pre st)
  case Nil
  then show ?case by (simp add: scan_payload.simps)
next
  case (Cons f fs)
  show ?case
    using scan_payload_field [of f pre "concat (map field_wire fs)" direction mt st] Cons.prems
      Cons.IH [of "pre @ field_wire f"]
    by (simp split: sum.splits)
qed

lemma scan_payload_Inr:
  assumes "scan_payload p direction mt cursor st = Inr st'" "cursor \<le> length p"
  shows "\<exists>fs. list_all field_fits fs \<and> drop cursor p = concat (map field_wire fs)"
  using assms
proof (induction "length p - cursor" arbitrary: cursor st rule: less_induct)
  case less
  show ?case
  proof (cases "cursor < length p")
    case False
    then show ?thesis by (intro exI [of _ "[]"]) simp
  next
    case True
    define fid :: u16 where "fid = from_be_bytes (take 2 (drop cursor p))"
    define n where "n = unat (from_be_bytes (take 4 (drop (cursor + 2) p)) :: u32)"
    define f where "f = \<lparr>field_id = fid, field_value = take n (drop (cursor + 6) p)\<rparr>"
    have six: "6 \<le> length p - cursor"
      using less.prems True by (subst (asm) scan_payload.simps) (auto simp: EXTENSION_HEADER_LEN_def split: if_splits)
    from less.prems(1) obtain st1 where ok: "fid \<noteq> 0" "cursor + 6 + n \<le> length p"
      and rec: "scan_payload p direction mt (cursor + 6 + n) st1 = Inr st'"
      unfolding scan_payload_unfold [OF True six fid_def [symmetric] n_def [symmetric]]
      by (auto split: if_splits sum.splits)
    have "length p - (cursor + 6 + n) < length p - cursor" using True by simp
    from less.hyps [OF this rec ok(2)] obtain fs
      where fs: "list_all field_fits fs" "drop (cursor + 6 + n) p = concat (map field_wire fs)" by blast
    have "drop cursor p = take 2 (drop cursor p) @ drop (cursor + 2) p"
      "drop (cursor + 2) p = take 4 (drop (cursor + 2) p) @ drop (cursor + 6) p"
      "drop (cursor + 6) p = take n (drop (cursor + 6) p) @ drop (cursor + 6 + n) p"
      using append_take_drop_id [of 2 "drop cursor p"] append_take_drop_id [of 4 "drop (cursor + 2) p"]
        append_take_drop_id [of n "drop (cursor + 6) p"] by (simp_all add: add.commute add.left_commute)
    moreover have "take 2 (drop cursor p) = to_be_bytes 2 fid"
      using be_prefix [where ?'a = 16, of 2 "drop cursor p"] six by (simp add: fid_def)
    moreover have "take 4 (drop (cursor + 2) p) = to_be_bytes 4 (usize_to_u32_saturating n)"
      using be_prefix [where ?'a = 32, of 4 "drop (cursor + 2) p"] six by (simp add: n_def)
    moreover have "n < 2 ^ 32"
      unfolding n_def using unsigned_less [where ?'a = nat] by (rule order.strict_trans2) simp
    ultimately have "drop cursor p = field_wire f @ drop (cursor + 6 + n) p" "field_fits f"
      using ok by (simp_all add: field_wire_def prefixed_def f_def min_absorb2)
    with fs show ?thesis by (intro exI [of _ "f # fs"]) simp
  qed
qed

section \<open>Known fields\<close>

definition field_named :: "u16 \<Rightarrow> extension_field list \<Rightarrow> bytes option" where
  "field_named fid fs = map_of (map (\<lambda>f. (field_id f, field_value f)) fs) fid"

lemma field_named_simps [simp]:
  "field_named fid [] = None"
  "field_named fid (f # fs) = (if field_id f = fid then Some (field_value f) else field_named fid fs)"
  by (simp_all add: field_named_def)

lemma field_named_None: "fid \<notin> field_id ` set fs \<Longrightarrow> field_named fid fs = None"
  by (induction fs) auto

lemma is_capability_field_iff: "is_capability_field direction mt fid \<longleftrightarrow> fid = 1 \<and> requires_capability_field direction mt"
  by (cases direction) (auto simp: is_capability_field_def requires_capability_field_def CAPABILITY_IDS_FIELD_ID_def)

lemma is_queue_ttl_field_iff: "is_queue_ttl_field direction mt fid \<longleftrightarrow> fid = 1 \<and> is_queue_ttl_field direction mt 1"
  by (auto simp: is_queue_ttl_field_def QUEUE_TTL_HOURS_FIELD_ID_def)

lemma requires_not_ttl: "requires_capability_field direction mt \<Longrightarrow> \<not> is_queue_ttl_field direction mt fid"
  by (auto simp: requires_capability_field_def is_queue_ttl_field_def CONNECT_MESSAGE_TYPE_def)

text \<open>What both the encoder and the decoder check of one field value.\<close>

definition known_valid :: "extension_direction \<Rightarrow> u16 \<Rightarrow> extension_field \<Rightarrow> bool" where
  "known_valid direction mt f \<longleftrightarrow>
     (is_capability_field direction mt (field_id f) \<longrightarrow> validate_capability_ids (field_value f) = Inr ()) \<and>
     (is_queue_ttl_field direction mt (field_id f) \<longrightarrow> (\<exists>h. queue_ttl_hours (field_value f) = Inr h))"

lemma queue_ttl_hours_Inr: "queue_ttl_hours v = Inr h \<Longrightarrow> h = from_be_bytes v \<and> h \<noteq> 0"
  by (auto simp: queue_ttl_hours_def nonzero_new_def split: if_splits option.splits)

lemma scan_field_other: "field_id f \<noteq> 1 \<Longrightarrow> scan_field direction mt f st = Inr (st\<lparr>extension_field_seen := True\<rparr>)"
  using is_queue_ttl_field_iff [of direction mt "field_id f"]
  by (simp add: scan_field_def scan_capability_def scan_queue_ttl_def is_capability_field_iff)

lemma scan_list_other:
  "1 \<notin> field_id ` set fs \<Longrightarrow>
   scan_list direction mt fs st = Inr (if fs = [] then st else st\<lparr>extension_field_seen := True\<rparr>)"
proof (induction fs arbitrary: st)
  case (Cons f fs)
  then have "field_id f \<noteq> 1" "1 \<notin> field_id ` set fs" by auto
  with Cons.IH [of "st\<lparr>extension_field_seen := True\<rparr>"] show ?case by (simp add: scan_field_other)
qed simp

lemma scan_list_distinct:
  assumes "distinct (map field_id fs)" "list_all (known_valid direction mt) fs"
    and "\<not> capability_field_seen st" "scan_capability_ids st = None" "scan_fields st = known_fields_none"
  shows "scan_list direction mt fs st = Inr
    \<lparr>capability_field_seen = (requires_capability_field direction mt \<and> field_named 1 fs \<noteq> None),
     extension_field_seen = (extension_field_seen st \<or> fs \<noteq> []),
     scan_fields = \<lparr>known_queue_ttl_hours =
       (if is_queue_ttl_field direction mt 1 then map_option from_be_bytes (field_named 1 fs) else None)\<rparr>,
     scan_capability_ids =
       (if requires_capability_field direction mt then map_option (drop 2) (field_named 1 fs) else None)\<rparr>"
  using assms
proof (induction fs arbitrary: st)
  case Nil
  then show ?case by (cases st) (simp add: known_fields_none_def)
next
  case (Cons f fs)
  show ?case
  proof (cases "field_id f = 1")
    case False
    then show ?thesis using Cons by (simp add: scan_field_other)
  next
    case True
    with Cons.prems have "1 \<notin> field_id ` set fs" by (auto simp: rev_image_eqI)
    with True Cons.prems show ?thesis
      by (cases st)
        (auto simp: scan_field_def scan_capability_def scan_queue_ttl_def is_capability_field_iff
          known_valid_def scan_list_other known_fields_none_def requires_not_ttl field_named_None
          dest: queue_ttl_hours_Inr)
  qed
qed

section \<open>The encoder\<close>

lemma check_fields_Inr:
  "check_fields direction mt prev seen n fs = Inr (seen', n') \<Longrightarrow>
   list_all field_fits fs \<and> list_all (known_valid direction mt) fs \<and>
   sorted_wrt (<) (map field_id fs) \<and> (\<forall>f \<in> set fs. prev < field_id f) \<and>
   seen' = (seen \<or> requires_capability_field direction mt \<and> field_named 1 fs \<noteq> None)"
proof (induction fs arbitrary: prev seen n)
  case (Cons f fs)
  have step: "check_fields direction mt (field_id f)
      (seen \<or> is_capability_field direction mt (field_id f)) (n + 6 + length (field_value f)) fs = Inr (seen', n')"
    and f: "field_fits f" "prev < field_id f" "known_valid direction mt f"
    using Cons.prems
    by (auto simp: Let_def known_valid_def EXTENSION_HEADER_LEN_def try_from_usize_def unat_of_nat
        split: if_splits option.splits sum.splits)
  have "\<forall>g \<in> set fs. prev < field_id g"
    using Cons.IH [OF step] f(2) by (meson order.strict_trans)
  with Cons.IH [OF step] f show ?case
    by (auto simp: is_capability_field_iff)
qed simp

lemma write_fields_Inr:
  "list_all field_fits fs \<Longrightarrow> write_fields v fs = Inr (v @ concat (map field_wire fs))"
  by (induction fs arbitrary: v)
    (auto simp: try_from_usize_def field_wire_def prefixed_def usize_to_u32_saturating_def)

lemma encode_payload_Inr:
  assumes enc: "encode_payload c mt direction fs = Inr enc" and "fs \<noteq> []"
  obtains seen n where "fits c" "check_fields direction mt 0 False (4 + length c) fs = Inr (seen, n)"
    "requires_capability_field direction mt \<longrightarrow> seen"
    "\<exists>value. write_fields (to_be_bytes 4 (of_nat (length c) :: u32) @ c) fs = Inr value \<and>
      enc = \<lparr>encoded_value = value, extensions_present = True\<rparr>"
proof -
  have fits: "fits c"
    by (rule ccontr) (use assms in \<open>simp add: encode_payload_def try_from_usize_def\<close>)
  show thesis
  proof (cases "check_fields direction mt 0 False (4 + length c) fs")
    case (Inl e)
    with assms fits show thesis by (simp add: encode_payload_def try_from_usize_def)
  next
    case (Inr r)
    obtain seen n where r: "r = (seen, n)" by (cases r)
    show thesis
    proof (cases "write_fields (to_be_bytes 4 (of_nat (length c) :: u32) @ c) fs")
      case (Inl e)
      with assms fits Inr r show thesis
        by (simp add: encode_payload_def try_from_usize_def split: if_splits sum.splits)
    next
      case w: (Inr v)
      with assms fits Inr r show thesis
        by (intro that [OF fits Inr [unfolded r]])
          (simp_all add: encode_payload_def try_from_usize_def split: if_splits sum.splits)
    qed
  qed
qed

section \<open>The decoder\<close>

lemma core_prefix:
  assumes "fits c"
  shows "[(to_be_bytes 4 (of_nat (length c) :: u32) @ c @ post) ! 0, (to_be_bytes 4 (of_nat (length c) :: u32) @ c @ post) ! 1,
     (to_be_bytes 4 (of_nat (length c) :: u32) @ c @ post) ! 2, (to_be_bytes 4 (of_nat (length c) :: u32) @ c @ post) ! 3]
     = to_be_bytes 4 (of_nat (length c) :: u32)"
  using drop_nth4 [of 0 "to_be_bytes 4 (of_nat (length c) :: u32) @ c @ post"] by (simp add: numeral_2_eq_2)

lemma decode_payload_framed:
  assumes "fits c" "list_all field_fits fs"
  shows "decode_payload (to_be_bytes 4 (of_nat (length c) :: u32) @ c @ concat (map field_wire fs)) mt direction True =
    (case scan_list direction mt fs scan_start of
       Inl e \<Rightarrow> Inl e
     | Inr st \<Rightarrow>
         if \<not> extension_field_seen st then Inl NoExtensionFields
         else if requires_capability_field direction mt \<and> \<not> capability_field_seen st then Inl CapabilityListMissing
         else Inr \<lparr>core = \<lparr>range_offset = 4, range_length = length c\<rparr>, known = scan_fields st,
                   capability_ids = scan_capability_ids st\<rparr>)"
  using assms core_prefix [OF assms(1), of "concat (map field_wire fs)"]
    scan_payload_fields [OF assms(2), of "to_be_bytes 4 (of_nat (length c) :: u32) @ c" direction mt scan_start]
  by (simp add: decode_payload_def Let_def from_to_be_bytes unat_of_nat)

lemma decode_payload_frames:
  assumes "decode_payload p mt direction True = Inr d"
  shows "\<exists>c fs. fits c \<and> list_all field_fits fs \<and>
    p = to_be_bytes 4 (of_nat (length c) :: u32) @ c @ concat (map field_wire fs)"
proof -
  define n :: u32 where "n = from_be_bytes (take 4 p)"
  have n: "n = from_be_bytes [p ! 0, p ! Suc 0, p ! 2, p ! 3]" if "4 \<le> length p"
    using that drop_nth4 [of 0 p] by (simp add: n_def numeral_2_eq_2)
  from assms have len: "4 \<le> length p" by (auto simp: decode_payload_def split: if_splits)
  with assms obtain st where bound: "4 + unat n \<le> length p" "scan_payload p direction mt (4 + unat n) scan_start = Inr st"
    by (auto simp: decode_payload_def Let_def n [symmetric] split: if_splits sum.splits)
  from scan_payload_Inr [OF bound(2,1)] obtain fs
    where fs: "list_all field_fits fs" "drop (4 + unat n) p = concat (map field_wire fs)" by blast
  have "take 4 p = to_be_bytes 4 n" using be_prefix [where ?'a = 32, of 4 p] len by (simp add: n_def)
  then have "p = to_be_bytes 4 n @ take (unat n) (drop 4 p) @ concat (map field_wire fs)"
    using append_take_drop_id [of 4 p] append_take_drop_id [of "unat n" "drop 4 p"] fs(2)
    by (simp add: add.commute)
  moreover have "length (take (unat n) (drop 4 p)) = unat n" using bound(1) by simp
  ultimately show ?thesis
    using fs(1) unsigned_less [where ?'a = nat, of n]
    by (intro exI [of _ "take (unat n) (drop 4 p)"] exI [of _ fs]) simp
qed

text \<open>What the scan keeps of the known fields it has accepted.\<close>

definition scan_sound :: "scan \<Rightarrow> bool" where
  "scan_sound st \<longleftrightarrow>
     capability_field_seen st = (scan_capability_ids st \<noteq> None) \<and>
     (\<forall>b. scan_capability_ids st = Some b \<longrightarrow>
        (\<exists>ids :: u32 list. 0 \<notin> set ids \<and> sorted_wrt (<) ids \<and> b = concat (map (to_be_bytes 4) ids))) \<and>
     known_queue_ttl_hours (scan_fields st) \<noteq> Some 0"

lemma scan_field_sound: "scan_field direction mt f st = Inr st' \<Longrightarrow> scan_sound st \<Longrightarrow> scan_sound st'"
proof -
  have caps: "\<exists>ids :: u32 list. 0 \<notin> set ids \<and> sorted_wrt (<) ids \<and> drop 2 v = concat (map (to_be_bytes 4) ids)"
    if "validate_capability_ids v = Inr ()" for v
    using that unfolding validate_capability_ids_iff encode_capability_ids_iff by fastforce
  show "scan_field direction mt f st = Inr st' \<Longrightarrow> scan_sound st \<Longrightarrow> scan_sound st'"
    by (auto simp: scan_sound_def scan_field_def scan_capability_def scan_queue_ttl_def
        split: if_splits sum.splits dest: caps queue_ttl_hours_Inr)
qed

lemma scan_list_sound: "scan_list direction mt fs st = Inr st' \<Longrightarrow> scan_sound st \<Longrightarrow> scan_sound st'"
  by (induction fs arbitrary: st) (auto split: sum.splits dest: scan_field_sound)

section \<open>Properties\<close>

text \<open>
  \<^bold>\<open>C18.\<close> Round trip of wire 3 payloads: whatever the encoder produces for a core and its
  extension fields, the decoder accepts under the produced flag; it returns the core unchanged, the
  capability list of a handshake message and the time to live of a queue message as they were
  given, and skips every other field. The flag is set exactly when there are fields.
\<close>

theorem extension_payload_roundtrip:
  assumes "encode_payload c mt direction fs = Inr enc"
  shows "(extensions_present enc \<longleftrightarrow> fs \<noteq> []) \<and>
    (\<exists>d. decode_payload (encoded_value enc) mt direction (extensions_present enc) = Inr d \<and>
      range_get (core d) (encoded_value enc) = Some c \<and>
      capability_ids d = (if requires_capability_field direction mt then map_option (drop 2) (field_named 1 fs) else None) \<and>
      known_queue_ttl_hours (known d) =
        (if is_queue_ttl_field direction mt 1 then map_option from_be_bytes (field_named 1 fs) else None))"
proof (cases "fs = []")
  case True
  with assms show ?thesis
    by (auto simp: encode_payload_def decode_payload_def range_get_def as_range_def slice_def
        requires_capability_field_def known_fields_none_def split: if_splits option.splits)
next
  case False
  from encode_payload_Inr [OF assms False] obtain seen n where small: "fits c"
    and checked: "check_fields direction mt 0 False (4 + length c) fs = Inr (seen, n)"
    and caps: "requires_capability_field direction mt \<longrightarrow> seen"
    and written: "\<exists>value. write_fields (to_be_bytes 4 (of_nat (length c) :: u32) @ c) fs = Inr value \<and>
      enc = \<lparr>encoded_value = value, extensions_present = True\<rparr>" by blast
  from check_fields_Inr [OF checked] have fs: "list_all field_fits fs" "list_all (known_valid direction mt) fs"
    "distinct (map field_id fs)" "seen = (requires_capability_field direction mt \<and> field_named 1 fs \<noteq> None)"
    by (simp_all add: strict_sorted_iff)
  from written fs(1)
  have enc: "enc = \<lparr>encoded_value = to_be_bytes 4 (of_nat (length c) :: u32) @ c @ concat (map field_wire fs),
      extensions_present = True\<rparr>"
    by (simp add: write_fields_Inr)
  show ?thesis
    using False small fs(4) caps
      decode_payload_framed [OF small fs(1), of mt direction]
      scan_list_distinct [OF fs(3,2), of scan_start]
    by (simp add: enc scan_start_def range_get_def as_range_def slice_def)
qed

theorem extension_payload_roundtrip_witness:
  "\<exists>d. decode_payload [0, 0, 0, 1, 9, 0, 1, 0, 0, 0, 4, 0, 0, 0, 24] 200 ClientToBroker True = Inr d \<and>
     range_get (core d) [0, 0, 0, 1, 9, 0, 1, 0, 0, 0, 4, 0, 0, 0, 24] = Some [9] \<and>
     known_queue_ttl_hours (known d) = Some 24"
proof -
  have enc: "encode_payload [9] 200 ClientToBroker [\<lparr>field_id = 1, field_value = [0, 0, 0, 24]\<rparr>] =
      Inr \<lparr>encoded_value = [0, 0, 0, 1, 9, 0, 1, 0, 0, 0, 4, 0, 0, 0, 24], extensions_present = True\<rparr>"
    by (simp add: encode_payload_def try_from_usize_def is_queue_ttl_field_def is_capability_field_def
        requires_capability_field_def queue_ttl_hours_def nonzero_new_def validate_payload_length_def
        QUEUE_TTL_HOURS_FIELD_ID_def CONNECT_MESSAGE_TYPE_def EXTENSION_HEADER_LEN_def
        from_be_bytes_def to_be_bytes_def upt_rec Let_def)
  show ?thesis
    using extension_payload_roundtrip [OF enc]
    by (auto simp: is_queue_ttl_field_def QUEUE_TTL_HOURS_FIELD_ID_def from_be_bytes_def)
qed

text \<open>
  \<^bold>\<open>C19.\<close> The decoder accepts only well-framed payloads, on any input: an accepted payload is
  its core with a length prefix followed by at least one extension field, each with a nonzero
  identifier and a value that lies inside the payload; the core range it returns lies inside the
  payload; a handshake message carries a capability list, and every list it returns holds strictly
  ascending nonzero identifiers; a time to live is never zero.
\<close>

theorem extension_payload_framed:
  assumes "decode_payload p mt direction True = Inr d"
  shows "(\<exists>c fs. fs \<noteq> [] \<and> list_all field_fits fs \<and> range_get (core d) p = Some c \<and>
      p = to_be_bytes 4 (of_nat (length c) :: u32) @ c @ concat (map field_wire fs)) \<and>
    (requires_capability_field direction mt \<longrightarrow> capability_ids d \<noteq> None) \<and>
    (\<forall>b. capability_ids d = Some b \<longrightarrow>
      (\<exists>ids :: u32 list. 0 \<notin> set ids \<and> sorted_wrt (<) ids \<and> b = concat (map (to_be_bytes 4) ids))) \<and>
    known_queue_ttl_hours (known d) \<noteq> Some 0"
proof -
  from decode_payload_frames [OF assms] obtain c fs
    where c: "fits c" and fs: "list_all field_fits fs"
      and p: "p = to_be_bytes 4 (of_nat (length c) :: u32) @ c @ concat (map field_wire fs)" by blast
  from assms obtain st where st: "scan_list direction mt fs scan_start = Inr st" "extension_field_seen st"
    "requires_capability_field direction mt \<longrightarrow> capability_field_seen st"
    and d: "d = \<lparr>core = \<lparr>range_offset = 4, range_length = length c\<rparr>, known = scan_fields st,
      capability_ids = scan_capability_ids st\<rparr>"
    unfolding p decode_payload_framed [OF c fs] by (auto split: sum.splits if_splits)
  from st have "fs \<noteq> []" by (auto simp: scan_start_def)
  moreover have "scan_sound st"
    using scan_list_sound [OF st(1)] by (simp add: scan_sound_def scan_start_def known_fields_none_def)
  ultimately show ?thesis
    using fs st(3) by (auto simp: d p scan_sound_def range_get_def as_range_def slice_def)
qed

theorem extension_payload_framed_witness:
  "(\<exists>c fs. fs \<noteq> [] \<and> list_all field_fits fs \<and>
     range_get \<lparr>range_offset = 4, range_length = 0\<rparr> [0, 0, 0, 0, 0, 9, 0, 0, 0, 0] = Some c \<and>
     [0, 0, 0, 0, 0, 9, 0, 0, 0, 0] = to_be_bytes 4 (of_nat (length c) :: u32) @ c @ concat (map field_wire fs))"
proof -
  have "decode_payload [0, 0, 0, 0, 0, 9, 0, 0, 0, 0] 200 ClientToBroker True = Inr
    \<lparr>core = \<lparr>range_offset = 4, range_length = 0\<rparr>, known = known_fields_none, capability_ids = None\<rparr>"
    by (simp add: decode_payload_def scan_payload.simps scan_start_def scan_capability_def scan_queue_ttl_def
        is_queue_ttl_field_def is_capability_field_def requires_capability_field_def
        QUEUE_TTL_HOURS_FIELD_ID_def CONNECT_MESSAGE_TYPE_def CAPABILITY_IDS_FIELD_ID_def EXTENSION_HEADER_LEN_def
        from_be_bytes_def)
  from extension_payload_framed [OF this] show ?thesis by simp
qed

text \<open>
  \<^bold>\<open>C20.\<close> Capability sets have one representation: the encoder succeeds exactly on at most 65535
  strictly ascending nonzero identifiers, it is injective, and the validator accepts exactly what the
  encoder produces.
\<close>

theorem capability_list_canonical:
  "((\<exists>v. encode_capability_ids ids = Inr v) \<longleftrightarrow>
      length ids < 2 ^ 16 \<and> 0 \<notin> set ids \<and> sorted_wrt (<) ids) \<and>
   (encode_capability_ids ids = Inr v \<and> encode_capability_ids ids' = Inr v \<longrightarrow> ids = ids') \<and>
   (validate_capability_ids v = Inr () \<longleftrightarrow> (\<exists>ids. encode_capability_ids ids = Inr v))"
  using encode_capability_ids_iff [of ids] encode_capability_ids_inject validate_capability_ids_iff [of v]
  by blast

theorem capability_list_canonical_witness:
  "\<exists>v. encode_capability_ids [3, 7] = Inr v \<and> validate_capability_ids v = Inr ()"
proof -
  have "length [3, 7 :: u32] < 2 ^ 16 \<and> 0 \<notin> set [3, 7 :: u32] \<and> sorted_wrt (<) [3, 7 :: u32]" by simp
  then obtain v where "encode_capability_ids [3, 7] = Inr v"
    using capability_list_canonical [of "[3, 7]"] by blast
  then show ?thesis using capability_list_canonical [of "[3, 7]" v] by blast
qed

end
