(* ===== verification/Routing.thy ===== *)
theory Routing
  imports Fitz_Prelude
begin

text \<open>
  Route families, routes and the shape every route must have
  (\<^verbatim>\<open>src/runtime/routing.rs\<close> and \<^verbatim>\<open>src/utils/route_shape.rs\<close>). A route is
  a string \<open>scheme://realm/area/resource/...\<close>; the functions here are the only places where the
  code decides where the scheme ends and which segments a route has. The lemmas characterise the
  exact parsers and show that addresses of different sessions or families never coincide.
\<close>

section \<open>Definitions\<close>

subsection \<open>Route shape\<close>

definition MAX_ROUTE_BYTES :: nat where "MAX_ROUTE_BYTES = 4 * 1024"
definition MAX_ROUTE_SEGMENTS :: nat where "MAX_ROUTE_SEGMENTS = 64"

text \<open>
  \<^verbatim>\<open>char::is_control\<close> on the UTF-8 bytes of a string: U+0000 to U+001F and U+007F are one byte
  each, U+0080 to U+009F are the byte \<^verbatim>\<open>0xC2\<close> followed by their low byte.
\<close>

fun contains_control_character :: "string \<Rightarrow> bool" where
  "contains_control_character [] = False"
| "contains_control_character (c # cs) =
     ((of_char c :: nat) < 0x20 \<or> (of_char c :: nat) = 0x7F \<or>
      (of_char c :: nat) = 0xC2 \<and>
        (case cs of [] \<Rightarrow> False | d # _ \<Rightarrow> 0x80 \<le> (of_char d :: nat) \<and> (of_char d :: nat) \<le> 0x9F) \<or>
      contains_control_character cs)"

datatype route_shape_error = ControlCharacters | TooManyBytes | TooManySegments

definition validate_route_shape :: "string \<Rightarrow> route_shape_error + unit" where
  "validate_route_shape route =
     (if contains_control_character route then Inl ControlCharacters
      else if length route > MAX_ROUTE_BYTES then Inl TooManyBytes
      else
        let path = (case split_once ''://'' route of None \<Rightarrow> route | Some (_, path) \<Rightarrow> path);
            segment_count = length (filter (\<lambda>segment. segment \<noteq> []) (split_on CHR ''/'' path))
        in if segment_count > MAX_ROUTE_SEGMENTS then Inl TooManySegments else Inr ())"

subsection \<open>Route components\<close>

record route_triplet_t =
  realm :: string
  area :: string
  resource :: string

record route_quad_t = route_triplet_t +
  operation :: string

definition split_scheme :: "string \<Rightarrow> (string \<times> string) option" where
  "split_scheme route = split_once ''://'' route"

definition route_scheme :: "string \<Rightarrow> string option" where
  "route_scheme route = map_option fst (split_scheme route)"

definition route_path :: "string \<Rightarrow> string" where
  "route_path route = (case split_scheme route of None \<Rightarrow> route | Some (_, path) \<Rightarrow> path)"

definition route_segments :: "string \<Rightarrow> string list option" where
  "route_segments route =
     (if contains_control_character route then None
      else Some (split_on CHR ''/'' (dropWhile (\<lambda>c. c = CHR ''/'') (route_path route))))"

definition route_triplet :: "string \<Rightarrow> route_triplet_t option" where
  "route_triplet route =
     (case route_segments route of
        Some (r # a # s # _) \<Rightarrow> Some \<lparr>realm = r, area = a, resource = s\<rparr>
      | _ \<Rightarrow> None)"

definition route_exact_triplet :: "string \<Rightarrow> route_triplet_t option" where
  "route_exact_triplet route =
     (case route_segments route of
        Some (r # a # s # rest) \<Rightarrow>
          (if rest \<noteq> [] then None else Some \<lparr>realm = r, area = a, resource = s\<rparr>)
      | _ \<Rightarrow> None)"

definition route_quad :: "string \<Rightarrow> route_quad_t option" where
  "route_quad route =
     (case route_segments route of
        Some (r # a # s # op # _) \<Rightarrow> Some \<lparr>realm = r, area = a, resource = s, operation = op\<rparr>
      | _ \<Rightarrow> None)"

definition route_exact_quad :: "string \<Rightarrow> route_quad_t option" where
  "route_exact_quad route =
     (case route_segments route of
        Some (r # a # s # op # rest) \<Rightarrow>
          (if rest \<noteq> [] then None else Some \<lparr>realm = r, area = a, resource = s, operation = op\<rparr>)
      | _ \<Rightarrow> None)"

subsection \<open>Families and addresses\<close>

type_synonym route_family = u32
type_synonym route = string

record route_address =
  family :: route_family
  addr_route :: route

text \<open>\<^verbatim>\<open>RouteFamily::try_from(u64)\<close> refuses what a \<^verbatim>\<open>u32\<close> cannot hold.\<close>

definition route_family_try_from :: "u64 \<Rightarrow> route_family option" where
  "route_family_try_from i = (if unat i < 2 ^ 32 then Some (ucast i) else None)"

text \<open>The decimal digits that \<^verbatim>\<open>format!\<close> writes for an unsigned integer.\<close>

fun decimal :: "nat \<Rightarrow> string" where
  "decimal n = (if n < 10 then [char_of (48 + n)] else decimal (n div 10) @ [char_of (48 + n mod 10)])"

definition session_inbox_address :: "route_family \<Rightarrow> u64 \<Rightarrow> route_address" where
  "session_inbox_address fam sid =
     \<lparr>family = fam, addr_route = ''inbox://session/'' @ decimal (unat sid)\<rparr>"

declare decimal.simps [simp del]

section \<open>Parsing and printing\<close>

lemma join_three: "join_with sep [a, b, c] = a @ sep @ b @ sep @ c"
  by simp

lemma join_four: "join_with sep [a, b, c, d] = a @ sep @ b @ sep @ c @ sep @ d"
  by simp

lemma route_segments_iff:
  "route_segments route = Some segs \<longleftrightarrow>
     \<not> contains_control_character route \<and> segs \<noteq> [] \<and> (\<forall>s \<in> set segs. CHR ''/'' \<notin> set s) \<and>
     dropWhile (\<lambda>c. c = CHR ''/'') (route_path route) = join_with ''/'' segs"
  by (auto simp: route_segments_def join_split_on split_on_no_sep split_join_on)

lemma route_exact_triplet_Some:
  "route_exact_triplet route = Some t \<longleftrightarrow> route_segments route = Some [realm t, area t, resource t]"
  by (auto simp: route_exact_triplet_def split: option.splits list.splits)

lemma route_exact_quad_Some:
  "route_exact_quad route = Some q \<longleftrightarrow>
     route_segments route = Some [realm q, area q, resource q, operation q]"
  by (auto simp: route_exact_quad_def split: option.splits list.splits)

lemma dropWhile_join:
  "seg \<noteq> [] \<Longrightarrow> c \<notin> set seg \<Longrightarrow> dropWhile (\<lambda>x. x = c) (join_with [c] (seg # segs)) = join_with [c] (seg # segs)"
  by (cases seg; cases segs) auto

text \<open>A scheme that does not contain the separator is what \<open>split_scheme\<close> returns.\<close>

lemma split_scheme_print:
  "CHR '':'' \<notin> set scheme \<Longrightarrow> split_scheme (scheme @ ''://'' @ path) = Some (scheme, path)"
proof (unfold split_scheme_def, induction scheme)
  case Nil
  show ?case by (simp add: strip_prefix_def)
next
  case (Cons x xs)
  then have "x \<noteq> CHR '':''" by auto
  then have "strip_prefix ''://'' (x # (xs @ ''://'' @ path)) = None"
    by (simp add: strip_prefix_def)
  with Cons show ?case by simp
qed

section \<open>Decimal numbers\<close>

lemma decimal_digit: "(n :: nat) < 10 \<Longrightarrow> m < 10 \<Longrightarrow> (char_of (48 + n) :: char) = char_of (48 + m) \<longleftrightarrow> n = m"
  by (auto dest!: arg_cong [where f = "of_char :: char \<Rightarrow> nat"])

lemma decimal_not_Nil: "decimal n \<noteq> []"
  by (subst decimal.simps) simp

lemma decimal_inject: "decimal m = decimal n \<Longrightarrow> m = n"
proof (induction m arbitrary: n rule: less_induct)
  case (less m)
  show ?case
  proof (cases "m < 10 \<or> n < 10")
    case True
    then show ?thesis
      using less.prems decimal_not_Nil [of "m div 10"] decimal_not_Nil [of "n div 10"]
      by (subst (asm) (1 2) decimal.simps) (auto simp: decimal_digit split: if_splits)
  next
    case False
    then have "decimal (m div 10) = decimal (n div 10)" "m mod 10 = n mod 10"
      using less.prems by (subst (asm) (1 2) decimal.simps; simp add: decimal_digit)+
    with less.IH [of "m div 10" "n div 10"] False have "m div 10 = n div 10" by simp
    with \<open>m mod 10 = n mod 10\<close> show ?thesis by (metis div_mod_decomp)
  qed
qed

section \<open>Properties\<close>

text \<open>
  \<^bold>\<open>C21.\<close> The exact route parsers accept exactly the printed routes: a route parses to a
  triplet or quad if and only if it has no control character, no part contains the segment
  separator, and its path, after leading separators, is the parts joined by separators. Printing the
  parts behind a scheme and parsing them again therefore returns the parts and the scheme.
\<close>

theorem exact_route_parsers:
  "(route_exact_triplet route = Some t \<longleftrightarrow>
      \<not> contains_control_character route \<and>
      CHR ''/'' \<notin> set (realm t) \<union> set (area t) \<union> set (resource t) \<and>
      dropWhile (\<lambda>c. c = CHR ''/'') (route_path route) =
        realm t @ ''/'' @ area t @ ''/'' @ resource t) \<and>
   (route_exact_quad route = Some q \<longleftrightarrow>
      \<not> contains_control_character route \<and>
      CHR ''/'' \<notin> set (realm q) \<union> set (area q) \<union> set (resource q) \<union> set (operation q) \<and>
      dropWhile (\<lambda>c. c = CHR ''/'') (route_path route) =
        realm q @ ''/'' @ area q @ ''/'' @ resource q @ ''/'' @ operation q)"
  by (simp add: route_exact_triplet_Some route_exact_quad_Some route_segments_iff)

text \<open>
  \<^bold>\<open>C22.\<close> Printing and parsing a route: parts without separators, the first one not empty,
  printed behind a scheme without a colon, give a route whose scheme and triplet are what was
  printed, unless the printed route contains a control character.
\<close>

theorem route_print_parse:
  assumes "CHR '':'' \<notin> set scheme" and "r \<noteq> []"
    and "CHR ''/'' \<notin> set r \<union> set a \<union> set s"
    and "\<not> contains_control_character (scheme @ ''://'' @ r @ ''/'' @ a @ ''/'' @ s)"
  shows "route_scheme (scheme @ ''://'' @ r @ ''/'' @ a @ ''/'' @ s) = Some scheme \<and>
    route_exact_triplet (scheme @ ''://'' @ r @ ''/'' @ a @ ''/'' @ s) =
      Some \<lparr>realm = r, area = a, resource = s\<rparr>"
proof -
  let ?path = "r @ ''/'' @ a @ ''/'' @ s"
  have "split_scheme (scheme @ ''://'' @ ?path) = Some (scheme, ?path)"
    using assms(1) by (rule split_scheme_print)
  moreover have "dropWhile (\<lambda>c. c = CHR ''/'') ?path = ?path"
    using dropWhile_join [of r "CHR ''/''" "[a, s]"] assms(2,3) by simp
  ultimately show ?thesis
    using assms(3,4)
    by (simp add: route_scheme_def route_exact_triplet_Some route_segments_iff route_path_def)
qed

theorem route_print_parse_witness:
  "route_exact_triplet ''lease://acme/locks/db'' = Some \<lparr>realm = ''acme'', area = ''locks'', resource = ''db''\<rparr>"
  using route_print_parse [of "''lease''" "''acme''" "''locks''" "''db''"] by simp

text \<open>
  \<^bold>\<open>C23.\<close> Session inboxes are isolated: two inbox addresses are equal only if they belong to the
  same session of the same family, and no family identifier received as a 64-bit integer is ever
  truncated into another family.
\<close>

theorem session_inboxes_isolated:
  "(session_inbox_address f i = session_inbox_address g j \<longleftrightarrow> f = g \<and> i = j) \<and>
   (route_family_try_from n = Some h \<longleftrightarrow> unat n = unat h)"
proof -
  have "route_family_try_from n = Some h \<longleftrightarrow> unat n = unat h"
  proof
    assume "route_family_try_from n = Some h"
    then show "unat n = unat h"
      by (auto simp: route_family_try_from_def unsigned_ucast_eq take_bit_nat_eq_self split: if_splits)
  next
    assume eq: "unat n = unat h"
    then have "unat n < 2 ^ 32" using unsigned_less [where ?'a = nat, of h] by simp
    moreover have "ucast n = h" by (rule word_unat_eq_iff [THEN iffD2]) (use eq calculation in \<open>simp add: unsigned_ucast_eq take_bit_nat_eq_self\<close>)
    ultimately show "route_family_try_from n = Some h" by (simp add: route_family_try_from_def)
  qed
  then show ?thesis
    using decimal_inject [of "unat i" "unat j"] word_unat_eq_iff [of i j] by (auto simp: session_inbox_address_def)
qed

end
