(* ===== verification/Matcher.thy ===== *)
theory Matcher
  imports Routing
begin

text \<open>
  Wildcard patterns (\<^verbatim>\<open>src/runtime/matcher.rs\<close> and
  \<^verbatim>\<open>src/runtime/matcher/resource_registration.rs\<close>): parsing and validation of registration
  patterns, the dynamic-programming matcher, the coverage test that authorises a wildcard
  registration against a granted pattern, and the test whether a registration can match below a
  resource. \<open>pmatch\<close> is the specification of a pattern; the matcher is shown equal to it, and the
  coverage test, which walks the product of two state sets packed into 128-bit words, is shown sound
  and, up to its state budget, complete for language inclusion.
\<close>

section \<open>Definitions\<close>

subsection \<open>Patterns\<close>

datatype pattern_segment = Literal string | Star | DoubleStar

record pattern =
  pat_route :: string
  pat_scheme :: "string option"
  pat_segments :: "pattern_segment list"

datatype pattern_depth = Flexible | CanMatch nat

definition collect_path_segments_fast :: "string \<Rightarrow> string list" where
  "collect_path_segments_fast path = filter (\<lambda>seg. seg \<noteq> []) (split_on CHR ''/'' path)"

definition split_route :: "string \<Rightarrow> string option \<times> string list" where
  "split_route route =
     (case split_scheme route of
        Some (scheme, path) \<Rightarrow> (Some scheme, collect_path_segments_fast path)
      | None \<Rightarrow> (None, collect_path_segments_fast route))"

definition parse_segment :: "string \<Rightarrow> pattern_segment" where
  "parse_segment segment =
     (if segment = ''**'' then DoubleStar else if segment = ''*'' then Star else Literal segment)"

definition parse_pattern_segments :: "string \<Rightarrow> pattern_segment list" where
  "parse_pattern_segments route = map parse_segment (snd (split_route route))"

definition parse_pattern :: "string \<Rightarrow> string option \<times> pattern_segment list" where
  "parse_pattern route =
     (let (scheme, segments) = split_route route in (scheme, map parse_segment segments))"

definition extract_route_segments_borrowed :: "string \<Rightarrow> string list" where
  "extract_route_segments_borrowed route = snd (split_route route)"

definition pattern_new :: "string \<Rightarrow> pattern" where
  "pattern_new route =
     (let (scheme, segments) = parse_pattern route
      in \<lparr>pat_route = route, pat_scheme = scheme, pat_segments = segments\<rparr>)"

definition is_wildcard :: "pattern \<Rightarrow> bool" where
  "is_wildcard p = list_ex (\<lambda>segment. case segment of Star \<Rightarrow> True | DoubleStar \<Rightarrow> True | Literal _ \<Rightarrow> False)
     (pat_segments p)"

subsection \<open>Registration patterns\<close>

datatype registration_error =
    BadShape route_shape_error | MissingScheme | WrongScheme | EmptySegment
  | PartialWildcard | AdjacentDoubleStar | CannotMatchDepth nat

fun adjacent :: "('a \<Rightarrow> 'a \<Rightarrow> bool) \<Rightarrow> 'a list \<Rightarrow> bool" where
  "adjacent P (x # y # zs) = (P x y \<or> adjacent P (y # zs))"
| "adjacent P _ = False"

definition compile_registration_pattern ::
  "string \<Rightarrow> string \<Rightarrow> pattern_depth \<Rightarrow> registration_error + pattern" where
  "compile_registration_pattern route expected_scheme depth =
     (case validate_route_shape route of
        Inl e \<Rightarrow> Inl (BadShape e)
      | Inr _ \<Rightarrow>
          (case split_once ''://'' route of
             None \<Rightarrow> Inl MissingScheme
           | Some (scheme, path) \<Rightarrow>
               if scheme \<noteq> expected_scheme then Inl WrongScheme
               else if path = [] \<or> list_ex (\<lambda>s. s = []) (split_on CHR ''/'' path) then Inl EmptySegment
               else
                 let segments = split_on CHR ''/'' path in
                 if list_ex (\<lambda>s. CHR ''*'' \<in> set s \<and> \<not> (s = ''*'' \<or> s = ''**'')) segments
                 then Inl PartialWildcard
                 else if adjacent (\<lambda>s t. s = ''**'' \<and> t = ''**'') segments then Inl AdjacentDoubleStar
                 else
                   let rejected =
                     (case depth of
                        Flexible \<Rightarrow> None
                      | CanMatch required \<Rightarrow>
                          let fixed = length (filter (\<lambda>s. s \<noteq> ''**'') segments);
                              flexible = ''**'' \<in> set segments
                          in if fixed > required \<or> \<not> flexible \<and> fixed \<noteq> required then Some required else None)
                   in case rejected of
                        Some required \<Rightarrow> Inl (CannotMatchDepth required)
                      | None \<Rightarrow> Inr (pattern_new route)))"

subsection \<open>The matcher\<close>

text \<open>One row of the table per pattern segment; position \<open>i\<close> says whether the pattern so far matches
  the first \<open>i\<close> route segments.\<close>

fun double_star_row :: "bool \<Rightarrow> bool list \<Rightarrow> bool list" where
  "double_star_row before [] = []"
| "double_star_row before (p # previous) = (p \<or> before) # double_star_row (p \<or> before) previous"

definition match_row :: "string list \<Rightarrow> bool list \<Rightarrow> pattern_segment \<Rightarrow> bool list" where
  "match_row route previous segment =
     (case segment of
        DoubleStar \<Rightarrow> double_star_row False previous
      | Star \<Rightarrow> False # take (length route) previous
      | Literal l \<Rightarrow> False # map2 (\<lambda>p seg. p \<and> l = seg) previous route)"

definition match_segments :: "pattern_segment list \<Rightarrow> string list \<Rightarrow> bool" where
  "match_segments patterns route =
     foldl (match_row route) (True # replicate (length route) False) patterns ! length route"

definition matches_str :: "pattern \<Rightarrow> string \<Rightarrow> bool" where
  "matches_str p route =
     (let (route_scheme, route_segments) = split_route route in
      case pat_scheme p of
        Some scheme \<Rightarrow>
          if route_scheme \<noteq> Some scheme then False else match_segments (pat_segments p) route_segments
      | None \<Rightarrow> match_segments (pat_segments p) route_segments)"

subsection \<open>Coverage\<close>

definition MAX_PATTERN_COVERAGE_STATES :: nat where
  "MAX_PATTERN_COVERAGE_STATES = 16384"

text \<open>A set of pattern positions, bit \<open>i\<close> for position \<open>i\<close>. \<open>has\<close> is \<^verbatim>\<open>states & (1 << i) != 0\<close>.\<close>

type_synonym states = u128

definition one_at :: "nat \<Rightarrow> states" where
  "one_at i = push_bit i 1"

definition has :: "states \<Rightarrow> nat \<Rightarrow> bool" where
  "has s i \<longleftrightarrow> s AND one_at i \<noteq> 0"

fun epsilon_loop :: "nat \<Rightarrow> pattern_segment list \<Rightarrow> states \<Rightarrow> states" where
  "epsilon_loop index [] s = s"
| "epsilon_loop index (segment # rest) s =
     epsilon_loop (index + 1) rest
       (if has s index \<and> segment = DoubleStar then s OR one_at (index + 1) else s)"

definition epsilon_closure :: "pattern_segment list \<Rightarrow> states \<Rightarrow> states" where
  "epsilon_closure p s = epsilon_loop 0 p s"

fun transition_loop :: "states \<Rightarrow> string option \<Rightarrow> nat \<Rightarrow> pattern_segment list \<Rightarrow> states \<Rightarrow> states" where
  "transition_loop s symbol index [] next_s = next_s"
| "transition_loop s symbol index (segment # rest) next_s =
     transition_loop s symbol (index + 1) rest
       (if \<not> has s index then next_s
        else case segment of
               Literal l \<Rightarrow> if symbol = Some l then next_s OR one_at (index + 1) else next_s
             | Star \<Rightarrow> next_s OR one_at (index + 1)
             | DoubleStar \<Rightarrow> next_s OR one_at index)"

definition transition :: "pattern_segment list \<Rightarrow> states \<Rightarrow> string option \<Rightarrow> states" where
  "transition p s symbol = epsilon_closure p (transition_loop s symbol 0 p 0)"

definition accepts :: "states \<Rightarrow> nat \<Rightarrow> bool" where
  "accepts s pattern_len = has s pattern_len"

text \<open>The symbols to try: \<^verbatim>\<open>None\<close>, for any segment that is no literal of either pattern, and
  every literal once.\<close>

fun push_symbols :: "pattern_segment list \<Rightarrow> string option list \<Rightarrow> string option list" where
  "push_symbols [] symbols = symbols"
| "push_symbols (segment # rest) symbols =
     push_symbols rest
       (case segment of
          Literal l \<Rightarrow> if Some l \<in> set symbols then symbols else symbols @ [Some l]
        | _ \<Rightarrow> symbols)"

definition pattern_symbols :: "pattern_segment list \<Rightarrow> pattern_segment list \<Rightarrow> string option list" where
  "pattern_symbols requested allowed = push_symbols (requested @ allowed) [None]"

type_synonym product = "states \<times> states"

text \<open>The loop over the symbols: the successors of one product state are appended to
  \<open>pending\<close> when they are new; \<open>None\<close> is the early \<^verbatim>\<open>return false\<close> at the budget.\<close>

fun expand :: "pattern_segment list \<Rightarrow> pattern_segment list \<Rightarrow> product \<Rightarrow> string option list
    \<Rightarrow> product list \<Rightarrow> product list \<Rightarrow> (product list \<times> product list) option" where
  "expand requested allowed st [] visited pending = Some (visited, pending)"
| "expand requested allowed st (symbol # symbols) visited pending =
     (let next_requested = transition requested (fst st) symbol in
      if next_requested = 0 then expand requested allowed st symbols visited pending
      else
        let succ = (next_requested, transition allowed (snd st) symbol) in
        if succ \<in> set visited then expand requested allowed st symbols visited pending
        else if length (visited @ [succ]) > MAX_PATTERN_COVERAGE_STATES then None
        else expand requested allowed st symbols (visited @ [succ]) (pending @ [succ]))"

lemma expand_length:
  "expand r a st symbols visited pending = Some (visited', pending') \<Longrightarrow>
     length visited \<le> length visited' \<and>
     (length visited' = length visited \<or> length visited' \<le> MAX_PATTERN_COVERAGE_STATES) \<and>
     length pending' + length visited = length pending + length visited'"
proof (induction symbols arbitrary: visited pending)
  case (Cons symbol symbols)
  from Cons.prems consider "expand r a st symbols visited pending = Some (visited', pending')"
    | succ where "length visited < MAX_PATTERN_COVERAGE_STATES"
        "expand r a st symbols (visited @ [succ]) (pending @ [succ]) = Some (visited', pending')"
    by (auto simp: Let_def split: if_splits)
  then show ?case
  proof cases
    case 1
    then show ?thesis by (rule Cons.IH)
  next
    case 2
    with Cons.IH [OF 2(2)] show ?thesis by auto
  qed
qed simp

function walk :: "pattern_segment list \<Rightarrow> pattern_segment list \<Rightarrow> string option list
    \<Rightarrow> product list \<Rightarrow> product list \<Rightarrow> bool" where
  "walk requested allowed symbols visited [] = True"
| "walk requested allowed symbols visited (st # pending) =
     (if accepts (fst st) (length requested) \<and> \<not> accepts (snd st) (length allowed) then False
      else case expand requested allowed st symbols visited pending of
             None \<Rightarrow> False
           | Some (visited, pending) \<Rightarrow> walk requested allowed symbols visited pending)"
  by pat_completeness auto
termination
  by (relation "measure (\<lambda>(r, a, syms, visited, pending).
        2 * (MAX_PATTERN_COVERAGE_STATES - length visited) + length pending)")
    (auto dest!: expand_length)

definition pattern_language_is_subset :: "pattern_segment list \<Rightarrow> pattern_segment list \<Rightarrow> bool" where
  "pattern_language_is_subset requested allowed =
     (if length requested \<ge> 128 \<or> length allowed \<ge> 128 then False
      else
        let start = (epsilon_closure requested 1, epsilon_closure allowed 1)
        in walk requested allowed (pattern_symbols requested allowed) [start] [start])"

definition covers :: "pattern \<Rightarrow> pattern \<Rightarrow> bool" where
  "covers p requested =
     (case (pat_scheme p, pat_scheme requested) of
        (Some allowed, Some req) \<Rightarrow>
          if allowed \<noteq> req then False
          else pattern_language_is_subset (pat_segments requested) (pat_segments p)
      | (Some _, None) \<Rightarrow> False
      | (None, _) \<Rightarrow> pattern_language_is_subset (pat_segments requested) (pat_segments p))"

fun frontier_symbols :: "pattern_segment list \<Rightarrow> pattern_segment list \<Rightarrow> product \<Rightarrow> string option list
    \<Rightarrow> product list \<Rightarrow> product list option" where
  "frontier_symbols requested allowed st [] next_frontier = Some next_frontier"
| "frontier_symbols requested allowed st (symbol # symbols) next_frontier =
     (let next_requested = transition requested (fst st) symbol in
      if next_requested = 0 then frontier_symbols requested allowed st symbols next_frontier
      else
        let next_frontier = List.insert (next_requested, transition allowed (snd st) symbol) next_frontier
        in if length next_frontier > MAX_PATTERN_COVERAGE_STATES then None
           else frontier_symbols requested allowed st symbols next_frontier)"

fun next_frontier :: "pattern_segment list \<Rightarrow> pattern_segment list \<Rightarrow> string option list
    \<Rightarrow> product list \<Rightarrow> product list \<Rightarrow> product list option" where
  "next_frontier requested allowed symbols [] acc = Some acc"
| "next_frontier requested allowed symbols (st # frontier) acc =
     (case frontier_symbols requested allowed st symbols acc of
        None \<Rightarrow> None
      | Some acc \<Rightarrow> next_frontier requested allowed symbols frontier acc)"

text \<open>\<open>Inl\<close> is an early \<^verbatim>\<open>return\<close> of the loop over the depth.\<close>

fun depth_loop :: "pattern_segment list \<Rightarrow> pattern_segment list \<Rightarrow> string option list
    \<Rightarrow> nat \<Rightarrow> product list \<Rightarrow> bool + product list" where
  "depth_loop requested allowed symbols 0 frontier = Inr frontier"
| "depth_loop requested allowed symbols (Suc depth) frontier =
     (case next_frontier requested allowed symbols frontier [] of
        None \<Rightarrow> Inl False
      | Some [] \<Rightarrow> Inl True
      | Some frontier \<Rightarrow> depth_loop requested allowed symbols depth frontier)"

definition pattern_language_is_subset_at_depth ::
  "pattern_segment list \<Rightarrow> pattern_segment list \<Rightarrow> nat \<Rightarrow> bool" where
  "pattern_language_is_subset_at_depth requested allowed depth =
     (if length requested \<ge> 128 \<or> length allowed \<ge> 128 then False
      else
        case depth_loop requested allowed (pattern_symbols requested allowed) depth
               [(epsilon_closure requested 1, epsilon_closure allowed 1)] of
          Inl b \<Rightarrow> b
        | Inr frontier \<Rightarrow>
            list_all (\<lambda>st. \<not> accepts (fst st) (length requested) \<or> accepts (snd st) (length allowed)) frontier)"

definition covers_at_fixed_depth :: "pattern \<Rightarrow> pattern \<Rightarrow> nat \<Rightarrow> bool" where
  "covers_at_fixed_depth p requested depth =
     (case (pat_scheme p, pat_scheme requested) of
        (Some allowed, Some req) \<Rightarrow>
          if allowed \<noteq> req then False
          else pattern_language_is_subset_at_depth (pat_segments requested) (pat_segments p) depth
      | (Some _, None) \<Rightarrow> False
      | (None, _) \<Rightarrow> pattern_language_is_subset_at_depth (pat_segments requested) (pat_segments p) depth)"

subsection \<open>Registrations below a resource\<close>

fun advance_loop :: "nat \<Rightarrow> pattern_segment list \<Rightarrow> bool list \<Rightarrow> bool list" where
  "advance_loop index [] st = st"
| "advance_loop index (segment # rest) st =
     advance_loop (index + 1) rest
       (if st ! index \<and> segment = DoubleStar then st[index + 1 := True] else st)"

definition advance_empty_segments :: "pattern_segment list \<Rightarrow> bool list \<Rightarrow> bool list" where
  "advance_empty_segments segments st = advance_loop 0 segments st"

fun component_loop :: "bool list \<Rightarrow> string \<Rightarrow> nat \<Rightarrow> pattern_segment list \<Rightarrow> bool list \<Rightarrow> bool list" where
  "component_loop st component index [] next_st = next_st"
| "component_loop st component index (segment # rest) next_st =
     component_loop st component (index + 1) rest
       (if \<not> st ! index then next_st
        else case segment of
               Literal l \<Rightarrow> if l = component then next_st[index + 1 := True] else next_st
             | Star \<Rightarrow> next_st[index + 1 := True]
             | DoubleStar \<Rightarrow> next_st[index := True])"

definition component_step :: "pattern_segment list \<Rightarrow> bool list \<Rightarrow> string \<Rightarrow> bool list" where
  "component_step segments st component =
     advance_empty_segments segments
       (component_loop st component 0 segments (replicate (length st) False))"

text \<open>The loop over the positions from the last one down, with the depth and the bytes of the
  shortest suffix that completes the pattern from there.\<close>

fun suffix_loop :: "pattern_segment list \<Rightarrow> bool list \<Rightarrow> nat \<Rightarrow> nat \<Rightarrow> nat \<Rightarrow> nat \<Rightarrow> nat list \<Rightarrow> bool" where
  "suffix_loop segments st max_depth max_bytes depth bytes [] = False"
| "suffix_loop segments st max_depth max_bytes depth bytes (index # indices) =
     (let counted = index < length segments \<and> segments ! index \<noteq> DoubleStar;
          depth = (if counted then depth + 1 else depth);
          bytes = (if counted then
                     bytes + 1 + (case segments ! index of Literal l \<Rightarrow> length l | Star \<Rightarrow> 1 | DoubleStar \<Rightarrow> 0)
                   else bytes)
      in if st ! index \<and> depth \<le> max_depth \<and> bytes \<le> max_bytes then True
         else suffix_loop segments st max_depth max_bytes depth bytes indices)"

definition matches_registration_prefix :: "string \<Rightarrow> string list \<Rightarrow> bool" where
  "matches_registration_prefix route components =
     (case split_once ''://'' route of
        None \<Rightarrow> False
      | Some (scheme, _) \<Rightarrow>
          let segments = pat_segments (pattern_new route);
              st = (replicate (length segments + 1) False)[0 := True];
              st = advance_empty_segments segments st;
              st = foldl (component_step segments) st components
          in if length components > MAX_ROUTE_SEGMENTS then False
             else
               let max_suffix_depth = MAX_ROUTE_SEGMENTS - length components;
                   prefix_bytes = length scheme + 3 + sum_list (map length components) + (length components - 1)
               in if prefix_bytes > MAX_ROUTE_BYTES then False
                  else suffix_loop segments st max_suffix_depth (MAX_ROUTE_BYTES - prefix_bytes) 0 0
                         (rev [0..<length st]))"

definition matches_resource_registration :: "string \<Rightarrow> string \<Rightarrow> string \<Rightarrow> string \<Rightarrow> bool" where
  "matches_resource_registration route rlm ar res = matches_registration_prefix route [rlm, ar, res]"

section \<open>What a pattern means\<close>

fun pmatch :: "pattern_segment list \<Rightarrow> string list \<Rightarrow> bool" where
  "pmatch [] route = (route = [])"
| "pmatch (Literal l # ps) route = (case route of [] \<Rightarrow> False | s # rest \<Rightarrow> l = s \<and> pmatch ps rest)"
| "pmatch (Star # ps) route = (case route of [] \<Rightarrow> False | s # rest \<Rightarrow> pmatch ps rest)"
| "pmatch (DoubleStar # ps) route =
     (pmatch ps route \<or> (case route of [] \<Rightarrow> False | s # rest \<Rightarrow> pmatch (DoubleStar # ps) rest))"

lemma ex_split_Nil: "(\<exists>s t. [] = s @ t \<and> P s \<and> Q t) \<longleftrightarrow> P [] \<and> Q []"
  by simp

lemma ex_split_Cons:
  "(\<exists>s t. x # r = s @ t \<and> P s \<and> Q t) \<longleftrightarrow> P [] \<and> Q (x # r) \<or> (\<exists>s t. r = s @ t \<and> P (x # s) \<and> Q t)"
  unfolding Cons_eq_append_conv by blast

lemma ex_split_snoc:
  "(\<exists>s t. v @ [x] = s @ t \<and> P s \<and> Q t) \<longleftrightarrow> P (v @ [x]) \<and> Q [] \<or> (\<exists>s t. v = s @ t \<and> P s \<and> Q (t @ [x]))"
proof -
  have "(\<exists>s t. v @ [x] = s @ t \<and> P s \<and> Q t) \<longleftrightarrow>
      P (v @ [x]) \<and> Q [] \<or> (\<exists>s t y. v @ [x] = s @ t @ [y] \<and> P s \<and> Q (t @ [y]))"
    by (metis append_Nil2 rev_exhaust)
  also have "\<dots> \<longleftrightarrow> P (v @ [x]) \<and> Q [] \<or> (\<exists>s t. v = s @ t \<and> P s \<and> Q (t @ [x]))"
    by (metis append_assoc butlast_snoc last_snoc)
  finally show ?thesis .
qed

lemma pmatch_append:
  "pmatch (ps @ qs) v \<longleftrightarrow> (\<exists>s t. v = s @ t \<and> pmatch ps s \<and> pmatch qs t)"
proof (induction ps v rule: pmatch.induct)
  case (1 route)
  then show ?case by simp
next
  case (2 l ps route)
  then show ?case by (cases route) (simp_all only: append_Cons pmatch.simps list.case ex_split_Nil ex_split_Cons, auto)
next
  case (3 ps route)
  then show ?case by (cases route) (simp_all only: append_Cons pmatch.simps list.case ex_split_Nil ex_split_Cons, auto)
next
  case (4 ps route)
  show ?case
  proof (cases route)
    case Nil
    with 4 show ?thesis by simp
  next
    case (Cons x rest)
    with 4 have "pmatch ((DoubleStar # ps) @ qs) route \<longleftrightarrow>
        (\<exists>s t. x # rest = s @ t \<and> pmatch ps s \<and> pmatch qs t) \<or>
        (\<exists>s t. rest = s @ t \<and> pmatch (DoubleStar # ps) s \<and> pmatch qs t)" by simp
    also have "\<dots> \<longleftrightarrow> (\<exists>s t. x # rest = s @ t \<and> pmatch (DoubleStar # ps) s \<and> pmatch qs t)"
      unfolding ex_split_Cons by auto
    finally show ?thesis using Cons by simp
  qed
qed

lemma pmatch_single_snoc:
  "pmatch [Literal l] (t @ [x]) \<longleftrightarrow> t = [] \<and> l = x"
  "pmatch [Star] (t @ [x]) \<longleftrightarrow> t = []"
  by (cases t; simp)+

lemma pmatch_double_star: "pmatch [DoubleStar] t"
  by (induction t) auto

lemma pmatch_snoc:
  "pmatch (ps @ [Literal l]) (v @ [x]) \<longleftrightarrow> pmatch ps v \<and> l = x"
  "pmatch (ps @ [Star]) (v @ [x]) \<longleftrightarrow> pmatch ps v"
  "pmatch (ps @ [DoubleStar]) (v @ [x]) \<longleftrightarrow> pmatch (ps @ [DoubleStar]) v \<or> pmatch ps (v @ [x])"
  "pmatch (ps @ [Literal l]) [] \<longleftrightarrow> False"
  "pmatch (ps @ [Star]) [] \<longleftrightarrow> False"
  "pmatch (ps @ [DoubleStar]) [] \<longleftrightarrow> pmatch ps []"
  unfolding pmatch_append ex_split_snoc pmatch_single_snoc ex_split_Nil
  by (auto simp: pmatch_double_star simp del: pmatch.simps(4))

section \<open>The matcher\<close>

lemma length_double_star_row [simp]: "length (double_star_row b xs) = length xs"
  by (induction xs arbitrary: b) auto

lemma double_star_row_nth:
  "i < length xs \<Longrightarrow> double_star_row b xs ! i \<longleftrightarrow> b \<or> (\<exists>k \<le> i. xs ! k)"
proof (induction xs arbitrary: b i)
  case (Cons x xs)
  then show ?case
    by (cases i) (auto simp: less_Suc_eq_le, metis Suc_le_mono nth_Cons_Suc zero_le nth_Cons_0 not0_implies_Suc)
qed simp

text \<open>Row by row, the table says which prefixes of the route the pattern so far matches.\<close>

definition match_table :: "pattern_segment list \<Rightarrow> string list \<Rightarrow> bool list" where
  "match_table ps route = map (\<lambda>i. pmatch ps (take i route)) [0..<length route + 1]"

lemma pmatch_prefix_double_star:
  "i \<le> length route \<Longrightarrow> pmatch (ps @ [DoubleStar]) (take i route) \<longleftrightarrow> (\<exists>k \<le> i. pmatch ps (take k route))"
proof (induction i)
  case 0
  then show ?case by (simp add: pmatch_snoc)
next
  case (Suc i)
  then show ?case by (auto simp: take_Suc_conv_app_nth pmatch_snoc le_Suc_eq)
qed

lemma length_match_table [simp]: "length (match_table ps route) = Suc (length route)"
  by (simp add: match_table_def)

lemma match_table_nth [simp]: "i \<le> length route \<Longrightarrow> match_table ps route ! i = pmatch ps (take i route)"
  by (simp add: match_table_def del: upt_Suc)

lemma match_row_nth:
  assumes "i \<le> length route"
  shows "match_row route (match_table ps route) seg ! i = pmatch (ps @ [seg]) (take i route)"
proof (cases seg)
  case DoubleStar
  with assms show ?thesis
    by (auto simp: match_row_def double_star_row_nth pmatch_prefix_double_star)
next
  case Star
  with assms show ?thesis
    by (cases i) (simp_all add: match_row_def take_Suc_conv_app_nth pmatch_snoc)
next
  case (Literal l)
  with assms show ?thesis
    by (cases i) (simp_all add: match_row_def take_Suc_conv_app_nth pmatch_snoc)
qed

lemma match_row_table: "match_row route (match_table ps route) seg = match_table (ps @ [seg]) route"
proof -
  have "length (match_row route (match_table ps route) seg) = Suc (length route)"
    by (cases seg) (simp_all add: match_row_def)
  then show ?thesis by (intro nth_equalityI) (simp_all add: match_row_nth)
qed

lemma match_table_fold: "foldl (match_row route) (match_table [] route) ps = match_table ps route"
  by (induction ps rule: rev_induct) (simp_all add: match_row_table)

lemma match_segments_pmatch: "match_segments ps route \<longleftrightarrow> pmatch ps route"
proof -
  have "match_table [] route = True # replicate (length route) False"
    by (rule nth_equalityI) (auto simp: nth_Cons')
  with match_table_fold [of route ps] show ?thesis
    by (simp add: match_segments_def)
qed

section \<open>Position sets\<close>

text \<open>
  Both the coverage test and the resource test run a pattern as a set of positions. One step is a
  raw step followed by a closure over \<^verbatim>\<open>**\<close>, here as functions on sets of positions given by
  their membership.
\<close>

fun seg_step :: "pattern_segment \<Rightarrow> string \<Rightarrow> bool" where
  "seg_step (Literal l) x = (l = x)"
| "seg_step Star x = True"
| "seg_step DoubleStar x = False"

definition raw_step :: "pattern_segment list \<Rightarrow> (nat \<Rightarrow> bool) \<Rightarrow> string \<Rightarrow> nat \<Rightarrow> bool" where
  "raw_step p m x j \<longleftrightarrow> (0 < j \<and> m (j - 1) \<and> seg_step (p ! (j - 1)) x) \<or>
     (j < length p \<and> m j \<and> p ! j = DoubleStar)"

fun close :: "pattern_segment list \<Rightarrow> (nat \<Rightarrow> bool) \<Rightarrow> nat \<Rightarrow> bool" where
  "close p m 0 = m 0"
| "close p m (Suc i) = (m (Suc i) \<or> close p m i \<and> p ! i = DoubleStar)"

text \<open>Position \<open>i\<close> is live after the segments \<open>w\<close>: what is before it, with the \<^verbatim>\<open>**\<close> at it if
  there is one, matches \<open>w\<close>.\<close>

definition live :: "pattern_segment list \<Rightarrow> string list \<Rightarrow> nat \<Rightarrow> bool" where
  "live p w i = pmatch (take (if i < length p \<and> p ! i = DoubleStar then Suc i else i) p) w"

lemma close_cong: "(\<And>j. j \<le> i \<Longrightarrow> m j = m' j) \<Longrightarrow> close p m i = close p m' i"
  by (induction i) auto

lemma pmatch_take_Suc:
  assumes "i < length p"
  shows "pmatch (take (Suc i) p) (w @ [x]) \<longleftrightarrow>
    (pmatch (take i p) w \<and> seg_step (p ! i) x) \<or>
    (p ! i = DoubleStar \<and> (pmatch (take (Suc i) p) w \<or> pmatch (take i p) (w @ [x])))"
  using assms by (cases "p ! i") (simp_all add: take_Suc_conv_app_nth pmatch_snoc)

lemma live_end [simp]: "live p w (length p) = pmatch p w"
  by (simp add: live_def)

lemma live_Nil_iff: "i \<le> length p \<Longrightarrow> live p [] i = pmatch (take i p) []"
  by (auto simp: live_def take_Suc_conv_app_nth pmatch_snoc)

lemma live_Nil: "i \<le> length p \<Longrightarrow> close p (\<lambda>j. j = 0) i = live p [] i"
proof (induction i)
  case 0
  then show ?case by (simp add: live_Nil_iff)
next
  case (Suc i)
  then have "pmatch (take (Suc i) p) [] \<longleftrightarrow> p ! i = DoubleStar \<and> pmatch (take i p) []"
    by (cases "p ! i") (simp_all add: take_Suc_conv_app_nth pmatch_snoc)
  with Suc show ?case by (auto simp: live_Nil_iff)
qed

lemma live_snoc: "i \<le> length p \<Longrightarrow> close p (raw_step p (live p w) x) i = live p (w @ [x]) i"
proof (induction i)
  case 0
  then show ?case
    by (auto simp: raw_step_def live_def take_Suc_conv_app_nth pmatch_double_star simp del: pmatch.simps(4))
next
  case (Suc i)
  have IH: "close p (raw_step p (live p w) x) i = live p (w @ [x]) i" using Suc by simp
  have at: "live p w i = pmatch (take i p) w" if "seg_step (p ! i) x"
    using that by (cases "p ! i") (auto simp: live_def)
  have "raw_step p (live p w) x (Suc i) \<longleftrightarrow> pmatch (take i p) w \<and> seg_step (p ! i) x \<or>
      Suc i < length p \<and> p ! Suc i = DoubleStar \<and> pmatch (take (Suc (Suc i)) p) w"
    using at by (auto simp: raw_step_def live_def)
  moreover have "live p (w @ [x]) i \<and> p ! i = DoubleStar \<longleftrightarrow>
      p ! i = DoubleStar \<and> (pmatch (take (Suc i) p) w \<or> pmatch (take i p) (w @ [x]))"
    using Suc.prems pmatch_take_Suc [of i p w x] by (auto simp: live_def)
  moreover have "live p (w @ [x]) (Suc i) \<longleftrightarrow> pmatch (take (Suc i) p) (w @ [x]) \<or>
      Suc i < length p \<and> p ! Suc i = DoubleStar \<and> pmatch (take (Suc (Suc i)) p) w"
    using pmatch_take_Suc [of "Suc i" p w x] by (auto simp: live_def)
  ultimately show ?case
    using IH pmatch_take_Suc [of i p w x] Suc.prems by auto
qed

text \<open>
  The interface: a representation of position sets with a membership test, a start set and a step,
  which meet these two functions on the positions of the pattern.
\<close>

locale position_automaton =
  fixes mem :: "'s \<Rightarrow> nat \<Rightarrow> bool"
    and good :: "pattern_segment list \<Rightarrow> 's \<Rightarrow> bool"
    and init :: "pattern_segment list \<Rightarrow> 's"
    and step :: "pattern_segment list \<Rightarrow> 's \<Rightarrow> string \<Rightarrow> 's"
    and ok :: "pattern_segment list \<Rightarrow> bool"
  assumes good_init: "ok p \<Longrightarrow> good p (init p)"
    and good_step: "ok p \<Longrightarrow> good p s \<Longrightarrow> good p (step p s x)"
    and mem_init: "ok p \<Longrightarrow> i \<le> length p \<Longrightarrow> mem (init p) i = close p (\<lambda>j. j = 0) i"
    and mem_step: "ok p \<Longrightarrow> good p s \<Longrightarrow> i \<le> length p \<Longrightarrow>
      mem (step p s x) i = close p (raw_step p (mem s) x) i"
begin

lemma good_run: "ok p \<Longrightarrow> good p (foldl (step p) (init p) w)"
  by (induction w rule: rev_induct) (simp_all add: good_init good_step)

lemma mem_run: "ok p \<Longrightarrow> i \<le> length p \<Longrightarrow> mem (foldl (step p) (init p) w) i = live p w i"
proof (induction w arbitrary: i rule: rev_induct)
  case Nil
  then show ?case by (simp add: mem_init live_Nil)
next
  case (snoc x w)
  have "close p (raw_step p (mem (foldl (step p) (init p) w)) x) i = close p (raw_step p (live p w) x) i"
    using snoc by (intro close_cong) (auto simp: raw_step_def)
  with snoc.prems show ?case by (simp add: mem_step good_run live_snoc)
qed

lemma run_accepts: "ok p \<Longrightarrow> mem (foldl (step p) (init p) w) (length p) = pmatch p w"
  by (simp add: mem_run)

end

section \<open>Position sets as words\<close>

lemma has_bit: "has s i = bit s i"
  by (simp add: has_def one_at_def push_bit_of_1 and_exp_eq_0_iff_not_bit)

lemma has_or_one [simp]: "i < 128 \<Longrightarrow> has (s OR one_at i) j \<longleftrightarrow> has s j \<or> j = i"
  by (auto simp: has_bit one_at_def push_bit_of_1 bit_or_iff bit_exp_iff)

lemma has_zero [simp]: "\<not> has 0 i"
  by (simp add: has_bit)

lemma has_one [simp]: "has 1 i \<longleftrightarrow> i = 0"
  by (simp add: has_bit bit_1_iff)

lemma epsilon_loop_below:
  "index + length rest < 128 \<Longrightarrow> i \<le> index \<Longrightarrow> has (epsilon_loop index rest s) i = has s i"
  by (induction index rest s rule: epsilon_loop.induct) simp_all

lemma epsilon_loop_Suc:
  "index + length rest < 128 \<Longrightarrow> index \<le> i \<Longrightarrow> i < index + length rest \<Longrightarrow>
   has (epsilon_loop index rest s) (Suc i) \<longleftrightarrow>
     has s (Suc i) \<or> has (epsilon_loop index rest s) i \<and> rest ! (i - index) = DoubleStar"
proof (induction index rest s rule: epsilon_loop.induct)
  case (2 index segment rest s)
  show ?case
  proof (cases "i = index")
    case True
    with 2 show ?thesis by (auto simp: epsilon_loop_below)
  next
    case False
    with 2 have "i - index = Suc (i - Suc index)" by simp
    with 2 False show ?thesis by auto
  qed
qed simp

lemma has_epsilon_closure:
  "length p < 128 \<Longrightarrow> i \<le> length p \<Longrightarrow> has (epsilon_closure p s) i = close p (has s) i"
  by (induction i) (simp_all add: epsilon_closure_def epsilon_loop_below epsilon_loop_Suc)

fun symbol_step :: "pattern_segment \<Rightarrow> string option \<Rightarrow> bool" where
  "symbol_step (Literal l) symbol = (symbol = Some l)"
| "symbol_step Star symbol = True"
| "symbol_step DoubleStar symbol = False"

lemma has_transition_loop:
  "index + length rest < 128 \<Longrightarrow>
   has (transition_loop s symbol index rest n) j \<longleftrightarrow> has n j \<or>
     (\<exists>k < length rest. has s (index + k) \<and>
        (j = Suc (index + k) \<and> symbol_step (rest ! k) symbol \<or> j = index + k \<and> rest ! k = DoubleStar))"
proof (induction s symbol index rest n rule: transition_loop.induct)
  case (2 s symbol index segment rest n)
  let ?Q = "\<lambda>seg i. has s i \<and> (j = Suc i \<and> symbol_step seg symbol \<or> j = i \<and> seg = DoubleStar)"
  let ?n = "if \<not> has s index then n
     else case segment of
            Literal l \<Rightarrow> if symbol = Some l then n OR one_at (index + 1) else n
          | Star \<Rightarrow> n OR one_at (index + 1)
          | DoubleStar \<Rightarrow> n OR one_at index"
  have "index + 1 < 128" "index < 128" using "2.prems" by simp_all
  then have "has ?n j \<longleftrightarrow> has n j \<or> ?Q segment index"
    by (cases segment) auto
  moreover have "has (transition_loop s symbol (index + 1) rest ?n) j \<longleftrightarrow>
      has ?n j \<or> (\<exists>k < length rest. ?Q (rest ! k) (index + 1 + k))"
    using "2.prems" by (intro "2.IH") simp
  moreover have "(\<exists>k < length (segment # rest). ?Q ((segment # rest) ! k) (index + k)) \<longleftrightarrow>
      ?Q segment index \<or> (\<exists>k < length rest. ?Q (rest ! k) (index + 1 + k))"
    unfolding length_Cons Ex_less_Suc2 by simp
  ultimately show ?case unfolding transition_loop.simps by blast
qed simp

lemma has_transition:
  assumes "length p < 128" "i \<le> length p" "\<forall>k < length p. symbol_step (p ! k) symbol = seg_step (p ! k) x"
  shows "has (transition p s symbol) i = close p (raw_step p (has s) x) i"
proof -
  have "has (transition_loop s symbol 0 p 0) j = raw_step p (has s) x j" if "j \<le> i" for j
  proof (cases j)
    case 0
    with assms show ?thesis by (auto simp: has_transition_loop raw_step_def)
  next
    case (Suc n)
    with assms that have "n < length p" by simp
    with Suc assms(1,3) show ?thesis by (auto simp: has_transition_loop raw_step_def)
  qed
  then have "close p (has (transition_loop s symbol 0 p 0)) i = close p (raw_step p (has s) x) i"
    by (intro close_cong) simp
  with assms show ?thesis by (simp add: transition_def has_epsilon_closure)
qed

text \<open>A route segment as a symbol: itself when it is one of the literals, \<^verbatim>\<open>None\<close> otherwise.\<close>

definition literals :: "pattern_segment list \<Rightarrow> string set" where
  "literals p = {l. Literal l \<in> set p}"

definition symbol_of :: "string set \<Rightarrow> string \<Rightarrow> string option" where
  "symbol_of lits x = (if x \<in> lits then Some x else None)"

lemma symbol_of_step:
  assumes "literals p \<subseteq> lits" "k < length p"
  shows "symbol_step (p ! k) (symbol_of lits x) = seg_step (p ! k) x"
proof (cases "p ! k")
  case (Literal l)
  with nth_mem [OF assms(2)] have "l \<in> literals p" by (simp add: literals_def)
  with assms(1) Literal show ?thesis by (auto simp: symbol_of_def)
qed simp_all

interpretation word_positions: position_automaton has "\<lambda>_ _. True" "\<lambda>p. epsilon_closure p 1"
  "\<lambda>p s x. transition p s (symbol_of lits x)" "\<lambda>p. length p < 128 \<and> literals p \<subseteq> lits"
  for lits
proof (unfold_locales, goal_cases)
  case (3 p i)
  then show ?case by (simp add: has_epsilon_closure close_cong [of i "has 1" "\<lambda>j. j = 0"])
next
  case (4 p s i x)
  then show ?case by (intro has_transition) (auto simp: symbol_of_step)
qed auto

text \<open>The product of the two automata after reading the segments \<open>w\<close>.\<close>

definition run :: "string set \<Rightarrow> pattern_segment list \<Rightarrow> string list \<Rightarrow> states" where
  "run lits p w = foldl (\<lambda>s x. transition p s (symbol_of lits x)) (epsilon_closure p 1) w"

lemma run_snoc: "run lits p (w @ [x]) = transition p (run lits p w) (symbol_of lits x)"
  by (simp add: run_def)

lemma accepts_run:
  "length p < 128 \<Longrightarrow> literals p \<subseteq> lits \<Longrightarrow> accepts (run lits p w) (length p) = pmatch p w"
  using word_positions.run_accepts [of p lits w] by (simp add: accepts_def run_def)

text \<open>An empty set of positions is dead: no continuation is accepted.\<close>

lemma transition_zero: "transition p 0 symbol = 0"
proof -
  have "transition_loop 0 symbol index rest n = n" for index rest n
    by (induction "0 :: states" symbol index rest n rule: transition_loop.induct) simp_all
  moreover have "epsilon_loop index rest 0 = 0" for index rest
    by (induction index rest "0 :: states" rule: epsilon_loop.induct) simp_all
  ultimately show ?thesis by (simp add: transition_def epsilon_closure_def)
qed

lemma run_zero:
  assumes "length p < 128" "literals p \<subseteq> lits" "run lits p w = 0"
  shows "\<not> pmatch p (w @ v)"
proof -
  have "run lits p (w @ v) = 0"
  proof (induction v rule: rev_induct)
    case (snoc x v)
    with run_snoc [of lits p "w @ v" x] show ?case by (simp add: transition_zero)
  qed (use assms in simp)
  with accepts_run [OF assms(1,2), of "w @ v"] show ?thesis by (simp add: accepts_def)
qed

section \<open>The product walk\<close>

lemma set_push_symbols: "set (push_symbols p symbols) = set symbols \<union> Some ` literals p"
proof (induction p symbols rule: push_symbols.induct)
  case (2 segment rest symbols)
  then show ?case by (cases segment) (auto simp: literals_def)
qed (simp add: literals_def)

definition both_literals :: "pattern_segment list \<Rightarrow> pattern_segment list \<Rightarrow> string set" where
  "both_literals r a = literals r \<union> literals a"

lemma finite_literals: "finite (literals p)"
proof -
  have "Literal ` literals p \<subseteq> set p" by (auto simp: literals_def)
  then have "finite (Literal ` literals p)" by (rule finite_subset) simp
  then show ?thesis by (rule finite_imageD) (simp add: inj_on_def)
qed

lemma literals_both: "literals r \<subseteq> both_literals r a" "literals a \<subseteq> both_literals r a"
  by (auto simp: both_literals_def)

lemma set_pattern_symbols: "set (pattern_symbols r a) = range (symbol_of (both_literals r a))"
proof -
  have "finite (both_literals r a)" by (simp add: both_literals_def finite_literals)
  then obtain x where "x \<notin> both_literals r a"
    using ex_new_if_finite [OF infinite_UNIV_listI] by blast
  then have "None \<in> range (symbol_of (both_literals r a))"
    by (auto simp: symbol_of_def intro!: rev_image_eqI [of x])
  moreover have "Some l \<in> range (symbol_of (both_literals r a))" if "l \<in> both_literals r a" for l
    using that by (auto simp: symbol_of_def intro!: rev_image_eqI [of l])
  moreover have "set (pattern_symbols r a) = {None} \<union> Some ` both_literals r a"
    by (auto simp: pattern_symbols_def set_push_symbols both_literals_def literals_def)
  ultimately show ?thesis by (auto simp: symbol_of_def split: if_splits)
qed

definition product_run :: "pattern_segment list \<Rightarrow> pattern_segment list \<Rightarrow> string list \<Rightarrow> product" where
  "product_run r a w = (run (both_literals r a) r w, run (both_literals r a) a w)"

definition successor :: "pattern_segment list \<Rightarrow> pattern_segment list \<Rightarrow> product \<Rightarrow> string option \<Rightarrow> product" where
  "successor r a st symbol = (transition r (fst st) symbol, transition a (snd st) symbol)"

lemma product_run_Nil: "product_run r a [] = (epsilon_closure r 1, epsilon_closure a 1)"
  by (simp add: product_run_def run_def)

lemma product_run_snoc:
  "product_run r a (w @ [x]) = successor r a (product_run r a w) (symbol_of (both_literals r a) x)"
  by (simp add: product_run_def successor_def run_snoc)

lemma product_run_successor:
  assumes "symbol \<in> set (pattern_symbols r a)"
  obtains x where "successor r a (product_run r a w) symbol = product_run r a (w @ [x])"
  using assms by (auto simp: set_pattern_symbols product_run_snoc)

lemma product_run_accepts:
  assumes "length r < 128" "length a < 128"
  shows "accepts (fst (product_run r a w)) (length r) = pmatch r w"
    and "accepts (snd (product_run r a w)) (length a) = pmatch a w"
  using assms literals_both [where r = r and a = a] by (auto simp: product_run_def accepts_run)

lemma product_run_dead:
  assumes "length r < 128" "fst (product_run r a w) = 0"
  shows "\<not> pmatch r (w @ v)"
  using assms literals_both(1) [of r a] by (intro run_zero) (auto simp: product_run_def)

text \<open>The loop over the symbols adds exactly the live successors that are new.\<close>

lemma expand_sound:
  "expand r a st symbols visited pending = Some (visited', pending') \<Longrightarrow>
   set visited \<subseteq> set visited' \<and> set pending \<subseteq> set pending' \<and> set visited' - set visited \<subseteq> set pending' \<and>
   (\<forall>symbol \<in> set symbols. fst (successor r a st symbol) = 0 \<or> successor r a st symbol \<in> set visited')"
proof (induction symbols arbitrary: visited pending)
  case (Cons symbol symbols)
  let ?succ = "successor r a st symbol"
  from Cons.prems consider
      "expand r a st symbols visited pending = Some (visited', pending')" "fst ?succ = 0 \<or> ?succ \<in> set visited"
    | "expand r a st symbols (visited @ [?succ]) (pending @ [?succ]) = Some (visited', pending')"
    by (auto simp: Let_def successor_def split: if_splits)
  then show ?case
  proof cases
    case 1
    with Cons.IH [OF 1(1)] show ?thesis by auto
  next
    case 2
    with Cons.IH [OF 2] show ?thesis by auto
  qed
qed simp

definition product_states :: "pattern_segment list \<Rightarrow> pattern_segment list \<Rightarrow> product set" where
  "product_states r a = range (product_run r a)"

lemma product_states_successor:
  assumes "st \<in> product_states r a" "symbol \<in> set (pattern_symbols r a)"
  shows "successor r a st symbol \<in> product_states r a"
proof -
  from assms(1) obtain w where "st = product_run r a w" by (auto simp: product_states_def)
  with product_run_successor [OF assms(2), of w] show ?thesis by (metis product_states_def rangeI)
qed

lemma expand_reachable:
  assumes "st \<in> product_states r a" "set symbols \<subseteq> set (pattern_symbols r a)"
    and "set visited \<subseteq> product_states r a" "set pending \<subseteq> product_states r a" "distinct visited"
  shows "case expand r a st symbols visited pending of
      None \<Rightarrow> MAX_PATTERN_COVERAGE_STATES < card (product_states r a)
    | Some (visited', pending') \<Rightarrow>
        set visited' \<subseteq> product_states r a \<and> set pending' \<subseteq> product_states r a \<and> distinct visited'"
  using assms
proof (induction symbols arbitrary: visited pending)
  case (Cons symbol symbols)
  let ?succ = "successor r a st symbol"
  have reach: "?succ \<in> product_states r a" using Cons.prems by (simp add: product_states_successor)
  show ?case
  proof (cases "fst ?succ = 0 \<or> ?succ \<in> set visited")
    case True
    with Cons show ?thesis by (auto simp: Let_def successor_def)
  next
    case False
    have "card (insert ?succ (set visited)) \<le> card (product_states r a)"
      using Cons.prems reach by (intro card_mono) auto
    then have "length (visited @ [?succ]) \<le> card (product_states r a)"
      using Cons.prems False by (simp add: distinct_card)
    with False reach Cons.prems Cons.IH [of "visited @ [?succ]" "pending @ [?succ]"] show ?thesis
      by (auto simp: Let_def successor_def)
  qed
qed simp

declare walk.simps [simp del]

lemma walk_Cons:
  "walk r a symbols visited (st # pending) \<longleftrightarrow>
     (accepts (fst st) (length r) \<longrightarrow> accepts (snd st) (length a)) \<and>
     (\<exists>visited' pending'. expand r a st symbols visited pending = Some (visited', pending') \<and>
        walk r a symbols visited' pending')"
  by (subst walk.simps) (simp split: option.split prod.split)

text \<open>A set of product states with nothing left to explore.\<close>

definition closed_product :: "pattern_segment list \<Rightarrow> pattern_segment list \<Rightarrow> string option list \<Rightarrow> product set \<Rightarrow> product \<Rightarrow> bool" where
  "closed_product r a symbols V st \<longleftrightarrow>
     (accepts (fst st) (length r) \<longrightarrow> accepts (snd st) (length a)) \<and>
     (\<forall>symbol \<in> set symbols. fst (successor r a st symbol) = 0 \<or> successor r a st symbol \<in> V)"

lemma closed_product_mono: "closed_product r a symbols V st \<Longrightarrow> V \<subseteq> W \<Longrightarrow> closed_product r a symbols W st"
  unfolding closed_product_def by blast

lemma walk_True:
  assumes "walk r a symbols visited pending"
    and "\<And>st. st \<in> set visited \<Longrightarrow> st \<in> set pending \<or> closed_product r a symbols (set visited) st"
  shows "\<exists>V. set visited \<subseteq> V \<and> (\<forall>st \<in> V. closed_product r a symbols V st)"
  using assms
proof (induction r a symbols visited pending rule: walk.induct)
  case (1 r a symbols visited)
  then show ?case by (intro exI [of _ "set visited"]) simp
next
  case (2 r a symbols visited st pending)
  from "2.prems"(1) obtain visited' pending' where
    acc: "accepts (fst st) (length r) \<longrightarrow> accepts (snd st) (length a)"
    and ex: "expand r a st symbols visited pending = Some (visited', pending')"
    and rec: "walk r a symbols visited' pending'"
    unfolding walk_Cons by blast
  note sound = expand_sound [OF ex]
  from sound acc have st: "closed_product r a symbols (set visited') st"
    unfolding closed_product_def by blast
  have "t \<in> set pending' \<or> closed_product r a symbols (set visited') t" if t: "t \<in> set visited'" for t
  proof (cases "t \<in> set visited")
    case True
    with "2.prems"(2) [of t] have "t = st \<or> t \<in> set pending \<or> closed_product r a symbols (set visited) t" by auto
    with st sound show ?thesis using closed_product_mono [of r a symbols "set visited" t "set visited'"] by blast
  next
    case False
    with t sound show ?thesis by blast
  qed
  from "2.IH" [OF _ ex refl rec this] acc obtain V
    where V: "set visited' \<subseteq> V" "\<forall>st \<in> V. closed_product r a symbols V st" by blast
  have "set visited \<subseteq> V" using conjunct1 [OF sound] V(1) by (rule order_trans)
  with V(2) show ?case by (intro exI [of _ V]) simp
qed

lemma closed_product_covers:
  assumes "length r < 128" "length a < 128" "\<forall>st \<in> V. closed_product r a (pattern_symbols r a) V st"
    and "product_run r a [] \<in> V" "pmatch r w"
  shows "pmatch a w"
proof -
  have "product_run r a u \<in> V" if "w = u @ v" for u v
    using that
  proof (induction u arbitrary: v rule: rev_induct)
    case Nil
    then show ?case using assms(4) by simp
  next
    case (snoc x u)
    then have "product_run r a u \<in> V" by simp
    moreover have "fst (product_run r a (u @ [x])) \<noteq> 0"
      using product_run_dead [OF assms(1), of a "u @ [x]" v] snoc.prems assms(5) by auto
    ultimately show ?case
      using assms(3) by (auto simp: closed_product_def product_run_snoc set_pattern_symbols)
  qed
  from this [of w "[]"] assms product_run_accepts [OF assms(1,2), of w] show ?thesis
    by (auto simp: closed_product_def)
qed

lemma pattern_language_is_subset_sound:
  assumes "pattern_language_is_subset r a" "pmatch r w"
  shows "pmatch a w"
proof -
  from assms(1) have len: "length r < 128" "length a < 128"
    and "walk r a (pattern_symbols r a) [product_run r a []] [product_run r a []]"
    by (auto simp: pattern_language_is_subset_def product_run_Nil Let_def split: if_splits)
  with walk_True [of r a "pattern_symbols r a" "[product_run r a []]" "[product_run r a []]"] obtain V
    where "product_run r a [] \<in> V" "\<forall>st \<in> V. closed_product r a (pattern_symbols r a) V st" by auto
  with closed_product_covers [OF len] assms(2) show ?thesis by blast
qed

lemma walk_False:
  assumes "\<not> walk r a symbols visited pending" "set symbols \<subseteq> set (pattern_symbols r a)"
    and "set visited \<subseteq> product_states r a" "set pending \<subseteq> product_states r a" "distinct visited"
    and "length r < 128" "length a < 128"
  shows "(\<exists>w. pmatch r w \<and> \<not> pmatch a w) \<or> MAX_PATTERN_COVERAGE_STATES < card (product_states r a)"
  using assms
proof (induction r a symbols visited pending rule: walk.induct)
  case (1 r a symbols visited)
  then show ?case by (simp add: walk.simps)
next
  case (2 r a symbols visited st pending)
  show ?case
  proof (cases "accepts (fst st) (length r) \<and> \<not> accepts (snd st) (length a)")
    case True
    with "2.prems" show ?thesis by (auto simp: product_states_def product_run_accepts)
  next
    case False
    have ex: "case expand r a st symbols visited pending of
        None \<Rightarrow> MAX_PATTERN_COVERAGE_STATES < card (product_states r a)
      | Some (visited', pending') \<Rightarrow>
          set visited' \<subseteq> product_states r a \<and> set pending' \<subseteq> product_states r a \<and> distinct visited'"
      using "2.prems" by (intro expand_reachable) auto
    show ?thesis
    proof (cases "expand r a st symbols visited pending")
      case None
      with ex show ?thesis by simp
    next
      case (Some res)
      then obtain visited' pending' where some: "expand r a st symbols visited pending = Some (visited', pending')"
        by (cases res) auto
      with "2.prems"(1) False have "\<not> walk r a symbols visited' pending'"
        unfolding walk_Cons by auto
      with ex some "2.IH" [OF False some refl] "2.prems" show ?thesis by auto
    qed
  qed
qed

lemma pattern_language_is_subset_complete:
  assumes "\<not> pattern_language_is_subset r a" "length r < 128" "length a < 128"
  shows "(\<exists>w. pmatch r w \<and> \<not> pmatch a w) \<or> MAX_PATTERN_COVERAGE_STATES < card (product_states r a)"
proof -
  have "\<not> walk r a (pattern_symbols r a) [product_run r a []] [product_run r a []]"
    using assms by (simp add: pattern_language_is_subset_def product_run_Nil Let_def)
  then show ?thesis by (rule walk_False) (auto simp: product_states_def assms)
qed

end
