(* ===== verification/Coverage.thy ===== *)
theory Coverage
  imports Matcher
begin

text \<open>
  The theorems about the pattern operations of \<^verbatim>\<open>src/runtime/matcher.rs\<close> defined in the
  previous theory: the coverage test at a fixed depth, the test whether a registration can match
  below a resource, and the properties of compilation, matching and coverage that authorisation and
  dispatch rely on.
\<close>

lemma pmatch_double_star_simps [simp]:
  "pmatch (DoubleStar # ps) [] = pmatch ps []"
  "pmatch (DoubleStar # ps) (x # xs) = (pmatch ps (x # xs) \<or> pmatch (DoubleStar # ps) xs)"
  by simp_all

declare pmatch.simps(4) [simp del]

section \<open>Coverage at a fixed depth\<close>

text \<open>The product states reached by routes of \<open>n\<close> segments that the requested pattern can still match.\<close>

definition level :: "pattern_segment list \<Rightarrow> pattern_segment list \<Rightarrow> nat \<Rightarrow> product set" where
  "level r a n = {st. \<exists>w. length w = n \<and> st = product_run r a w \<and> fst st \<noteq> 0}"

definition live_successors :: "pattern_segment list \<Rightarrow> pattern_segment list \<Rightarrow> string option set \<Rightarrow> product \<Rightarrow> product set" where
  "live_successors r a symbols st = {succ \<in> successor r a st ` symbols. fst succ \<noteq> 0}"

lemma level_0: "level r a 0 = {(epsilon_closure r 1, epsilon_closure a 1)}"
proof -
  have "has (epsilon_closure r 1) 0"
  proof (cases "length r < 128")
    case True
    then show ?thesis by (simp add: has_epsilon_closure)
  next
    case False
    have "has s 0 \<Longrightarrow> has (epsilon_loop index rest s) 0" for index rest s
      by (induction index rest s rule: epsilon_loop.induct) (auto simp: has_bit bit_or_iff)
    from this [of 1 0 r] show ?thesis by (simp add: epsilon_closure_def)
  qed
  then have "epsilon_closure r 1 \<noteq> 0" by auto
  then show ?thesis by (auto simp: level_def product_run_Nil)
qed

lemma level_Suc: "level r a (Suc n) = (\<Union>st \<in> level r a n. live_successors r a (set (pattern_symbols r a)) st)"
proof (intro set_eqI iffI)
  fix st
  assume "st \<in> level r a (Suc n)"
  then obtain w x where w: "length w = n" "st = product_run r a (w @ [x])" "fst st \<noteq> 0"
    by (auto simp: level_def length_Suc_conv_rev)
  moreover from w have "fst (product_run r a w) \<noteq> 0"
    by (auto simp: product_run_snoc successor_def transition_zero)
  ultimately have "product_run r a w \<in> level r a n"
    "st \<in> live_successors r a (set (pattern_symbols r a)) (product_run r a w)"
    by (auto simp: level_def live_successors_def product_run_snoc set_pattern_symbols)
  then show "st \<in> (\<Union>st \<in> level r a n. live_successors r a (set (pattern_symbols r a)) st)" by blast
next
  fix st
  assume "st \<in> (\<Union>st \<in> level r a n. live_successors r a (set (pattern_symbols r a)) st)"
  then obtain w x where "length w = n" "st = product_run r a (w @ [x])" "fst st \<noteq> 0"
    by (auto simp: level_def live_successors_def product_run_snoc set_pattern_symbols)
  then show "st \<in> level r a (Suc n)" by (auto simp: level_def intro!: exI [of _ "w @ [x]"])
qed

lemma frontier_symbols_result:
  "distinct acc \<Longrightarrow>
   case frontier_symbols r a st symbols acc of
     Some acc' \<Rightarrow> distinct acc' \<and> set acc' = set acc \<union> live_successors r a (set symbols) st
   | None \<Rightarrow> MAX_PATTERN_COVERAGE_STATES < card (set acc \<union> live_successors r a (set symbols) st)"
proof (induction symbols arbitrary: acc)
  case Nil
  then show ?case by (simp add: live_successors_def)
next
  case (Cons symbol symbols)
  let ?succ = "successor r a st symbol"
  have live: "live_successors r a (set (symbol # symbols)) st =
      (if fst ?succ = 0 then {} else {?succ}) \<union> live_successors r a (set symbols) st"
    by (auto simp: live_successors_def)
  show ?case
  proof (cases "fst ?succ = 0")
    case True
    with Cons.IH [OF Cons.prems] show ?thesis
      unfolding live by (auto simp: successor_def split: option.splits)
  next
    case False
    have "distinct (List.insert ?succ acc)" using Cons.prems by simp
    moreover have "length (List.insert ?succ acc) \<le>
        card (set acc \<union> live_successors r a (set (symbol # symbols)) st)"
      using calculation False
      by (subst distinct_card [symmetric]) (auto intro!: card_mono simp: live live_successors_def)
    ultimately show ?thesis
      using Cons.IH [of "List.insert ?succ acc"] False unfolding live
      by (auto simp: successor_def Let_def split: option.splits)
  qed
qed

lemma next_frontier_result:
  "distinct acc \<Longrightarrow>
   case next_frontier r a symbols frontier acc of
     Some acc' \<Rightarrow> distinct acc' \<and> set acc' = set acc \<union> (\<Union>st \<in> set frontier. live_successors r a (set symbols) st)
   | None \<Rightarrow> MAX_PATTERN_COVERAGE_STATES < card (set acc \<union> (\<Union>st \<in> set frontier. live_successors r a (set symbols) st))"
proof (induction frontier arbitrary: acc)
  case (Cons st frontier)
  let ?all = "set acc \<union> (\<Union>st \<in> set (st # frontier). live_successors r a (set symbols) st)"
  have mono: "MAX_PATTERN_COVERAGE_STATES < card A \<Longrightarrow> A \<subseteq> ?all \<Longrightarrow> MAX_PATTERN_COVERAGE_STATES < card ?all" for A
    by (rule less_le_trans) (auto intro!: card_mono)
  show ?case
  proof (cases "frontier_symbols r a st symbols acc")
    case None
    with frontier_symbols_result [OF Cons.prems, where r = r and a = a and st = st and symbols = symbols] show ?thesis
      using mono [of "set acc \<union> live_successors r a (set symbols) st"] by auto
  next
    case (Some acc')
    with frontier_symbols_result [OF Cons.prems, where r = r and a = a and st = st and symbols = symbols]
    have acc': "distinct acc'" "set acc' = set acc \<union> live_successors r a (set symbols) st" by auto
    from Cons.IH [OF acc'(1)] acc'(2) Some show ?thesis
      by (auto simp: Un_assoc split: option.splits)
  qed
qed simp

definition depth_outcome :: "pattern_segment list \<Rightarrow> pattern_segment list \<Rightarrow> nat \<Rightarrow> bool + product list \<Rightarrow> bool" where
  "depth_outcome r a n res \<longleftrightarrow>
     (case res of
        Inr f \<Rightarrow> set f = level r a n
      | Inl covered \<Rightarrow>
          (if covered then level r a n = {} else (\<exists>m. MAX_PATTERN_COVERAGE_STATES < card (level r a m))))"

lemma depth_loop_result:
  "set frontier = level r a n \<Longrightarrow> depth_outcome r a (n + k) (depth_loop r a (pattern_symbols r a) k frontier)"
proof (induction k arbitrary: n frontier)
  case 0
  then show ?case by (simp add: depth_outcome_def)
next
  case (Suc k)
  have next_f: "case next_frontier r a (pattern_symbols r a) frontier [] of
     Some f \<Rightarrow> set f = level r a (Suc n)
   | None \<Rightarrow> MAX_PATTERN_COVERAGE_STATES < card (level r a (Suc n))"
    using next_frontier_result [of "[]" r a "pattern_symbols r a" frontier] Suc.prems
    by (auto simp: level_Suc split: option.splits)
  have empty: "level r a m = {} \<Longrightarrow> level r a (m + j) = {}" for m j
    by (induction j) (auto simp: level_Suc)
  show ?case
  proof (cases "next_frontier r a (pattern_symbols r a) frontier []")
    case None
    with next_f show ?thesis by (auto simp: depth_outcome_def)
  next
    case (Some f)
    show ?thesis
    proof (cases f)
      case Nil
      with Some next_f empty [of "Suc n" k] show ?thesis by (simp add: depth_outcome_def)
    next
      case (Cons x xs)
      with Some next_f Suc.IH [of f "Suc n"] show ?thesis by simp
    qed
  qed
qed

lemma depth_loop_start:
  "depth_outcome r a depth
     (depth_loop r a (pattern_symbols r a) depth [(epsilon_closure r 1, epsilon_closure a 1)])"
  using depth_loop_result [of "[(epsilon_closure r 1, epsilon_closure a 1)]" r a 0 depth] by (simp add: level_0)

lemma subset_at_depth_sound:
  assumes "pattern_language_is_subset_at_depth r a depth" "length w = depth" "pmatch r w"
  shows "pmatch a w"
proof -
  have len: "length r < 128" "length a < 128"
    using assms(1) by (auto simp: pattern_language_is_subset_at_depth_def split: if_splits)
  have "fst (product_run r a w) \<noteq> 0" using product_run_dead [OF len(1), of a w "[]"] assms(3) by auto
  then have level: "product_run r a w \<in> level r a depth" using assms(2) by (auto simp: level_def)
  with depth_loop_start [of r a depth] assms(1) len
  have "\<not> accepts (fst (product_run r a w)) (length r) \<or> accepts (snd (product_run r a w)) (length a)"
    by (auto simp: depth_outcome_def pattern_language_is_subset_at_depth_def list_all_iff split: sum.splits if_splits)
  with product_run_accepts [OF len, of w] assms(3) show ?thesis by simp
qed

lemma subset_at_depth_complete:
  assumes "\<not> pattern_language_is_subset_at_depth r a depth" "length r < 128" "length a < 128"
  shows "(\<exists>w. length w = depth \<and> pmatch r w \<and> \<not> pmatch a w) \<or>
    (\<exists>m. MAX_PATTERN_COVERAGE_STATES < card (level r a m))"
proof -
  from depth_loop_start [of r a depth] assms
  consider "\<exists>m. MAX_PATTERN_COVERAGE_STATES < card (level r a m)"
    | st where "st \<in> level r a depth" "accepts (fst st) (length r)" "\<not> accepts (snd st) (length a)"
    by (fastforce simp: depth_outcome_def pattern_language_is_subset_at_depth_def list_all_iff split: sum.splits if_splits)
  then show ?thesis
  proof cases
    case 2
    then show ?thesis by (auto simp: level_def product_run_accepts assms(2,3))
  qed blast
qed

section \<open>Position sets as boolean arrays\<close>

lemma length_advance_loop [simp]: "length (advance_loop index rest st) = length st"
  by (induction index rest st rule: advance_loop.induct) simp_all

lemma advance_loop_below: "i \<le> index \<Longrightarrow> advance_loop index rest st ! i = st ! i"
  by (induction index rest st rule: advance_loop.induct) simp_all

lemma advance_loop_Suc:
  "index + length rest < length st \<Longrightarrow> index \<le> i \<Longrightarrow> i < index + length rest \<Longrightarrow>
   advance_loop index rest st ! Suc i \<longleftrightarrow>
     st ! Suc i \<or> advance_loop index rest st ! i \<and> rest ! (i - index) = DoubleStar"
proof (induction index rest st rule: advance_loop.induct)
  case (2 index segment rest st)
  show ?case
  proof (cases "i = index")
    case True
    with 2 show ?thesis by (auto simp: advance_loop_below)
  next
    case False
    with 2 have "i - index = Suc (i - Suc index)" by simp
    with 2 False show ?thesis by (auto simp: nth_list_update)
  qed
qed simp

definition array_mem :: "bool list \<Rightarrow> nat \<Rightarrow> bool" where
  "array_mem st i \<longleftrightarrow> i < length st \<and> st ! i"

lemma array_advance:
  "length st = Suc (length p) \<Longrightarrow> i \<le> length p \<Longrightarrow>
   array_mem (advance_empty_segments p st) i = close p (array_mem st) i"
  by (induction i) (simp_all add: array_mem_def advance_empty_segments_def advance_loop_below advance_loop_Suc)

lemma length_component_loop [simp]: "length (component_loop st c index rest n) = length n"
  by (induction st c index rest n rule: component_loop.induct) (auto split: pattern_segment.splits)

lemma component_loop_nth:
  assumes "index + length rest < length n" "j < length n"
  shows "component_loop st c index rest n ! j \<longleftrightarrow> n ! j \<or>
     (\<exists>k < length rest. st ! (index + k) \<and>
        (j = Suc (index + k) \<and> seg_step (rest ! k) c \<or> j = index + k \<and> rest ! k = DoubleStar))"
  using assms
proof (induction st c index rest n rule: component_loop.induct)
  case (2 st c index segment rest n)
  let ?Q = "\<lambda>seg i. st ! i \<and> (j = Suc i \<and> seg_step seg c \<or> j = i \<and> seg = DoubleStar)"
  let ?n = "if \<not> st ! index then n
     else case segment of
            Literal l \<Rightarrow> if l = c then n[index + 1 := True] else n
          | Star \<Rightarrow> n[index + 1 := True]
          | DoubleStar \<Rightarrow> n[index := True]"
  have "?n ! j \<longleftrightarrow> n ! j \<or> ?Q segment index"
    using "2.prems" by (cases segment) (auto simp: nth_list_update)
  moreover have "component_loop st c (index + 1) rest ?n ! j \<longleftrightarrow>
      ?n ! j \<or> (\<exists>k < length rest. ?Q (rest ! k) (index + 1 + k))"
    using "2.prems" by (intro "2.IH") (auto split: pattern_segment.splits)
  moreover have "(\<exists>k < length (segment # rest). ?Q ((segment # rest) ! k) (index + k)) \<longleftrightarrow>
      ?Q segment index \<or> (\<exists>k < length rest. ?Q (rest ! k) (index + 1 + k))"
    unfolding length_Cons Ex_less_Suc2 by simp
  ultimately show ?case unfolding component_loop.simps by blast
qed simp

definition array_start :: "pattern_segment list \<Rightarrow> bool list" where
  "array_start p = advance_empty_segments p ((replicate (length p + 1) False)[0 := True])"

interpretation array_positions: position_automaton array_mem "\<lambda>p st. length st = Suc (length p)"
  array_start component_step "\<lambda>_. True"
proof (unfold_locales, goal_cases)
  case (1 p)
  then show ?case by (simp add: array_start_def advance_empty_segments_def)
next
  case (2 p s x)
  then show ?case by (simp add: component_step_def advance_empty_segments_def)
next
  case (3 p i)
  have "close p (array_mem ((replicate (length p + 1) False)[0 := True])) i = close p (\<lambda>j. j = 0) i"
    using 3 by (intro close_cong) (auto simp: array_mem_def nth_Cons')
  with 3 show ?case by (simp add: array_start_def array_advance)
next
  case (4 p s i x)
  have "array_mem (component_loop s x 0 p (replicate (length s) False)) j = raw_step p (array_mem s) x j" if "j \<le> i" for j
  proof (cases j)
    case 0
    with 4 show ?thesis by (auto simp: array_mem_def component_loop_nth raw_step_def)
  next
    case (Suc n)
    with 4 that have "n < length p" by simp
    with Suc 4 show ?thesis by (auto simp: array_mem_def component_loop_nth raw_step_def)
  qed
  then have "close p (array_mem (component_loop s x 0 p (replicate (length s) False))) i =
      close p (raw_step p (array_mem s) x) i" by (intro close_cong) simp
  with 4 show ?case by (simp add: component_step_def array_advance)
qed

section \<open>Completing a prefix\<close>

text \<open>The shortest completion of a pattern: a literal by itself, a \<^verbatim>\<open>*\<close> by one character.\<close>

fun completion :: "pattern_segment list \<Rightarrow> string list" where
  "completion [] = []"
| "completion (Literal l # ps) = l # completion ps"
| "completion (Star # ps) = ''x'' # completion ps"
| "completion (DoubleStar # ps) = completion ps"

definition tail_bytes :: "string list \<Rightarrow> nat" where
  "tail_bytes segs = sum_list (map (\<lambda>s. 1 + length s) segs)"

abbreviation segment_ok :: "string \<Rightarrow> bool" where
  "segment_ok s \<equiv> s \<noteq> [] \<and> CHR ''/'' \<notin> set s"

lemma tail_bytes_simps [simp]: "tail_bytes [] = 0" "tail_bytes (s # ss) = 1 + length s + tail_bytes ss"
  by (simp_all add: tail_bytes_def)

lemma pmatch_completion: "pmatch p (completion p)"
  by (induction p rule: completion.induct) (simp_all add: pmatch.simps(4))

lemma completion_minimal:
  "pmatch p w \<Longrightarrow> list_all segment_ok w \<Longrightarrow>
   length (completion p) \<le> length w \<and> tail_bytes (completion p) \<le> tail_bytes w"
proof (induction p w rule: pmatch.induct)
  case (3 ps route)
  show ?case
  proof (cases route)
    case (Cons a list)
    with 3 have "1 \<le> length a" by (cases a) auto
    with 3 Cons show ?thesis by auto
  qed (use 3 in simp)
next
  case (4 ps route)
  show ?case
  proof (cases route)
    case (Cons a list)
    with 4 show ?thesis by auto
  qed (use 4 in simp)
qed (auto split: list.splits)

lemma completion_drop:
  "i < length p \<Longrightarrow> p ! i = DoubleStar \<Longrightarrow> completion (drop (Suc i) p) = completion (drop i p)"
  by (simp add: Cons_nth_drop_Suc [symmetric])

lemma live_split:
  "pmatch p (u @ v) \<Longrightarrow> \<exists>i \<le> length p. live p u i \<and> pmatch (drop i p) v"
proof (induction p arbitrary: u)
  case Nil
  then show ?case by (simp add: live_def)
next
  case (Cons s q)
  have live_Suc: "live (s' # q) w (Suc i) = pmatch (s' # take (if i < length q \<and> q ! i = DoubleStar then Suc i else i) q) w" for s' w i
    by (simp add: live_def)
  show ?case
  proof (cases s)
    case DoubleStar
    from Cons.prems obtain a b where ab: "u @ v = a @ b" "pmatch q b"
      using DoubleStar pmatch_append [of "[DoubleStar]" q "u @ v"] by auto
    from ab(1) consider c where "u @ c = a" "v = c @ b" | c where "u = a @ c" "b = c @ v"
      by (auto simp: append_eq_append_conv2)
    then show ?thesis
    proof cases
      case 1
      with ab have "pmatch (s # q) v"
        using DoubleStar pmatch_append [of "[DoubleStar]" q v] pmatch_double_star by auto
      then show ?thesis
        using DoubleStar pmatch_double_star [of u] by (intro exI [of _ 0]) (simp add: live_def del: pmatch.simps)
    next
      case 2
      with ab Cons.IH [of c] obtain i where i: "i \<le> length q" "live q c i" "pmatch (drop i q) v" by auto
      have "pmatch ([DoubleStar] @ take (if i < length q \<and> q ! i = DoubleStar then Suc i else i) q) u"
        unfolding pmatch_append using 2(1) pmatch_double_star [of a] i(2) unfolding live_def by blast
      then have "live (s # q) u (Suc i)" unfolding live_Suc DoubleStar by (simp del: pmatch.simps)
      with i show ?thesis by (intro exI [of _ "Suc i"]) simp
    qed
  next
    case (Literal l)
    show ?thesis
    proof (cases u)
      case Nil
      with Literal Cons.prems show ?thesis by (intro exI [of _ 0]) (simp add: live_def)
    next
      case (Cons x u')
      with Literal Cons.prems Cons.IH [of u'] obtain i where "i \<le> length q" "live q u' i" "pmatch (drop i q) v" "l = x"
        by auto
      with Literal Cons show ?thesis by (intro exI [of _ "Suc i"]) (auto simp: live_Suc live_def split: if_splits)
    qed
  next
    case Star
    show ?thesis
    proof (cases u)
      case Nil
      with Star Cons.prems show ?thesis by (intro exI [of _ 0]) (simp add: live_def)
    next
      case (Cons x u')
      with Star Cons.prems Cons.IH [of u'] obtain i where "i \<le> length q" "live q u' i" "pmatch (drop i q) v"
        by auto
      with Star Cons show ?thesis by (intro exI [of _ "Suc i"]) (auto simp: live_Suc live_def split: if_splits)
    qed
  qed
qed

lemma live_completion:
  assumes "i \<le> length p" "live p u i"
  shows "pmatch p (u @ completion (drop i p))"
proof -
  define i' where "i' = (if i < length p \<and> p ! i = DoubleStar then Suc i else i)"
  have "completion (drop i p) = completion (drop i' p)" by (simp add: i'_def completion_drop)
  moreover have "pmatch (take i' p @ drop i' p) (u @ completion (drop i' p))"
    unfolding pmatch_append using assms(2) pmatch_completion [of "drop i' p"]
    unfolding live_def i'_def [symmetric] by blast
  ultimately show ?thesis by simp
qed

lemma suffix_loop_step:
  "suffix_loop p st md mb (length (completion (drop (Suc n) p))) (tail_bytes (completion (drop (Suc n) p))) (n # rest)
   \<longleftrightarrow> (st ! n \<and> length (completion (drop n p)) \<le> md \<and> tail_bytes (completion (drop n p)) \<le> mb) \<or>
     suffix_loop p st md mb (length (completion (drop n p))) (tail_bytes (completion (drop n p))) rest"
proof (cases "n < length p")
  case True
  then have "drop n p = p ! n # drop (Suc n) p" by (simp add: Cons_nth_drop_Suc)
  with True show ?thesis by (cases "p ! n") (auto simp: Let_def add.commute add.left_commute)
next
  case False
  then show ?thesis by (simp add: Let_def)
qed

lemma suffix_loop_iff:
  "suffix_loop p st md mb (length (completion (drop (Suc n) p))) (tail_bytes (completion (drop (Suc n) p))) (rev [0..<Suc n])
   \<longleftrightarrow> (\<exists>i \<le> n. st ! i \<and> length (completion (drop i p)) \<le> md \<and> tail_bytes (completion (drop i p)) \<le> mb)"
proof (induction n)
  case 0
  then show ?case using suffix_loop_step [of p st md mb 0 "[]"] by simp
next
  case (Suc n)
  have "rev [0..<Suc (Suc n)] = Suc n # rev [0..<Suc n]" by simp
  then show ?case using Suc suffix_loop_step [of p st md mb "Suc n" "rev [0..<Suc n]"]
    by (auto simp: le_Suc_eq)
qed

lemma length_join: "length (join_with [c] ss) = sum_list (map length ss) + (length ss - 1)"
  by (induction "[c]" ss rule: join_with.induct) simp_all

lemma tail_bytes_sum: "tail_bytes ss = sum_list (map length ss) + length ss"
  by (induction ss) simp_all

text \<open>The scheme found by \<open>split_once\<close> is found again in front of any path.\<close>

lemma split_once_other:
  assumes "split_once ''://'' (a @ ''://'' @ b) = Some (a, b)"
  shows "split_once ''://'' (a @ ''://'' @ c) = Some (a, c)"
  using assms
proof (induction a)
  case Nil
  then show ?case by (simp add: strip_prefix_def)
next
  case (Cons x a)
  have neq: "strip_prefix ''://'' (x # a @ ''://'' @ b) = None"
    using Cons.prems by (auto split: option.splits)
  then have "strip_prefix ''://'' (x # a @ ''://'' @ c) = None"
    by (cases a; cases "tl a") (auto simp: strip_prefix_def split: if_splits)
  moreover have "split_once ''://'' (a @ ''://'' @ b) = Some (a, b)"
    using Cons.prems neq by (auto split: option.splits)
  ultimately show ?case using Cons.IH by simp
qed

lemma split_route_print:
  assumes "split_once ''://'' route = Some (scheme, path)" "segs \<noteq> []" "list_all segment_ok segs"
  shows "split_route (scheme @ ''://'' @ join_with ''/'' segs) = (Some scheme, segs)"
proof -
  have "split_once ''://'' (scheme @ ''://'' @ path) = Some (scheme, path)"
    using assms(1) split_once_SomeD by metis
  then have "split_scheme (scheme @ ''://'' @ join_with ''/'' segs) = Some (scheme, join_with ''/'' segs)"
    unfolding split_scheme_def by (rule split_once_other)
  moreover have "filter (\<lambda>s. s \<noteq> []) segs = segs" using assms(3) by (auto simp: filter_id_conv list_all_iff)
  ultimately show ?thesis
    using assms(2,3) split_join_on [of segs "CHR ''/''"]
    by (simp add: split_route_def collect_path_segments_fast_def list_all_iff)
qed

lemma pattern_literal_ok: "Literal l \<in> set (pat_segments (pattern_new route)) \<Longrightarrow> segment_ok l"
  by (auto simp: pattern_new_def parse_pattern_def split_route_def collect_path_segments_fast_def
      parse_segment_def Let_def split: option.splits if_splits dest: split_on_no_sep)

lemma completion_ok: "(\<And>l. Literal l \<in> set p \<Longrightarrow> segment_ok l) \<Longrightarrow> list_all segment_ok (completion p)"
  by (induction p rule: completion.induct) auto

lemma pat_scheme_new: "split_once ''://'' route = Some (scheme, path) \<Longrightarrow> pat_scheme (pattern_new route) = Some scheme"
  by (simp add: pattern_new_def parse_pattern_def split_route_def split_scheme_def)

lemma matches_str_iff:
  "matches_str p route \<longleftrightarrow>
     (pat_scheme p = None \<or> fst (split_route route) = pat_scheme p) \<and>
     pmatch (pat_segments p) (snd (split_route route))"
  by (cases "pat_scheme p") (auto simp: matches_str_def match_segments_pmatch split: prod.splits)

lemma matches_registration_prefix_iff:
  assumes "split_once ''://'' route = Some (scheme, path)" "components \<noteq> []"
  shows "matches_registration_prefix route components \<longleftrightarrow>
    (\<exists>i \<le> length (pat_segments (pattern_new route)).
       live (pat_segments (pattern_new route)) components i \<and>
       length components + length (completion (drop i (pat_segments (pattern_new route)))) \<le> MAX_ROUTE_SEGMENTS \<and>
       length scheme + 3 + sum_list (map length components) + (length components - 1)
         + tail_bytes (completion (drop i (pat_segments (pattern_new route)))) \<le> MAX_ROUTE_BYTES)"
proof -
  let ?p = "pat_segments (pattern_new route)"
  let ?st = "foldl (component_step ?p) (array_start ?p) components"
  have len: "length ?st = Suc (length ?p)" using array_positions.good_run by simp
  have mem: "?st ! i = live ?p components i" if "i \<le> length ?p" for i
    using array_positions.mem_run [of i ?p components] that len by (simp add: array_mem_def)
  have "suffix_loop ?p ?st md mb 0 0 (rev [0..<length ?st]) \<longleftrightarrow>
      (\<exists>i \<le> length ?p. live ?p components i \<and> length (completion (drop i ?p)) \<le> md \<and> tail_bytes (completion (drop i ?p)) \<le> mb)" for md mb
  proof -
    have "suffix_loop ?p ?st md mb 0 0 (rev [0..<length ?st]) \<longleftrightarrow>
        (\<exists>i \<le> length ?p. ?st ! i \<and> length (completion (drop i ?p)) \<le> md \<and> tail_bytes (completion (drop i ?p)) \<le> mb)"
      using suffix_loop_iff [of ?p ?st md mb "length ?p"] unfolding len by (simp del: upt_Suc suffix_loop.simps)
    with mem show ?thesis by blast
  qed
  then show ?thesis
    using assms(1) by (auto simp: matches_registration_prefix_def array_start_def Let_def)
qed

section \<open>Registration patterns\<close>

lemma parse_segment_double_star: "parse_segment s = DoubleStar \<longleftrightarrow> s = ''**''"
  by (auto simp: parse_segment_def)

lemma pmatch_length:
  "(\<exists>w. length w = n \<and> pmatch p w) \<longleftrightarrow>
     length (filter (\<lambda>s. s \<noteq> DoubleStar) p) \<le> n \<and>
     (DoubleStar \<in> set p \<or> length (filter (\<lambda>s. s \<noteq> DoubleStar) p) = n)"
proof (induction p arbitrary: n)
  case (Cons s p)
  have eq: "(\<exists>w. length w = n \<and> pmatch (s # p) w) \<longleftrightarrow> (\<exists>m w. n = Suc m \<and> length w = m \<and> pmatch p w)"
    if "s \<noteq> DoubleStar"
  proof
    assume "\<exists>w. length w = n \<and> pmatch (s # p) w"
    then obtain w where "length w = n" "pmatch (s # p) w" by blast
    then show "\<exists>m w. n = Suc m \<and> length w = m \<and> pmatch p w"
      using that by (cases s; cases w) auto
  next
    assume "\<exists>m w. n = Suc m \<and> length w = m \<and> pmatch p w"
    then obtain w where "n = Suc (length w)" "pmatch p w" by blast
    then show "\<exists>w. length w = n \<and> pmatch (s # p) w"
      using that by (cases s) (auto intro: exI [of _ "l # w" for l] exI [of _ "[] # w"])
  qed
  have ds: "(\<exists>w. length w = n \<and> pmatch (DoubleStar # p) w) \<longleftrightarrow> (\<exists>m \<le> n. \<exists>w. length w = m \<and> pmatch p w)"
  proof
    assume "\<exists>w. length w = n \<and> pmatch (DoubleStar # p) w"
    then obtain a b where "length (a @ b) = n" "pmatch p b"
      using pmatch_append [of "[DoubleStar]" p] by auto
    then show "\<exists>m \<le> n. \<exists>w. length w = m \<and> pmatch p w" by (intro exI [of _ "length b"]) auto
  next
    assume "\<exists>m \<le> n. \<exists>w. length w = m \<and> pmatch p w"
    then obtain w where "length w \<le> n" "pmatch p w" by blast
    then show "\<exists>w. length w = n \<and> pmatch (DoubleStar # p) w"
      using pmatch_append [of "[DoubleStar]" p "replicate (n - length w) [] @ w"] pmatch_double_star
      by (intro exI [of _ "replicate (n - length w) [] @ w"]) auto
  qed
  show ?case
  proof (cases "s = DoubleStar")
    case True
    with ds Cons.IH show ?thesis by auto
  next
    case False
    with eq [OF False] Cons.IH [of "n - 1"] show ?thesis by (cases n) auto
  qed
qed auto

lemma adjacent_map: "adjacent P (map f xs) = adjacent (\<lambda>x y. P (f x) (f y)) xs"
  by (induction "\<lambda>x y. P (f x) (f y)" xs rule: adjacent.induct) simp_all

lemma compile_Inr:
  assumes "compile_registration_pattern route expected depth = Inr p"
  obtains path where "split_once ''://'' route = Some (expected, path)" "p = pattern_new route"
    "validate_route_shape route = Inr ()" "list_all segment_ok (split_on CHR ''/'' path)"
    "list_all (\<lambda>s. CHR ''*'' \<in> set s \<longrightarrow> s = ''*'' \<or> s = ''**'') (split_on CHR ''/'' path)"
    "\<not> adjacent (\<lambda>s t. s = ''**'' \<and> t = ''**'') (split_on CHR ''/'' path)"
    "pat_segments p = map parse_segment (split_on CHR ''/'' path)"
proof -
  from assms obtain path where path: "split_once ''://'' route = Some (expected, path)" "p = pattern_new route"
    "validate_route_shape route = Inr ()" "\<not> list_ex (\<lambda>s. s = []) (split_on CHR ''/'' path)"
    "\<not> list_ex (\<lambda>s. CHR ''*'' \<in> set s \<and> \<not> (s = ''*'' \<or> s = ''**'')) (split_on CHR ''/'' path)"
    "\<not> adjacent (\<lambda>s t. s = ''**'' \<and> t = ''**'') (split_on CHR ''/'' path)"
    by (auto simp: compile_registration_pattern_def Let_def split: sum.splits option.splits if_splits prod.splits)
  from path(4) have "filter (\<lambda>s. s \<noteq> []) (split_on CHR ''/'' path) = split_on CHR ''/'' path"
    by (auto simp: filter_id_conv list_ex_iff)
  with path have "pat_segments p = map parse_segment (split_on CHR ''/'' path)"
    by (simp add: pattern_new_def parse_pattern_def split_route_def split_scheme_def collect_path_segments_fast_def)
  with path that [of path] show thesis
    by (auto simp: list_all_iff list_ex_iff split_on_no_sep)
qed

lemma compile_depth:
  assumes "compile_registration_pattern route expected Flexible = Inr p"
  shows "compile_registration_pattern route expected (CanMatch n) =
    (if \<exists>w. length w = n \<and> pmatch (pat_segments p) w then Inr p else Inl (CannotMatchDepth n))"
proof -
  from compile_Inr [OF assms] obtain path where path: "split_once ''://'' route = Some (expected, path)"
    and segs: "pat_segments p = map parse_segment (split_on CHR ''/'' path)" by metis
  have "length (filter (\<lambda>s. s \<noteq> DoubleStar) (pat_segments p)) = length (filter (\<lambda>s. s \<noteq> ''**'') (split_on CHR ''/'' path))"
    unfolding segs by (simp add: filter_map comp_def parse_segment_double_star)
  moreover have "DoubleStar \<in> set (pat_segments p) \<longleftrightarrow> ''**'' \<in> set (split_on CHR ''/'' path)"
    unfolding segs by (auto simp: image_iff parse_segment_double_star eq_commute [of DoubleStar])
  ultimately show ?thesis
    using assms path unfolding pmatch_length
    by (auto simp: compile_registration_pattern_def Let_def split: sum.splits if_splits)
qed

section \<open>Properties\<close>

text \<open>
  \<^bold>\<open>C24.\<close> The dynamic-programming matcher decides exactly what a pattern means: a pattern
  matches a route if and only if it has no scheme or the route's scheme, and its segments match the
  route's segments, where a literal stands for itself, \<^verbatim>\<open>*\<close> for one segment and
  \<^verbatim>\<open>**\<close> for any number of segments.
\<close>

theorem matcher_decides_pattern:
  "matches_str p route \<longleftrightarrow>
     (pat_scheme p = None \<or> fst (split_route route) = pat_scheme p) \<and>
     pmatch (pat_segments p) (snd (split_route route))"
  by (rule matches_str_iff)

text \<open>
  \<^bold>\<open>C25.\<close> Coverage is safe for authorisation: when a granted pattern covers a requested
  registration, every route that the registration matches is matched by the grant, so no message
  reaches a subscriber outside its grant. At a fixed depth the same holds for the routes of that
  many segments.
\<close>

theorem covers_sound:
  "(covers granted requested \<and> matches_str requested route \<longrightarrow> matches_str granted route) \<and>
   (covers_at_fixed_depth granted requested depth \<and> matches_str requested route \<and>
      length (snd (split_route route)) = depth \<longrightarrow> matches_str granted route)"
  using pattern_language_is_subset_sound subset_at_depth_sound
  by (auto simp: covers_def covers_at_fixed_depth_def matches_str_iff split: option.splits if_splits)

theorem covers_sound_witness:
  "matches_str (pattern_new ''kv://acme/**'') ''kv://acme/a/b''"
proof -
  have req: "matches_str (pattern_new ''kv://acme/*/b'') ''kv://acme/a/b''"
    by (simp add: matches_str_iff pattern_new_def parse_pattern_def split_route_def split_scheme_def
        strip_prefix_def collect_path_segments_fast_def parse_segment_def)
  have depth: "length (snd (split_route ''kv://acme/a/b'')) = 3"
    by (simp add: split_route_def split_scheme_def strip_prefix_def collect_path_segments_fast_def)
  have "covers_at_fixed_depth (pattern_new ''kv://acme/**'') (pattern_new ''kv://acme/*/b'') 3"
    by (simp add: covers_at_fixed_depth_def pattern_new_def parse_pattern_def split_route_def split_scheme_def
        strip_prefix_def collect_path_segments_fast_def parse_segment_def
        pattern_language_is_subset_at_depth_def epsilon_closure_def transition_def accepts_def has_def one_at_def
        pattern_symbols_def List.insert_def MAX_PATTERN_COVERAGE_STATES_def numeral_3_eq_3)
  with req depth covers_sound [of "pattern_new ''kv://acme/**''" "pattern_new ''kv://acme/*/b''" "''kv://acme/a/b''" 3]
  show ?thesis by blast
qed

text \<open>
  \<^bold>\<open>C26.\<close> Coverage refuses only with a reason: when the schemes agree, both patterns have fewer
  than 128 segments and the coverage test still says no, there is a sequence of segments that the
  requested pattern matches and the granted one does not, or the product of the two patterns has more
  than 16384 states; and the same at a fixed depth, with a sequence of that length.
\<close>

theorem covers_complete:
  assumes "pat_scheme granted = None \<or> pat_scheme granted = pat_scheme requested"
    and "length (pat_segments granted) < 128" and "length (pat_segments requested) < 128"
  shows "(\<not> covers granted requested \<longrightarrow>
      (\<exists>w. pmatch (pat_segments requested) w \<and> \<not> pmatch (pat_segments granted) w) \<or>
      16384 < card (product_states (pat_segments requested) (pat_segments granted))) \<and>
    (\<not> covers_at_fixed_depth granted requested depth \<longrightarrow>
      (\<exists>w. length w = depth \<and> pmatch (pat_segments requested) w \<and> \<not> pmatch (pat_segments granted) w) \<or>
      (\<exists>n. 16384 < card (level (pat_segments requested) (pat_segments granted) n)))"
  using assms pattern_language_is_subset_complete [of "pat_segments requested" "pat_segments granted"]
    subset_at_depth_complete [of "pat_segments requested" "pat_segments granted" depth]
  by (auto simp: covers_def covers_at_fixed_depth_def MAX_PATTERN_COVERAGE_STATES_def split: option.splits)

theorem covers_complete_witness:
  "(\<exists>w. length w = 1 \<and> pmatch [Star] w \<and> \<not> pmatch [Literal ''a''] w) \<or>
    (\<exists>n. 16384 < card (level [Star] [Literal ''a''] n))"
proof -
  have "pattern_new ''kv://a'' = \<lparr>pat_route = ''kv://a'', pat_scheme = Some ''kv'', pat_segments = [Literal ''a'']\<rparr>"
    "pattern_new ''kv://*'' = \<lparr>pat_route = ''kv://*'', pat_scheme = Some ''kv'', pat_segments = [Star]\<rparr>"
    by (simp_all add: pattern_new_def parse_pattern_def split_route_def split_scheme_def
        strip_prefix_def collect_path_segments_fast_def parse_segment_def)
  moreover have "\<not> covers_at_fixed_depth (pattern_new ''kv://a'') (pattern_new ''kv://*'') 1"
    by (simp add: covers_at_fixed_depth_def pattern_new_def parse_pattern_def split_route_def split_scheme_def
        strip_prefix_def collect_path_segments_fast_def parse_segment_def
        pattern_language_is_subset_at_depth_def epsilon_closure_def transition_def accepts_def has_def one_at_def
        pattern_symbols_def List.insert_def MAX_PATTERN_COVERAGE_STATES_def numeral_3_eq_3)
  ultimately show ?thesis
    using covers_complete [of "pattern_new ''kv://a''" "pattern_new ''kv://*''" 1] by simp
qed

text \<open>
  \<^bold>\<open>C27.\<close> What registration guarantees of an accepted pattern: it is the pattern of the given
  route, with the expected scheme; its segments are not empty and contain \<^verbatim>\<open>*\<close> only as whole
  wildcards; no two \<^verbatim>\<open>**\<close> are adjacent; the route is within the shape limits. A required depth
  accepts exactly those patterns of them that match some route of that depth.
\<close>

theorem registration_pattern_wellformed:
  assumes "compile_registration_pattern route expected Flexible = Inr p"
  shows "p = pattern_new route \<and> pat_scheme p = Some expected \<and>
    validate_route_shape route = Inr () \<and> pat_segments p \<noteq> [] \<and>
    (\<forall>l. Literal l \<in> set (pat_segments p) \<longrightarrow> l \<noteq> [] \<and> CHR ''/'' \<notin> set l \<and> CHR ''*'' \<notin> set l) \<and>
    \<not> adjacent (\<lambda>s t. s = DoubleStar \<and> t = DoubleStar) (pat_segments p) \<and>
    compile_registration_pattern route expected (CanMatch n) =
      (if \<exists>w. length w = n \<and> pmatch (pat_segments p) w then Inr p else Inl (CannotMatchDepth n))"
proof -
  from compile_Inr [OF assms] obtain path where path: "split_once ''://'' route = Some (expected, path)"
    "p = pattern_new route" "validate_route_shape route = Inr ()"
    "list_all segment_ok (split_on CHR ''/'' path)"
    "list_all (\<lambda>s. CHR ''*'' \<in> set s \<longrightarrow> s = ''*'' \<or> s = ''**'') (split_on CHR ''/'' path)"
    "\<not> adjacent (\<lambda>s t. s = ''**'' \<and> t = ''**'') (split_on CHR ''/'' path)"
    "pat_segments p = map parse_segment (split_on CHR ''/'' path)" by blast
  have "l \<noteq> [] \<and> CHR ''/'' \<notin> set l \<and> CHR ''*'' \<notin> set l" if "Literal l \<in> set (pat_segments p)" for l
    using that path(4,5) unfolding path(7)
    by (auto simp: parse_segment_def list_all_iff split: if_splits)
  moreover have "\<not> adjacent (\<lambda>s t. s = DoubleStar \<and> t = DoubleStar) (pat_segments p)"
    using path(6) unfolding path(7) adjacent_map by (simp add: parse_segment_double_star)
  ultimately show ?thesis
    using path(1-3,7) pat_scheme_new [OF path(1)] compile_depth [OF assms] by auto
qed

theorem registration_pattern_wellformed_witness:
  "compile_registration_pattern ''kv://acme/*'' ''kv'' (CanMatch 3) = Inl (CannotMatchDepth 3)"
proof -
  have ok: "compile_registration_pattern ''kv://acme/*'' ''kv'' Flexible = Inr (pattern_new ''kv://acme/*'')"
    by (simp add: compile_registration_pattern_def validate_route_shape_def MAX_ROUTE_BYTES_def
        MAX_ROUTE_SEGMENTS_def strip_prefix_def)
  have "pat_segments (pattern_new ''kv://acme/*'') = [Literal ''acme'', Star]"
    by (simp add: pattern_new_def parse_pattern_def split_route_def split_scheme_def
        strip_prefix_def collect_path_segments_fast_def parse_segment_def)
  with registration_pattern_wellformed [OF ok, of 3] show ?thesis
    by (auto split: list.splits)
qed

text \<open>
  \<^bold>\<open>C28.\<close> A registration is listed below a resource exactly when it can receive from it: for
  non-empty separator-free components, the test holds if and only if some sequence of further
  segments makes a route within the segment and byte limits that the registration's pattern
  matches.
\<close>

theorem registration_prefix_exact:
  assumes "split_once ''://'' route = Some (scheme, path)"
    and "components \<noteq> []" and "list_all segment_ok components"
  shows "matches_registration_prefix route components \<longleftrightarrow>
    (\<exists>suffix. list_all segment_ok suffix \<and>
       length (components @ suffix) \<le> MAX_ROUTE_SEGMENTS \<and>
       length (scheme @ ''://'' @ join_with ''/'' (components @ suffix)) \<le> MAX_ROUTE_BYTES \<and>
       matches_str (pattern_new route) (scheme @ ''://'' @ join_with ''/'' (components @ suffix)))"
    (is "_ \<longleftrightarrow> ?exists")
proof -
  let ?p = "pat_segments (pattern_new route)"
  let ?pre = "length scheme + 3 + sum_list (map length components) + (length components - 1)"
  have printed: "matches_str (pattern_new route) (scheme @ ''://'' @ join_with ''/'' (components @ suffix))
      = pmatch ?p (components @ suffix)"
    and bytes: "length (scheme @ ''://'' @ join_with ''/'' (components @ suffix)) = ?pre + tail_bytes suffix"
    if "list_all segment_ok suffix" for suffix
    using that assms split_route_print [OF assms(1), of "components @ suffix"] pat_scheme_new [OF assms(1)]
    by (auto simp: matches_str_iff length_join tail_bytes_sum Suc_le_eq)
  have "?exists \<longleftrightarrow> (\<exists>suffix. list_all segment_ok suffix \<and> length components + length suffix \<le> MAX_ROUTE_SEGMENTS \<and>
      ?pre + tail_bytes suffix \<le> MAX_ROUTE_BYTES \<and> pmatch ?p (components @ suffix))"
    by (intro iff_exI conj_cong refl) (simp_all only: printed bytes [unfolded length_append] length_append)
  also have "\<dots> \<longleftrightarrow> (\<exists>i \<le> length ?p. live ?p components i \<and>
      length components + length (completion (drop i ?p)) \<le> MAX_ROUTE_SEGMENTS \<and>
      ?pre + tail_bytes (completion (drop i ?p)) \<le> MAX_ROUTE_BYTES)" (is "?L = ?R")
  proof
    assume ?L
    then obtain suffix where s: "list_all segment_ok suffix" "length components + length suffix \<le> MAX_ROUTE_SEGMENTS"
      "?pre + tail_bytes suffix \<le> MAX_ROUTE_BYTES" "pmatch ?p (components @ suffix)" by blast
    from live_split [OF s(4)] obtain i where i: "i \<le> length ?p" "live ?p components i" "pmatch (drop i ?p) suffix" by blast
    from completion_minimal [OF i(3) s(1)] s(2,3) i(1,2) show ?R by (intro exI [of _ i]) linarith
  next
    assume ?R
    then obtain i where i: "i \<le> length ?p" "live ?p components i"
      "length components + length (completion (drop i ?p)) \<le> MAX_ROUTE_SEGMENTS"
      "?pre + tail_bytes (completion (drop i ?p)) \<le> MAX_ROUTE_BYTES" by blast
    have "list_all segment_ok (completion (drop i ?p))"
      using pattern_literal_ok [of _ route] by (intro completion_ok) (auto dest: in_set_dropD)
    with i live_completion [OF i(1,2)] show ?L by blast
  qed
  finally show ?thesis using matches_registration_prefix_iff [OF assms(1,2)] by simp
qed

theorem registration_prefix_exact_witness:
  "matches_registration_prefix ''rpc://acme/*/users/get'' [''acme'', ''auth'']"
proof -
  have "split_once ''://'' ''rpc://acme/*/users/get'' = Some (''rpc'', ''acme/*/users/get'')"
    by (simp add: strip_prefix_def)
  from registration_prefix_exact [OF this, of "[''acme'', ''auth'']"] show ?thesis
    by (auto simp: MAX_ROUTE_SEGMENTS_def MAX_ROUTE_BYTES_def matches_str_iff pattern_new_def parse_pattern_def
        split_route_def split_scheme_def strip_prefix_def collect_path_segments_fast_def parse_segment_def
        intro!: exI [of _ "[''users'', ''get'']"])
qed

end
