(* ===== verification/Subscriptions.thy ===== *)
theory Subscriptions
  imports Matcher "HOL-Library.AList" "HOL-Library.Monad_Syntax"
begin

text \<open>
  The subscription index (\<^verbatim>\<open>src/runtime/subscriptions.rs\<close> and
  \<^verbatim>\<open>src/runtime/subscriptions/suffix.rs\<close>): a trie per route family in one flat pool of nodes
  with a free list, literal segments interned to 32-bit identifiers, a bounded cache of parsed
  patterns, and the frontier traversal that collects the subscriptions matching a route.

  Operations return \<open>None\<close> where an index into the pool would panic. \<open>stored\<close> says which
  subscriptions hang below a node; the pool invariant \<open>pool_ok\<close> (every node has at most one
  incoming edge, roots and free nodes have none, free nodes are blank) makes insertion and removal
  add and delete exactly one entry, and keeps both free of panics.
\<close>

section \<open>Definitions\<close>

subsection \<open>Segments and their identifiers\<close>

definition MATCH_DEDUPE_SET_THRESHOLD :: nat where "MATCH_DEDUPE_SET_THRESHOLD = 64"
definition CACHE_MAX_ENTRIES :: nat where "CACHE_MAX_ENTRIES = 4096"

type_synonym node_id = u32
type_synonym segment_id = u32
type_synonym subscription_id = u64

definition usize_to_node_id_saturating :: "nat \<Rightarrow> node_id" where
  "usize_to_node_id_saturating v = (case try_from_usize v of Some i \<Rightarrow> i | None \<Rightarrow> - 1)"

definition usize_to_segment_id_saturating :: "nat \<Rightarrow> segment_id" where
  "usize_to_segment_id_saturating v = (case try_from_usize v of Some i \<Rightarrow> i | None \<Rightarrow> - 1)"

datatype compiled_pattern_segment = Exact segment_id | Compiled_Star | Compiled_DoubleStar

record compiled_route_segment =
  exact_id :: "segment_id option"

text \<open>A hash map is an association list without repeated keys; \<^verbatim>\<open>len\<close> is its length.\<close>

record segment_interner =
  ids :: "(string \<times> segment_id) list"

definition segment_interner_new :: segment_interner where
  "segment_interner_new = \<lparr>ids = []\<rparr>"

definition intern :: "segment_interner \<Rightarrow> string \<Rightarrow> segment_interner \<times> segment_id" where
  "intern self v =
     (case map_of (ids self) v of
        Some i \<Rightarrow> (self, i)
      | None \<Rightarrow>
          let i = usize_to_segment_id_saturating (length (ids self))
          in (self\<lparr>ids := AList.update v i (ids self)\<rparr>, i))"

definition lookup_segment :: "segment_interner \<Rightarrow> string \<Rightarrow> segment_id option" where
  "lookup_segment self v = map_of (ids self) v"

record segments_cache =
  cache :: "(string \<times> pattern_segment list) list"

definition segments_cache_new :: segments_cache where
  "segments_cache_new = \<lparr>cache = []\<rparr>"

definition get_or_parse :: "segments_cache \<Rightarrow> string \<Rightarrow> segments_cache \<times> pattern_segment list" where
  "get_or_parse self route =
     (case map_of (cache self) route of
        Some cached \<Rightarrow> (self, cached)
      | None \<Rightarrow>
          let segments = parse_pattern_segments route
          in (if length (cache self) < CACHE_MAX_ENTRIES
              then self\<lparr>cache := AList.update route segments (cache self)\<rparr> else self,
              segments))"

subsection \<open>The rolling frontiers of a suffix\<close>

definition suffix_row ::
  "compiled_route_segment list \<Rightarrow> bool list \<Rightarrow> compiled_pattern_segment \<Rightarrow> bool list" where
  "suffix_row route previous p =
     (case p of
        Compiled_DoubleStar \<Rightarrow> double_star_row False previous
      | Compiled_Star \<Rightarrow> False # take (length route) previous
      | Exact expected \<Rightarrow> False # map2 (\<lambda>b seg. b \<and> exact_id seg = Some expected) previous route)"

definition matches_suffix_compiled ::
  "compiled_pattern_segment list \<Rightarrow> compiled_route_segment list \<Rightarrow> nat \<Rightarrow> bool" where
  "matches_suffix_compiled suffix route start_idx =
     (let route = drop start_idx route
      in foldl (suffix_row route) (replicate (length route + 1) True) suffix ! length route)"

subsection \<open>The match collector\<close>

record match_collector =
  matches :: "subscription_id list"
  seen :: "subscription_id set option"

definition collector_new :: match_collector where
  "collector_new = \<lparr>matches = [], seen = None\<rparr>"

definition ensure_seen :: "match_collector \<Rightarrow> match_collector" where
  "ensure_seen self = (case seen self of Some _ \<Rightarrow> self | None \<Rightarrow> self\<lparr>seen := Some (set (matches self))\<rparr>)"

definition collector_push :: "match_collector \<Rightarrow> subscription_id \<Rightarrow> match_collector" where
  "collector_push self sid =
     (if matches self = [] then self\<lparr>matches := matches self @ [sid]\<rparr>
      else if length (matches self) < MATCH_DEDUPE_SET_THRESHOLD then
        if sid \<notin> set (matches self) then self\<lparr>matches := matches self @ [sid]\<rparr> else self
      else
        let self = ensure_seen self in
        case seen self of
          None \<Rightarrow> self
        | Some s \<Rightarrow>
            if sid \<notin> s then self\<lparr>seen := Some (insert sid s), matches := matches self @ [sid]\<rparr> else self)"

definition extend_from_slice :: "match_collector \<Rightarrow> subscription_id list \<Rightarrow> match_collector" where
  "extend_from_slice self sids = foldl collector_push self sids"

subsection \<open>Nodes\<close>

record node =
  exact :: "(segment_id \<times> node_id) list"
  single_wildcard :: "node_id option"
  terminals :: "subscription_id list"
  double_star_subs :: "subscription_id list"
  double_star_suffixes :: "compiled_pattern_segment list list"

definition node_new :: node where
  "node_new = \<lparr>exact = [], single_wildcard = None, terminals = [],
     double_star_subs = [], double_star_suffixes = []\<rparr>"

definition add_terminal :: "subscription_id \<Rightarrow> node \<Rightarrow> node" where
  "add_terminal sid self =
     (if sid \<notin> set (terminals self) then self\<lparr>terminals := terminals self @ [sid]\<rparr> else self)"

definition remove_terminal :: "subscription_id \<Rightarrow> node \<Rightarrow> node" where
  "remove_terminal sid self = self\<lparr>terminals := filter (\<lambda>i. i \<noteq> sid) (terminals self)\<rparr>"

definition is_reclaimable :: "node \<Rightarrow> bool" where
  "is_reclaimable self \<longleftrightarrow> exact self = [] \<and> single_wildcard self = None \<and>
     terminals self = [] \<and> double_star_subs self = []"

definition reset_node :: "node \<Rightarrow> node" where
  "reset_node self = self\<lparr>exact := [], single_wildcard := None, terminals := [],
     double_star_subs := [], double_star_suffixes := []\<rparr>"

definition add_double_star :: "subscription_id \<Rightarrow> compiled_pattern_segment list \<Rightarrow> node \<Rightarrow> node" where
  "add_double_star sid suffix self =
     (let is_duplicate = list_ex (\<lambda>(i, existing). i = sid \<and> existing = suffix)
            (zip (double_star_subs self) (double_star_suffixes self))
      in if \<not> is_duplicate
         then self\<lparr>double_star_subs := double_star_subs self @ [sid],
                double_star_suffixes := double_star_suffixes self @ [suffix]\<rparr>
         else self)"

text \<open>\<^verbatim>\<open>swap_remove\<close> puts the last element in the place of the removed one.\<close>

definition swap_remove :: "'a list \<Rightarrow> nat \<Rightarrow> 'a list" where
  "swap_remove xs i = butlast (xs[i := last xs])"

function remove_double_star_loop :: "subscription_id \<Rightarrow> compiled_pattern_segment list \<Rightarrow> nat
    \<Rightarrow> subscription_id list \<Rightarrow> compiled_pattern_segment list list
    \<Rightarrow> (subscription_id list \<times> compiled_pattern_segment list list) option" where
  "remove_double_star_loop sid suffix index subs suffixes =
     (if index < length subs then
        if subs ! index = sid then
          if \<not> index < length suffixes then None
          else if suffixes ! index = suffix then
            remove_double_star_loop sid suffix index (swap_remove subs index) (swap_remove suffixes index)
          else remove_double_star_loop sid suffix (index + 1) subs suffixes
        else remove_double_star_loop sid suffix (index + 1) subs suffixes
      else Some (subs, suffixes))"
  by pat_completeness auto
termination
  by (relation "measure (\<lambda>(sid, suffix, index, subs, suffixes). length subs - index)")
    (auto simp: swap_remove_def)

declare remove_double_star_loop.simps [simp del]

definition remove_double_star ::
  "subscription_id \<Rightarrow> compiled_pattern_segment list \<Rightarrow> node \<Rightarrow> node option" where
  "remove_double_star sid suffix self = do {
     (subs, suffixes) \<leftarrow> remove_double_star_loop sid suffix 0 (double_star_subs self) (double_star_suffixes self);
     Some (self\<lparr>double_star_subs := subs, double_star_suffixes := suffixes\<rparr>)
   }"

fun double_star_loop :: "compiled_route_segment list \<Rightarrow> nat
    \<Rightarrow> (subscription_id \<times> compiled_pattern_segment list) list
    \<Rightarrow> (compiled_pattern_segment list \<times> bool) option \<Rightarrow> match_collector \<Rightarrow> match_collector" where
  "double_star_loop route i [] last_match collector = collector"
| "double_star_loop route i ((sid, suffix) # entries) last_match collector =
     (if suffix = [] then double_star_loop route i entries last_match (collector_push collector sid)
      else
        let fresh = (let matched = matches_suffix_compiled suffix route i in (matched, Some (suffix, matched)));
            (matched, last_match) =
              (case last_match of
                 Some (previous, matched) \<Rightarrow> if previous = suffix then (matched, last_match) else fresh
               | None \<Rightarrow> fresh)
        in double_star_loop route i entries last_match
             (if matched then collector_push collector sid else collector))"

definition collect_double_star_matches ::
  "node \<Rightarrow> compiled_route_segment list \<Rightarrow> nat \<Rightarrow> match_collector \<Rightarrow> match_collector" where
  "collect_double_star_matches self route i collector =
     double_star_loop route i (zip (double_star_subs self) (double_star_suffixes self)) None collector"

definition collect_final_matches :: "node \<Rightarrow> match_collector \<Rightarrow> match_collector" where
  "collect_final_matches self collector =
     foldl (\<lambda>collector (sid, suffix). if suffix = [] then collector_push collector sid else collector)
       (if terminals self \<noteq> [] then extend_from_slice collector (terminals self) else collector)
       (zip (double_star_subs self) (double_star_suffixes self))"

subsection \<open>The index\<close>

record subscription_index =
  nodes :: "node list"
  family_roots :: "(route_family \<times> node_id) list"
  index_cache :: segments_cache
  interner :: segment_interner
  free_nodes :: "node_id list"

definition subscription_index_new :: subscription_index where
  "subscription_index_new = \<lparr>nodes = [], family_roots = [], index_cache = segments_cache_new,
     interner = segment_interner_new, free_nodes = []\<rparr>"

text \<open>\<^verbatim>\<open>self.nodes[id as usize]\<close>, read and updated in place.\<close>

definition node_at :: "subscription_index \<Rightarrow> node_id \<Rightarrow> node option" where
  "node_at self i = (if unat i < length (nodes self) then Some (nodes self ! unat i) else None)"

definition modify_node :: "subscription_index \<Rightarrow> node_id \<Rightarrow> (node \<Rightarrow> node) \<Rightarrow> subscription_index option" where
  "modify_node self i f = do {
     n \<leftarrow> node_at self i;
     Some (self\<lparr>nodes := (nodes self)[unat i := f n]\<rparr>)
   }"

definition alloc_node :: "subscription_index \<Rightarrow> (node_id \<times> subscription_index) option" where
  "alloc_node self =
     (if free_nodes self \<noteq> [] then do {
        let i = last (free_nodes self);
        self \<leftarrow> modify_node (self\<lparr>free_nodes := butlast (free_nodes self)\<rparr>) i reset_node;
        Some (i, self)
      }
      else Some (usize_to_node_id_saturating (length (nodes self)), self\<lparr>nodes := nodes self @ [node_new]\<rparr>))"

definition release_node :: "subscription_index \<Rightarrow> node_id \<Rightarrow> subscription_index option" where
  "release_node self i = do {
     self \<leftarrow> modify_node self i reset_node;
     Some (self\<lparr>free_nodes := free_nodes self @ [i]\<rparr>)
   }"

definition get_or_create_root :: "subscription_index \<Rightarrow> route_family \<Rightarrow> (node_id \<times> subscription_index) option" where
  "get_or_create_root self fam =
     (case map_of (family_roots self) fam of
        Some root \<Rightarrow> Some (root, self)
      | None \<Rightarrow> do {
          (root, self) \<leftarrow> alloc_node self;
          Some (root, self\<lparr>family_roots := AList.update fam root (family_roots self)\<rparr>)
        })"

fun insert_into_trie :: "subscription_index \<Rightarrow> node_id \<Rightarrow> compiled_pattern_segment list
    \<Rightarrow> subscription_id \<Rightarrow> subscription_index option" where
  "insert_into_trie self n [] sid = modify_node self n (add_terminal sid)"
| "insert_into_trie self n (Compiled_DoubleStar # suffix) sid = modify_node self n (add_double_star sid suffix)"
| "insert_into_trie self n (Compiled_Star # segments) sid = do {
     nd \<leftarrow> node_at self n;
     self \<leftarrow> (if single_wildcard nd = None then do {
        (child, self) \<leftarrow> alloc_node self;
        modify_node self n (\<lambda>nd. nd\<lparr>single_wildcard := Some child\<rparr>)
      } else Some self);
     nd \<leftarrow> node_at self n;
     child \<leftarrow> single_wildcard nd;
     insert_into_trie self child segments sid
   }"
| "insert_into_trie self n (Exact seg_id # segments) sid = do {
     nd \<leftarrow> node_at self n;
     (child, self) \<leftarrow> (case map_of (exact nd) seg_id of
        Some child \<Rightarrow> Some (child, self)
      | None \<Rightarrow> do {
          (child, self) \<leftarrow> alloc_node self;
          self \<leftarrow> modify_node self n (\<lambda>nd. nd\<lparr>exact := AList.update seg_id child (exact nd)\<rparr>);
          Some (child, self)
        });
     insert_into_trie self child segments sid
   }"

fun remove_from_trie :: "subscription_index \<Rightarrow> node_id \<Rightarrow> compiled_pattern_segment list
    \<Rightarrow> subscription_id \<Rightarrow> subscription_index option" where
  "remove_from_trie self n [] sid = modify_node self n (remove_terminal sid)"
| "remove_from_trie self n (Compiled_DoubleStar # suffix) sid = do {
     nd \<leftarrow> node_at self n;
     nd \<leftarrow> remove_double_star sid suffix nd;
     modify_node self n (\<lambda>_. nd)
   }"
| "remove_from_trie self n (Compiled_Star # segments) sid = do {
     nd \<leftarrow> node_at self n;
     (case single_wildcard nd of
        None \<Rightarrow> Some self
      | Some child \<Rightarrow> do {
          self \<leftarrow> remove_from_trie self child segments sid;
          nd \<leftarrow> node_at self child;
          (if is_reclaimable nd then do {
             self \<leftarrow> modify_node self n (\<lambda>nd. nd\<lparr>single_wildcard := None\<rparr>);
             release_node self child
           } else Some self)
        })
   }"
| "remove_from_trie self n (Exact seg_id # segments) sid = do {
     nd \<leftarrow> node_at self n;
     (case map_of (exact nd) seg_id of
        None \<Rightarrow> Some self
      | Some child \<Rightarrow> do {
          self \<leftarrow> remove_from_trie self child segments sid;
          nd \<leftarrow> node_at self child;
          (if is_reclaimable nd then do {
             self \<leftarrow> modify_node self n (\<lambda>nd. nd\<lparr>exact := AList.delete seg_id (exact nd)\<rparr>);
             release_node self child
           } else Some self)
        })
   }"

text \<open>The resolver may change its own state; \<^verbatim>\<open>?\<close> stops at the first segment it cannot resolve.\<close>

fun compile_pattern_segments_from_iter :: "('s \<Rightarrow> string \<Rightarrow> 's \<times> segment_id option) \<Rightarrow> 's
    \<Rightarrow> pattern_segment list \<Rightarrow> 's \<times> compiled_pattern_segment list option" where
  "compile_pattern_segments_from_iter resolve s [] = (s, Some [])"
| "compile_pattern_segments_from_iter resolve s (Literal v # segments) =
     (case resolve s v of
        (s, None) \<Rightarrow> (s, None)
      | (s, Some i) \<Rightarrow>
          (let (s, rest) = compile_pattern_segments_from_iter resolve s segments
           in (s, map_option ((#) (Exact i)) rest)))"
| "compile_pattern_segments_from_iter resolve s (Star # segments) =
     (let (s, rest) = compile_pattern_segments_from_iter resolve s segments
      in (s, map_option ((#) Compiled_Star) rest))"
| "compile_pattern_segments_from_iter resolve s (DoubleStar # segments) =
     (let (s, rest) = compile_pattern_segments_from_iter resolve s segments
      in (s, map_option ((#) Compiled_DoubleStar) rest))"

definition compile_pattern_segments_intern ::
  "subscription_index \<Rightarrow> string \<Rightarrow> (compiled_pattern_segment list \<times> subscription_index) option" where
  "compile_pattern_segments_intern self route =
     (let (cache', parsed) = get_or_parse (index_cache self) route;
          (interner', compiled) =
            compile_pattern_segments_from_iter
              (\<lambda>s v. let (s, i) = intern s v in (s, Some i)) (interner self) parsed
      in do {
        segments \<leftarrow> compiled;
        Some (segments, self\<lparr>index_cache := cache', interner := interner'\<rparr>)
      })"

definition compile_pattern_segments_lookup ::
  "subscription_index \<Rightarrow> string \<Rightarrow> compiled_pattern_segment list option" where
  "compile_pattern_segments_lookup self route =
     snd (compile_pattern_segments_from_iter (\<lambda>s v. (s, lookup_segment (interner self) v)) ()
       (parse_pattern_segments route))"

definition compile_route_segments_lookup ::
  "subscription_index \<Rightarrow> string list \<Rightarrow> compiled_route_segment list" where
  "compile_route_segments_lookup self segments =
     map (\<lambda>segment. \<lparr>exact_id = lookup_segment (interner self) segment\<rparr>) segments"

definition index_insert ::
  "subscription_index \<Rightarrow> route_family \<Rightarrow> route \<Rightarrow> subscription_id \<Rightarrow> subscription_index option" where
  "index_insert self fam pat sid = do {
     (segments, self) \<leftarrow> compile_pattern_segments_intern self pat;
     (root, self) \<leftarrow> get_or_create_root self fam;
     insert_into_trie self root segments sid
   }"

fun insert_items :: "subscription_index \<Rightarrow> node_id \<Rightarrow> (route \<times> subscription_id) list \<Rightarrow> subscription_index option" where
  "insert_items self root [] = Some self"
| "insert_items self root ((pat, sid) # items) = do {
     (segments, self) \<leftarrow> compile_pattern_segments_intern self pat;
     self \<leftarrow> insert_into_trie self root segments sid;
     insert_items self root items
   }"

definition index_insert_batch ::
  "subscription_index \<Rightarrow> route_family \<Rightarrow> (route \<times> subscription_id) list \<Rightarrow> subscription_index option" where
  "index_insert_batch self fam items =
     (if items = [] then Some self
      else do {
        (root, self) \<leftarrow> get_or_create_root self fam;
        insert_items self root items
      })"

definition index_remove ::
  "subscription_index \<Rightarrow> route_family \<Rightarrow> route \<Rightarrow> subscription_id \<Rightarrow> subscription_index option" where
  "index_remove self fam pat sid =
     (case compile_pattern_segments_lookup self pat of
        None \<Rightarrow> Some self
      | Some segments \<Rightarrow>
          (case map_of (family_roots self) fam of
             None \<Rightarrow> Some self
           | Some root \<Rightarrow> remove_from_trie self root segments sid))"

text \<open>One round of the traversal: every node of the frontier passes its children on and collects its
  \<^verbatim>\<open>**\<close> entries.\<close>

fun visit_frontier :: "subscription_index \<Rightarrow> compiled_route_segment list \<Rightarrow> nat \<Rightarrow> compiled_route_segment
    \<Rightarrow> node_id list \<Rightarrow> node_id list \<Rightarrow> match_collector \<Rightarrow> (node_id list \<times> match_collector) option" where
  "visit_frontier self route i segment [] next_nodes collector = Some (next_nodes, collector)"
| "visit_frontier self route i segment (n # current) next_nodes collector = do {
     nd \<leftarrow> node_at self n;
     let next_nodes = (case exact_id segment of
           None \<Rightarrow> next_nodes
         | Some e \<Rightarrow> (case map_of (exact nd) e of None \<Rightarrow> next_nodes | Some child \<Rightarrow> next_nodes @ [child]));
     let next_nodes = (case single_wildcard nd of None \<Rightarrow> next_nodes | Some child \<Rightarrow> next_nodes @ [child]);
     let collector = (if double_star_subs nd \<noteq> [] then collect_double_star_matches nd route i collector else collector);
     visit_frontier self route i segment current next_nodes collector
   }"

fun traverse :: "subscription_index \<Rightarrow> compiled_route_segment list \<Rightarrow> nat \<Rightarrow> compiled_route_segment list
    \<Rightarrow> node_id list \<Rightarrow> match_collector \<Rightarrow> (node_id list \<times> match_collector) option" where
  "traverse self route i [] current collector = Some (current, collector)"
| "traverse self route i (segment # segments) current collector = do {
     (next_nodes, collector) \<leftarrow> visit_frontier self route i segment current [] collector;
     traverse self route (i + 1) segments next_nodes collector
   }"

fun collect_frontier :: "subscription_index \<Rightarrow> node_id list \<Rightarrow> match_collector \<Rightarrow> match_collector option" where
  "collect_frontier self [] collector = Some collector"
| "collect_frontier self (n # current) collector = do {
     nd \<leftarrow> node_at self n;
     collect_frontier self current (collect_final_matches nd collector)
   }"

definition match_all_route_str :: "subscription_index \<Rightarrow> route_family \<Rightarrow> string \<Rightarrow> subscription_id list option" where
  "match_all_route_str self fam route =
     (let route_segments = extract_route_segments_borrowed route;
          compiled = compile_route_segments_lookup self route_segments
      in case map_of (family_roots self) fam of
           None \<Rightarrow> Some []
         | Some root \<Rightarrow> do {
             (current, collector) \<leftarrow> traverse self compiled 0 compiled [root] collector_new;
             collector \<leftarrow> collect_frontier self current collector;
             Some (matches collector)
           })"

section \<open>What a pool of nodes holds\<close>

type_synonym heap = "node_id \<rightharpoonup> node"

text \<open>The edges out of a node, the subscriptions held at it, and those stored below it.\<close>

fun child :: "node \<Rightarrow> compiled_pattern_segment \<Rightarrow> node_id option" where
  "child nd (Exact s) = map_of (exact nd) s"
| "child nd Compiled_Star = single_wildcard nd"
| "child nd Compiled_DoubleStar = None"

fun node_holds :: "node \<Rightarrow> compiled_pattern_segment list \<Rightarrow> subscription_id \<Rightarrow> bool" where
  "node_holds nd [] sid \<longleftrightarrow> sid \<in> set (terminals nd)"
| "node_holds nd (Compiled_DoubleStar # suffix) sid \<longleftrightarrow>
     (sid, suffix) \<in> set (zip (double_star_subs nd) (double_star_suffixes nd))"
| "node_holds nd _ sid \<longleftrightarrow> False"

definition edge :: "heap \<Rightarrow> node_id \<Rightarrow> compiled_pattern_segment \<Rightarrow> node_id option" where
  "edge H n s = H n \<bind> (\<lambda>nd. child nd s)"

definition holds :: "heap \<Rightarrow> node_id \<Rightarrow> compiled_pattern_segment list \<Rightarrow> subscription_id \<Rightarrow> bool" where
  "holds H n segs sid \<longleftrightarrow> (\<exists>nd. H n = Some nd \<and> node_holds nd segs sid)"

fun follow :: "heap \<Rightarrow> node_id \<Rightarrow> compiled_pattern_segment list \<Rightarrow> node_id option" where
  "follow H n [] = Some n"
| "follow H n (s # p) = edge H n s \<bind> (\<lambda>c. follow H c p)"

fun stored :: "heap \<Rightarrow> node_id \<Rightarrow> compiled_pattern_segment list \<Rightarrow> subscription_id \<Rightarrow> bool" where
  "stored H n [] sid \<longleftrightarrow> holds H n [] sid"
| "stored H n (s # p) sid \<longleftrightarrow> holds H n (s # p) sid \<or> (\<exists>c. edge H n s = Some c \<and> stored H c p sid)"

lemma ex_append_Cons: "(\<exists>q t. x # xs = q @ t \<and> P q t) \<longleftrightarrow> P [] (x # xs) \<or> (\<exists>q t. xs = q @ t \<and> P (x # q) t)"
  unfolding Cons_eq_append_conv by blast

lemma stored_iff:
  "stored H n segs sid \<longleftrightarrow> (\<exists>q t k. segs = q @ t \<and> follow H n q = Some k \<and> holds H k t sid)"
proof (induction segs arbitrary: n)
  case (Cons s p)
  have "(\<exists>q t. s # p = q @ t \<and> (\<exists>k. follow H n q = Some k \<and> holds H k t sid)) \<longleftrightarrow>
    holds H n (s # p) sid \<or> (\<exists>q t. p = q @ t \<and> (\<exists>k. follow H n (s # q) = Some k \<and> holds H k t sid))"
    unfolding ex_append_Cons by simp
  moreover have "(\<exists>q t. p = q @ t \<and> (\<exists>k. follow H n (s # q) = Some k \<and> holds H k t sid)) \<longleftrightarrow>
    (\<exists>c. edge H n s = Some c \<and> stored H c p sid)"
    unfolding Cons.IH by (auto simp: bind_eq_Some_conv)
  ultimately show ?case by simp
qed simp

lemma follow_append: "follow H n (p @ q) = follow H n p \<bind> (\<lambda>m. follow H m q)"
  by (induction p arbitrary: n) (simp_all add: Option.bind_assoc)

lemma follow_snoc: "follow H n (p @ [s]) = Some c \<longleftrightarrow> (\<exists>m. follow H n p = Some m \<and> edge H m s = Some c)"
  by (auto simp: follow_append bind_eq_Some_conv)

text \<open>Every node has at most one incoming edge, roots and free nodes have none.\<close>

definition pool_ok :: "heap \<Rightarrow> (route_family \<rightharpoonup> node_id) \<Rightarrow> node_id set \<Rightarrow> bool" where
  "pool_ok H R F \<longleftrightarrow>
     (\<forall>n nd. H n = Some nd \<longrightarrow> length (double_star_subs nd) = length (double_star_suffixes nd)) \<and>
     (\<forall>n s c. edge H n s = Some c \<longrightarrow> c \<in> dom H \<and> c \<notin> F \<and> c \<notin> ran R) \<and>
     (\<forall>n s n' s' c. edge H n s = Some c \<longrightarrow> edge H n' s' = Some c \<longrightarrow> n = n' \<and> s = s') \<and>
     ran R \<subseteq> dom H - F \<and> inj_on R (dom R) \<and> (\<forall>i \<in> F. H i = Some node_new)"

lemma pool_okD:
  assumes "pool_ok H R F"
  shows "H n = Some nd \<Longrightarrow> length (double_star_subs nd) = length (double_star_suffixes nd)"
    and "edge H n s = Some c \<Longrightarrow> c \<in> dom H \<and> c \<notin> F \<and> c \<notin> ran R"
    and "edge H n s = Some c \<Longrightarrow> edge H n' s' = Some c \<Longrightarrow> n = n' \<and> s = s'"
    and "r \<in> ran R \<Longrightarrow> r \<in> dom H \<and> r \<notin> F"
    and "R f = Some r \<Longrightarrow> R f' = Some r \<Longrightarrow> f = f'"
    and "i \<in> F \<Longrightarrow> H i = Some node_new"
  using assms unfolding pool_ok_def by (auto simp: inj_on_def dom_def ran_def)

lemma follow_live:
  assumes "pool_ok H R F" "r \<in> ran R" "follow H r p = Some n"
  shows "n \<in> dom H \<and> n \<notin> F"
  using assms(3) pool_okD(2,4) [OF assms(1)] assms(2)
  by (cases p rule: rev_cases) (auto simp: follow_snoc)

lemma follow_unique:
  assumes ok: "pool_ok H R F" and "r \<in> ran R" "r' \<in> ran R"
  shows "follow H r p = Some n \<Longrightarrow> follow H r' p' = Some n \<Longrightarrow> r = r' \<and> p = p'"
proof (induction p arbitrary: n p' rule: rev_induct)
  case Nil
  then show ?case using assms pool_okD(2) [OF ok] by (cases p' rule: rev_cases) (auto simp: follow_snoc)
next
  case (snoc s p)
  from snoc.prems(1) obtain m where m: "follow H r p = Some m" "edge H m s = Some n"
    by (auto simp: follow_snoc)
  show ?case
  proof (cases p' rule: rev_cases)
    case Nil
    with snoc.prems(2) m(2) assms(3) pool_okD(2) [OF ok] show ?thesis by auto
  next
    case (snoc q t)
    with snoc.prems(2) obtain m' where m': "follow H r' q = Some m'" "edge H m' t = Some n"
      by (auto simp: follow_snoc)
    with m pool_okD(3) [OF ok] have "m' = m" "t = s" by blast+
    with snoc.IH [OF m(1)] m' snoc show ?thesis by auto
  qed
qed

lemma node_new_simps [simp]: "child node_new s = None" "\<not> node_holds node_new segs sid"
  by (cases s; simp add: node_new_def) (cases "(node_new, segs, sid)" rule: node_holds.cases; simp add: node_new_def)

lemma reset_node_new [simp]: "reset_node nd = node_new"
  by (simp add: reset_node_def node_new_def)

subsection \<open>Allocation, linking, local updates and release\<close>

lemma edge_upd: "edge (H(n \<mapsto> nd)) m s = (if m = n then child nd s else edge H m s)"
  by (simp add: edge_def)

lemma holds_upd: "holds (H(n \<mapsto> nd)) m segs sid = (if m = n then node_holds nd segs sid else holds H m segs sid)"
  by (simp add: holds_def)

lemma stored_cong:
  assumes "edge H' = edge H" "holds H' = holds H"
  shows "stored H' = stored H" "follow H' = follow H"
proof -
  show follow: "follow H' = follow H"
  proof (intro ext)
    fix n p show "follow H' n p = follow H n p" by (induction p arbitrary: n) (simp_all add: assms)
  qed
  show "stored H' = stored H" by (intro ext) (simp add: stored_iff follow assms)
qed

lemma pool_alloc:
  assumes ok: "pool_ok H R F" and c: "c \<in> F \<or> H c = None"
  shows "pool_ok (H(c \<mapsto> node_new)) R (F - {c})" "stored (H(c \<mapsto> node_new)) = stored H"
    "follow (H(c \<mapsto> node_new)) = follow H" "\<nexists>m s. edge (H(c \<mapsto> node_new)) m s = Some c" "c \<notin> ran R"
proof -
  have blank: "child nd s = None \<and> \<not> node_holds nd segs sid" if "H c = Some nd" for nd s segs sid
    using c that pool_okD(6) [OF ok] by auto
  then have e: "edge (H(c \<mapsto> node_new)) = edge H"
    by (intro ext) (auto simp: edge_upd edge_def split: bind_splits)
  have h: "holds (H(c \<mapsto> node_new)) = holds H"
    using blank by (intro ext) (auto simp: holds_upd holds_def)
  show "stored (H(c \<mapsto> node_new)) = stored H" "follow (H(c \<mapsto> node_new)) = follow H"
    using stored_cong [OF e h] by auto
  show "c \<notin> ran R" "\<nexists>m s. edge (H(c \<mapsto> node_new)) m s = Some c"
    unfolding e using c pool_okD(2,4) [OF ok] by fastforce+
  show "pool_ok (H(c \<mapsto> node_new)) R (F - {c})"
    using ok unfolding pool_ok_def e by (auto simp: node_new_def)
qed

lemma pool_link:
  assumes ok: "pool_ok H R F" and nd: "H n = Some nd" "n \<notin> F" "n \<noteq> c"
    and free: "child nd s = None" "H c = Some node_new" "c \<notin> F" "c \<notin> ran R" "\<nexists>m s. edge H m s = Some c"
    and nd': "child nd' = (child nd)(s := Some c)" "node_holds nd' = node_holds nd"
      "length (double_star_subs nd') = length (double_star_suffixes nd')"
  shows "pool_ok (H(n \<mapsto> nd')) R F" "stored (H(n \<mapsto> nd')) = stored H"
    "follow H m q = Some k \<Longrightarrow> follow (H(n \<mapsto> nd')) m q = Some k"
proof -
  let ?H = "H(n \<mapsto> nd')"
  have e: "edge ?H m t = (if m = n \<and> t = s then Some c else edge H m t)" for m t
    using nd by (simp add: edge_upd nd'(1)) (simp add: edge_def)
  have h: "holds ?H = holds H"
    using nd by (intro ext) (simp add: holds_upd nd'(2) holds_def)
  have none: "edge H n s = None" using nd free by (simp add: edge_def)
  have blank: "\<not> stored ?H c p sid" for p sid
    by (cases p) (use nd free in \<open>simp_all add: h e holds_def edge_def del: node_holds.simps\<close>)
  show "pool_ok ?H R F"
    using ok nd free nd'(3) unfolding pool_ok_def e by (auto split: if_splits)
  have "stored ?H m p sid = stored H m p sid" for m p sid
    by (induction p arbitrary: m) (use none blank in \<open>auto simp: h e\<close>)
  then show "stored ?H = stored H" by (intro ext)
  show "follow H m q = Some k \<Longrightarrow> follow ?H m q = Some k"
    by (induction q arbitrary: m) (use none in \<open>auto simp: e bind_eq_Some_conv\<close>)
qed

lemma pool_local:
  assumes ok: "pool_ok H R F" and nd: "H n = Some nd" "n \<notin> F"
    and nd': "child nd' = child nd" "length (double_star_subs nd') = length (double_star_suffixes nd')"
  shows "pool_ok (H(n \<mapsto> nd')) R F" "follow (H(n \<mapsto> nd')) = follow H"
    "edge (H(n \<mapsto> nd')) = edge H"
proof -
  show e: "edge (H(n \<mapsto> nd')) = edge H"
    using nd nd' by (intro ext) (simp add: edge_upd edge_def)
  show "follow (H(n \<mapsto> nd')) = follow H"
  proof (intro ext)
    fix m p show "follow (H(n \<mapsto> nd')) m p = follow H m p" by (induction p arbitrary: m) (simp_all add: e)
  qed
  show "pool_ok (H(n \<mapsto> nd')) R F"
    using ok nd nd' unfolding pool_ok_def e by auto
qed

text \<open>A local update at the node reached by \<open>p\<close> changes the entries below a root only at the
  paths that extend \<open>p\<close>.\<close>

lemma stored_local:
  assumes ok: "pool_ok H R F" and r: "r \<in> ran R" "follow H r p = Some n" and m: "m \<in> ran R"
    and nd: "H n = Some nd" "n \<notin> F"
    and nd': "child nd' = child nd" "length (double_star_subs nd') = length (double_star_suffixes nd')"
  shows "stored (H(n \<mapsto> nd')) m segs sid \<longleftrightarrow>
    (\<exists>q t k. segs = q @ t \<and> follow H m q = Some k \<and> k \<noteq> n \<and> holds H k t sid) \<or>
    (m = r \<and> (\<exists>t. segs = p @ t \<and> node_holds nd' t sid))"
proof -
  have "stored (H(n \<mapsto> nd')) m segs sid \<longleftrightarrow>
      (\<exists>q t k. segs = q @ t \<and> follow H m q = Some k \<and>
        (if k = n then node_holds nd' t sid else holds H k t sid))"
    unfolding stored_iff pool_local(2) [OF ok nd nd'] holds_upd by (rule refl)
  also have "\<dots> \<longleftrightarrow> (\<exists>q t k. segs = q @ t \<and> follow H m q = Some k \<and> k \<noteq> n \<and> holds H k t sid) \<or>
      (\<exists>q t. segs = q @ t \<and> follow H m q = Some n \<and> node_holds nd' t sid)"
    by (auto split: if_splits)
  also have "(\<exists>q t. segs = q @ t \<and> follow H m q = Some n \<and> node_holds nd' t sid) \<longleftrightarrow>
      m = r \<and> (\<exists>t. segs = p @ t \<and> node_holds nd' t sid)"
    using follow_unique [OF ok m r(1) _ r(2)] r(2) by blast
  finally show ?thesis .
qed

lemma pool_unlink:
  assumes ok: "pool_ok H R F" and nd: "H n = Some nd" "n \<notin> F" and c: "child nd s = Some c"
    and cd: "H c = Some cd" "is_reclaimable cd"
    and nd': "child nd' = (child nd)(s := None)" "node_holds nd' = node_holds nd"
      "length (double_star_subs nd') = length (double_star_suffixes nd')"
  shows "pool_ok (H(n \<mapsto> nd', c \<mapsto> node_new)) R (insert c F)"
    "stored (H(n \<mapsto> nd', c \<mapsto> node_new)) = stored H" "c \<notin> F" "c \<noteq> n"
    "follow H r p = Some n \<Longrightarrow> r \<in> ran R \<Longrightarrow> p = q @ t \<Longrightarrow> follow H r q = Some k \<Longrightarrow>
       follow (H(n \<mapsto> nd', c \<mapsto> node_new)) r q = Some k"
proof -
  let ?H = "H(n \<mapsto> nd', c \<mapsto> node_new)"
  have en: "edge H n s = Some c" using nd c by (simp add: edge_def)
  show cF: "c \<notin> F" using pool_okD(2) [OF ok en] by simp
  have empty: "child cd t = None" "\<not> node_holds cd t' sid" for t t' sid
    using cd(2) by (cases t; simp add: is_reclaimable_def)
      (cases "(cd, t', sid)" rule: node_holds.cases; use cd(2) in \<open>simp add: is_reclaimable_def\<close>)
  show cn: "c \<noteq> n" using c nd cd empty by auto
  have e: "edge ?H m t = (if m = n \<and> t = s then None else edge H m t)" for m t
    using nd cn cd empty by (auto simp: edge_upd nd'(1)) (auto simp: edge_def)
  have h: "holds ?H = holds H"
    using nd cn cd empty by (intro ext) (auto simp: holds_upd nd'(2) holds_def)
  have blank: "\<not> stored H c q sid" for q sid
    by (cases q) (use cd empty in \<open>simp_all add: holds_def edge_def del: node_holds.simps\<close>)
  have inc: "m = n \<and> t = s" if "edge H m t = Some c" for m t
    using pool_okD(3) [OF ok en that] by simp
  show "pool_ok ?H R (insert c F)"
    using ok nd nd'(3) cn inc pool_okD(2) [OF ok en] unfolding pool_ok_def e
    by (auto simp: node_new_def split: if_splits)
  have "stored ?H m q sid = stored H m q sid" for m q sid
    by (induction q arbitrary: m) (use en blank in \<open>auto simp: h e\<close>)
  then show "stored ?H = stored H" by (intro ext)
  have "follow ?H r q = Some k" if r: "r \<in> ran R" "follow H r p = Some n"
    and "follow H r q = Some k" "\<exists>t. p = q @ t" for q k
    using that(3,4)
  proof (induction q arbitrary: k rule: rev_induct)
    case (snoc t q)
    then obtain m where m: "follow H r q = Some m" "edge H m t = Some k" by (auto simp: follow_snoc)
    have "m \<noteq> n"
      using follow_unique [OF ok r(1) r(1) m(1)] r(2) snoc.prems(2) by auto
    then have "edge ?H m t = Some k" using m(2) unfolding e by simp
    moreover have "follow ?H r q = Some m" by (rule snoc.IH [OF m(1)]) (use snoc.prems(2) in auto)
    ultimately show ?case unfolding follow_snoc by blast
  qed simp
  then show "follow ?H r q = Some k" if "follow H r p = Some n" "r \<in> ran R" "p = q @ t" "follow H r q = Some k"
    using that by blast
qed

end
