(* ===== verification/Subscription_Trie.thy ===== *)
theory Subscription_Trie
  imports Subscriptions
begin

text \<open>
  Insertion into and removal from the subscription trie (\<^verbatim>\<open>insert_into_trie\<close> and
  \<^verbatim>\<open>remove_from_trie\<close> in \<^verbatim>\<open>src/runtime/subscriptions.rs\<close>). Both run without a
  panic on every well-formed pool, keep it well-formed, and change exactly one entry of the
  subscriptions stored below the roots, whatever slots the free list hands out.
\<close>

section \<open>Pools\<close>

abbreviation roots :: "subscription_index \<Rightarrow> route_family \<rightharpoonup> node_id" where
  "roots self \<equiv> map_of (family_roots self)"

definition index_pool :: "subscription_index \<Rightarrow> bool" where
  "index_pool self \<longleftrightarrow> pool_ok (node_at self) (roots self) (set (free_nodes self)) \<and>
     distinct (free_nodes self) \<and> length (nodes self) \<le> 2 ^ 32"

text \<open>What the node operations leave alone.\<close>

definition same_frame :: "subscription_index \<Rightarrow> subscription_index \<Rightarrow> bool" where
  "same_frame self self' \<longleftrightarrow> family_roots self' = family_roots self \<and>
     index_cache self' = index_cache self \<and> interner self' = interner self"

lemma same_frame_refl [simp]: "same_frame self self"
  by (simp add: same_frame_def)

lemma same_frame_trans: "same_frame a b \<Longrightarrow> same_frame b c \<Longrightarrow> same_frame a c"
  by (simp add: same_frame_def)

lemma unat_eq_iff: "unat (a :: 'a::len word) = unat b \<longleftrightarrow> a = b"
  by (auto intro: unsigned_word_eqI)

lemma node_at_update:
  "unat n < length (nodes self) \<Longrightarrow>
     node_at (self\<lparr>nodes := (nodes self)[unat n := nd]\<rparr>) = (node_at self)(n \<mapsto> nd)"
  by (rule ext) (auto simp: node_at_def nth_list_update unat_eq_iff)

lemma node_at_SomeD: "node_at self n = Some nd \<Longrightarrow> unat n < length (nodes self)"
  by (simp add: node_at_def split: if_splits)

lemma node_at_frame [simp]: "node_at (self\<lparr>free_nodes := f\<rparr>) = node_at self"
  "node_at (self\<lparr>family_roots := r\<rparr>) = node_at self"
  "node_at (self\<lparr>index_cache := a, interner := b\<rparr>) = node_at self"
  by (simp_all add: node_at_def fun_eq_iff)

lemma modify_node_ok:
  assumes "node_at self n = Some nd"
  obtains self' where "modify_node self n f = Some self'" "node_at self' = (node_at self)(n \<mapsto> f nd)"
    "free_nodes self' = free_nodes self" "length (nodes self') = length (nodes self)" "same_frame self self'"
  using assms by (simp add: modify_node_def node_at_update node_at_SomeD same_frame_def)

lemma alloc_node_ok:
  assumes ok: "index_pool self" and room: "length (nodes self) < 2 ^ 32"
  obtains c self' where "alloc_node self = Some (c, self')"
    "node_at self' = (node_at self)(c \<mapsto> node_new)" "c \<in> set (free_nodes self) \<or> node_at self c = None"
    "set (free_nodes self') = set (free_nodes self) - {c}" "distinct (free_nodes self')"
    "length (nodes self') \<le> Suc (length (nodes self))" "same_frame self self'"
proof (cases "free_nodes self" rule: rev_cases)
  case Nil
  let ?c = "usize_to_node_id_saturating (length (nodes self))"
  let ?self = "self\<lparr>nodes := nodes self @ [node_new]\<rparr>"
  have c: "unat ?c = length (nodes self)"
    using room unat_try_from_usize [of "length (nodes self)", where 'a = 32]
    by (simp add: usize_to_node_id_saturating_def try_from_usize_def)
  have "node_at ?self = (node_at self)(?c \<mapsto> node_new)"
    using c by (intro ext) (auto simp: node_at_def nth_append less_Suc_eq unat_eq_iff [symmetric])
  moreover have "node_at self ?c = None" using c by (simp add: node_at_def)
  ultimately show thesis
    using Nil by (intro that [of ?c ?self]) (simp_all add: alloc_node_def same_frame_def)
next
  case (snoc rest c)
  with ok have "node_at self c = Some node_new" "distinct (rest @ [c])"
    by (auto simp: index_pool_def dest: pool_okD(6))
  moreover from this(1) obtain self' where
    "modify_node (self\<lparr>free_nodes := rest\<rparr>) c reset_node = Some self'"
    "node_at self' = (node_at self)(c \<mapsto> node_new)" "free_nodes self' = rest"
    "length (nodes self') = length (nodes self)" "same_frame (self\<lparr>free_nodes := rest\<rparr>) self'"
    using modify_node_ok [of "self\<lparr>free_nodes := rest\<rparr>" c node_new reset_node] by auto
  ultimately show thesis
    using snoc by (intro that [of c self']) (auto simp: alloc_node_def same_frame_def)
qed

lemma alloc_node_pool:
  assumes ok: "index_pool self" and room: "length (nodes self) < 2 ^ 32"
  obtains c self' where "alloc_node self = Some (c, self')" "index_pool self'" "c \<notin> set (free_nodes self')"
    "node_at self' = (node_at self)(c \<mapsto> node_new)"
    "c \<in> set (free_nodes self) \<or> node_at self c = None" "c \<notin> ran (roots self)"
    "\<nexists>m s. edge (node_at self') m s = Some c"
    "stored (node_at self') = stored (node_at self)" "follow (node_at self') = follow (node_at self)"
    "set (free_nodes self') = set (free_nodes self) - {c}"
    "length (nodes self') \<le> Suc (length (nodes self))" "same_frame self self'"
proof -
  from alloc_node_ok [OF assms] obtain c self' where a: "alloc_node self = Some (c, self')"
    "node_at self' = (node_at self)(c \<mapsto> node_new)" "c \<in> set (free_nodes self) \<or> node_at self c = None"
    "set (free_nodes self') = set (free_nodes self) - {c}" "distinct (free_nodes self')"
    "length (nodes self') \<le> Suc (length (nodes self))" "same_frame self self'" .
  from ok have "pool_ok (node_at self) (roots self) (set (free_nodes self))" by (simp add: index_pool_def)
  note p = pool_alloc [OF this a(3), folded a(2)]
  have "index_pool self'"
    using p(1) a room by (simp add: index_pool_def same_frame_def)
  with that a p show thesis by auto
qed

text \<open>A new child: \<open>g\<close> is how the source writes its identifier into the parent.\<close>

lemma alloc_link:
  assumes ok: "index_pool self" and room: "length (nodes self) < 2 ^ 32"
    and n: "node_at self n = Some nd" "n \<notin> set (free_nodes self)" "child nd s = None"
    and g: "\<And>c. child (g c nd) = (child nd)(s := Some c)" "\<And>c. node_holds (g c nd) = node_holds nd"
      "\<And>c. double_star_subs (g c nd) = double_star_subs nd"
      "\<And>c. double_star_suffixes (g c nd) = double_star_suffixes nd"
  obtains c self1 self2 where "alloc_node self = Some (c, self1)" "modify_node self1 n (g c) = Some self2"
    "index_pool self2" "node_at self2 n = Some (g c nd)"
    "stored (node_at self2) = stored (node_at self)"
    "\<And>m q k. follow (node_at self) m q = Some k \<Longrightarrow> follow (node_at self2) m q = Some k"
    "length (nodes self2) \<le> Suc (length (nodes self))" "same_frame self self2"
proof -
  from alloc_node_pool [OF ok room] obtain c self1 where a: "alloc_node self = Some (c, self1)" "index_pool self1"
    "c \<notin> set (free_nodes self1)" "node_at self1 = (node_at self)(c \<mapsto> node_new)"
    "c \<in> set (free_nodes self) \<or> node_at self c = None" "c \<notin> ran (roots self)"
    "\<nexists>m s. edge (node_at self1) m s = Some c"
    "stored (node_at self1) = stored (node_at self)" "follow (node_at self1) = follow (node_at self)"
    "set (free_nodes self1) = set (free_nodes self) - {c}"
    "length (nodes self1) \<le> Suc (length (nodes self))" "same_frame self self1" .
  have nc: "n \<noteq> c" using a(5) n by auto
  then have n1: "node_at self1 n = Some nd" using a(4) n by simp
  from modify_node_ok [OF n1, of "g c"] obtain self2 where m: "modify_node self1 n (g c) = Some self2"
    "node_at self2 = (node_at self1)(n \<mapsto> g c nd)" "free_nodes self2 = free_nodes self1"
    "length (nodes self2) = length (nodes self1)" "same_frame self1 self2" .
  have pool: "pool_ok (node_at self1) (roots self1) (set (free_nodes self1))"
    using a(2) by (simp add: index_pool_def)
  have par: "length (double_star_subs (g c nd)) = length (double_star_suffixes (g c nd))"
    using pool_okD(1) [OF pool n1] by (simp add: g)
  have nF: "n \<notin> set (free_nodes self1)" using n a(10) by simp
  have c: "node_at self1 c = Some node_new" "c \<notin> ran (roots self1)"
    using a(4,6,12) by (simp_all add: same_frame_def)
  note l = pool_link [OF pool n1 nF nc n(3) c(1) a(3) c(2) a(7) g(1,2) par, folded m(2)]
  have "index_pool self2"
    using a(2) l(1) m by (simp add: index_pool_def same_frame_def)
  moreover have "stored (node_at self2) = stored (node_at self)" using l(2) a(8) by simp
  moreover have "follow (node_at self2) m q = Some k" if "follow (node_at self) m q = Some k" for m q k
    using l(3) that a(9) by simp
  moreover have "length (nodes self2) \<le> Suc (length (nodes self))" using m(4) a(11) by simp
  moreover have "node_at self2 n = Some (g c nd)" using m(2) by simp
  ultimately show thesis
    using that [of c self1 self2] a(1) m(1) same_frame_trans [OF a(12) m(5)] by blast
qed

lemma child_single_wildcard:
  "child (nd\<lparr>single_wildcard := c\<rparr>) = (child nd)(Compiled_Star := c)"
proof (rule ext)
  fix s show "child (nd\<lparr>single_wildcard := c\<rparr>) s = ((child nd)(Compiled_Star := c)) s" by (cases s) auto
qed

lemma child_exact:
  "child (nd\<lparr>exact := e\<rparr>) (Exact s) = map_of e s"
  "child (nd\<lparr>exact := e\<rparr>) Compiled_Star = single_wildcard nd"
  by simp_all

lemma child_exact_update:
  "child (nd\<lparr>exact := AList.update i c (exact nd)\<rparr>) = (child nd)(Exact i := Some c)"
proof (rule ext)
  fix s show "child (nd\<lparr>exact := AList.update i c (exact nd)\<rparr>) s = ((child nd)(Exact i := Some c)) s"
    by (cases s) (auto simp: update_conv')
qed

lemma child_exact_delete:
  "child (nd\<lparr>exact := AList.delete i (exact nd)\<rparr>) = (child nd)(Exact i := None)"
proof (rule ext)
  fix s show "child (nd\<lparr>exact := AList.delete i (exact nd)\<rparr>) s = ((child nd)(Exact i := None)) s"
    by (cases s) (auto simp: delete_conv')
qed

lemma node_holds_edges [simp]:
  "node_holds (nd\<lparr>single_wildcard := c\<rparr>) = node_holds nd" "node_holds (nd\<lparr>exact := e\<rparr>) = node_holds nd"
proof -
  have "node_holds (nd\<lparr>single_wildcard := c\<rparr>) segs sid = node_holds nd segs sid"
    "node_holds (nd\<lparr>exact := e\<rparr>) segs sid = node_holds nd segs sid" for segs sid
    by (cases "(nd, segs, sid)" rule: node_holds.cases; simp)+
  then show "node_holds (nd\<lparr>single_wildcard := c\<rparr>) = node_holds nd" "node_holds (nd\<lparr>exact := e\<rparr>) = node_holds nd"
    by (auto simp: fun_eq_iff)
qed

section \<open>Insertion\<close>

text \<open>The state after an insertion at the node that \<open>p\<close> leads to from the root \<open>r\<close>.\<close>

definition entry_added :: "subscription_index \<Rightarrow> subscription_index \<Rightarrow> node_id
    \<Rightarrow> compiled_pattern_segment list \<Rightarrow> subscription_id \<Rightarrow> bool" where
  "entry_added self self' r segs sid \<longleftrightarrow> index_pool self' \<and> same_frame self self' \<and>
     (\<forall>m \<in> ran (roots self). \<forall>t i. stored (node_at self') m t i \<longleftrightarrow>
        stored (node_at self) m t i \<or> m = r \<and> t = segs \<and> i = sid)"

lemma node_holds_add_terminal:
  "node_holds (add_terminal sid nd) t i \<longleftrightarrow> node_holds nd t i \<or> t = [] \<and> i = sid"
  by (cases "(nd, t, i)" rule: node_holds.cases) (auto simp: add_terminal_def)

lemma node_holds_add_double_star:
  assumes "length (double_star_subs nd) = length (double_star_suffixes nd)"
  shows "node_holds (add_double_star sid suffix nd) t i \<longleftrightarrow>
    node_holds nd t i \<or> t = Compiled_DoubleStar # suffix \<and> i = sid"
  using assms by (cases "(nd, t, i)" rule: node_holds.cases)
    (auto simp: add_double_star_def list_ex_iff)

lemma child_local [simp]:
  "child (add_terminal sid nd) = child nd" "child (remove_terminal sid nd) = child nd"
  "child (add_double_star sid suffix nd) = child nd"
  "child (nd\<lparr>double_star_subs := a, double_star_suffixes := b\<rparr>) = child nd"
proof -
  have "child (add_terminal sid nd) s = child nd s" "child (remove_terminal sid nd) s = child nd s"
    "child (add_double_star sid suffix nd) s = child nd s"
    "child (nd\<lparr>double_star_subs := a, double_star_suffixes := b\<rparr>) s = child nd s" for s
    by (cases s; simp add: add_terminal_def remove_terminal_def add_double_star_def Let_def)+
  then show "child (add_terminal sid nd) = child nd" "child (remove_terminal sid nd) = child nd"
    "child (add_double_star sid suffix nd) = child nd"
    "child (nd\<lparr>double_star_subs := a, double_star_suffixes := b\<rparr>) = child nd"
    by (auto simp: fun_eq_iff)
qed

lemma stored_split:
  assumes "node_at self n = Some nd"
  shows "stored (node_at self) m segs sid \<longleftrightarrow>
    (\<exists>q t k. segs = q @ t \<and> follow (node_at self) m q = Some k \<and> k \<noteq> n \<and> holds (node_at self) k t sid) \<or>
    (\<exists>q t. segs = q @ t \<and> follow (node_at self) m q = Some n \<and> node_holds nd t sid)"
proof -
  have "holds (node_at self) n t sid = node_holds nd t sid" for t using assms by (simp add: holds_def)
  then show ?thesis unfolding stored_iff by metis
qed

lemma modify_local:
  assumes ok: "index_pool self" and r: "r \<in> ran (roots self)" "follow (node_at self) r p = Some n"
    and nd: "node_at self n = Some nd"
    and f: "child (f nd) = child nd" "length (double_star_subs (f nd)) = length (double_star_suffixes (f nd))"
  obtains self' where "modify_node self n f = Some self'" "index_pool self'" "same_frame self self'"
    "length (nodes self') = length (nodes self)" "edge (node_at self') = edge (node_at self)"
    "follow (node_at self') = follow (node_at self)"
    "\<And>m t i. m \<in> ran (roots self) \<Longrightarrow> stored (node_at self') m t i \<longleftrightarrow>
       (\<exists>q u k. t = q @ u \<and> follow (node_at self) m q = Some k \<and> k \<noteq> n \<and> holds (node_at self) k u i) \<or>
       m = r \<and> (\<exists>u. t = p @ u \<and> node_holds (f nd) u i)"
proof -
  have pool: "pool_ok (node_at self) (roots self) (set (free_nodes self))" using ok by (simp add: index_pool_def)
  from follow_live [OF pool r] have nF: "n \<notin> set (free_nodes self)" by simp
  from modify_node_ok [OF nd, of f] obtain self' where m: "modify_node self n f = Some self'"
    "node_at self' = (node_at self)(n \<mapsto> f nd)" "free_nodes self' = free_nodes self"
    "length (nodes self') = length (nodes self)" "same_frame self self'" .
  note l = pool_local [OF pool nd nF f, folded m(2)]
  have "index_pool self'"
    using ok l(1) m by (simp add: index_pool_def same_frame_def)
  then show thesis
    using m l(2,3) stored_local [OF pool r _ nd nF f, folded m(2)] by (intro that [of self']) blast+
qed

lemma entry_added_local:
  assumes ok: "index_pool self" and r: "r \<in> ran (roots self)" "follow (node_at self) r p = Some n"
    and nd: "node_at self n = Some nd"
    and f: "child (f nd) = child nd" "length (double_star_subs (f nd)) = length (double_star_suffixes (f nd))"
      "\<And>t i. node_holds (f nd) t i \<longleftrightarrow> node_holds nd t i \<or> t = segs \<and> i = sid"
  obtains self' where "modify_node self n f = Some self'" "entry_added self self' r (p @ segs) sid"
    "length (nodes self') = length (nodes self)"
proof -
  have pool: "pool_ok (node_at self) (roots self) (set (free_nodes self))" using ok by (simp add: index_pool_def)
  obtain self' where m: "modify_node self n f = Some self'"
    "index_pool self'" "same_frame self self'" "length (nodes self') = length (nodes self)"
    and st: "\<And>m t i. m \<in> ran (roots self) \<Longrightarrow> stored (node_at self') m t i \<longleftrightarrow>
       (\<exists>q u k. t = q @ u \<and> follow (node_at self) m q = Some k \<and> k \<noteq> n \<and> holds (node_at self) k u i) \<or>
       m = r \<and> (\<exists>u. t = p @ u \<and> node_holds (f nd) u i)"
    by (rule modify_local [of self r p n nd f, OF ok r nd f(1,2)]) blast
  have "(\<exists>q u. t = q @ u \<and> follow (node_at self) m q = Some n \<and> node_holds nd u i) \<longleftrightarrow>
      m = r \<and> (\<exists>u. t = p @ u \<and> node_holds nd u i)" if "m \<in> ran (roots self)" for m t i
    using follow_unique [OF pool that r(1) _ r(2)] r(2) by blast
  then have "stored (node_at self') m t i \<longleftrightarrow> stored (node_at self) m t i \<or> m = r \<and> t = p @ segs \<and> i = sid"
    if "m \<in> ran (roots self)" for m t i
    unfolding st [OF that] stored_split [OF nd] f(3) using that by blast
  with m show thesis by (intro that [of self']) (auto simp: entry_added_def)
qed

lemma entry_added_after_link:
  assumes "entry_added self2 self' r segs sid" "same_frame self self2"
    "stored (node_at self2) = stored (node_at self)"
  shows "entry_added self self' r segs sid"
  using assms unfolding entry_added_def by (auto simp: same_frame_def)

lemma insert_into_trie_ok:
  assumes "index_pool self" "r \<in> ran (roots self)" "follow (node_at self) r p = Some n"
    "length (nodes self) + length segs \<le> 2 ^ 32"
  shows "\<exists>self'. insert_into_trie self n segs sid = Some self' \<and> entry_added self self' r (p @ segs) sid \<and>
    length (nodes self') \<le> length (nodes self) + length segs"
  using assms
proof (induction segs arbitrary: self n p)
  case Nil
  let ?pool = "pool_ok (node_at self) (roots self) (set (free_nodes self))"
  have pool: ?pool using Nil by (simp add: index_pool_def)
  from follow_live [OF pool Nil(2,3)] obtain nd where nd: "node_at self n = Some nd" by auto
  have "length (double_star_subs (add_terminal sid nd)) = length (double_star_suffixes (add_terminal sid nd))"
    using pool_okD(1) [OF pool nd] by (simp add: add_terminal_def)
  from entry_added_local [where f = "add_terminal sid", OF Nil(1-3) nd child_local(1) this node_holds_add_terminal]
  show ?case by (metis insert_into_trie.simps(1) le_add1)
next
  case (Cons s segs)
  have pool: "pool_ok (node_at self) (roots self) (set (free_nodes self))"
    using Cons.prems by (simp add: index_pool_def)
  from follow_live [OF pool Cons.prems(2,3)] obtain nd where nd: "node_at self n = Some nd"
    and nF: "n \<notin> set (free_nodes self)" by auto
  note par = pool_okD(1) [OF pool nd]
  have room: "length (nodes self) < 2 ^ 32" using Cons.prems(4) by simp
  have step: "\<exists>self'. insert_into_trie self2 c segs sid = Some self' \<and>
      entry_added self self' r (p @ s # segs) sid \<and> length (nodes self') \<le> length (nodes self) + length (s # segs)"
    if "index_pool self2" "same_frame self self2" "stored (node_at self2) = stored (node_at self)"
      "follow (node_at self2) r p = Some n" "edge (node_at self2) n s = Some c"
      "length (nodes self2) \<le> Suc (length (nodes self))" for self2 c
  proof -
    have "follow (node_at self2) r (p @ [s]) = Some c" using that by (auto simp: follow_snoc)
    with Cons.IH [of self2 "p @ [s]" c] that Cons.prems(2,4) obtain self' where
      "insert_into_trie self2 c segs sid = Some self'" "entry_added self2 self' r (p @ s # segs) sid"
      "length (nodes self') \<le> length (nodes self2) + length segs"
      by (auto simp: same_frame_def)
    with entry_added_after_link that show ?thesis by fastforce
  qed
  show ?case
  proof (cases s)
    case Compiled_DoubleStar
    have "length (double_star_subs (add_double_star sid segs nd)) =
        length (double_star_suffixes (add_double_star sid segs nd))"
      using par by (simp add: add_double_star_def)
    from entry_added_local [where f = "add_double_star sid segs", OF Cons.prems(1-3) nd child_local(3) this
        node_holds_add_double_star [OF par]]
    show ?thesis by (metis Compiled_DoubleStar insert_into_trie.simps(2) le_add1)
  next
    case Compiled_Star
    show ?thesis
    proof (cases "single_wildcard nd")
      case None
      then have "child nd (Compiled_Star) = None" by simp
      from alloc_link [OF Cons.prems(1) room nd nF this, where g = "\<lambda>c nd. nd\<lparr>single_wildcard := Some c\<rparr>"]
      obtain c self1 self2 where a: "alloc_node self = Some (c, self1)"
        "modify_node self1 n (\<lambda>nd. nd\<lparr>single_wildcard := Some c\<rparr>) = Some self2" "index_pool self2"
        "node_at self2 n = Some (nd\<lparr>single_wildcard := Some c\<rparr>)" "stored (node_at self2) = stored (node_at self)"
        "\<And>m q k. follow (node_at self) m q = Some k \<Longrightarrow> follow (node_at self2) m q = Some k"
        "length (nodes self2) \<le> Suc (length (nodes self))" "same_frame self self2"
        by (simp add: child_single_wildcard) blast
      from a(1-5,7,8) a(6) [OF Cons.prems(3)] step [of self2 c] Compiled_Star show ?thesis
        by (simp add: nd None edge_def)
    next
      case (Some c)
      with step [of self c] Cons.prems Compiled_Star show ?thesis by (simp add: nd edge_def)
    qed
  next
    case (Exact i)
    show ?thesis
    proof (cases "map_of (exact nd) i")
      case None
      then have "child nd (Exact i) = None" by simp
      from alloc_link [OF Cons.prems(1) room nd nF this, where g = "\<lambda>c nd. nd\<lparr>exact := AList.update i c (exact nd)\<rparr>"]
      obtain c self1 self2 where a: "alloc_node self = Some (c, self1)"
        "modify_node self1 n (\<lambda>nd. nd\<lparr>exact := AList.update i c (exact nd)\<rparr>) = Some self2" "index_pool self2"
        "node_at self2 n = Some (nd\<lparr>exact := AList.update i c (exact nd)\<rparr>)" "stored (node_at self2) = stored (node_at self)"
        "\<And>m q k. follow (node_at self) m q = Some k \<Longrightarrow> follow (node_at self2) m q = Some k"
        "length (nodes self2) \<le> Suc (length (nodes self))" "same_frame self self2"
        by (simp add: child_exact_update) blast
      from a(1-5,7,8) a(6) [OF Cons.prems(3)] step [of self2 c] Exact show ?thesis
        by (simp add: nd None edge_def update_conv')
    next
      case (Some c)
      with step [of self c] Cons.prems Exact show ?thesis by (simp add: nd edge_def)
    qed
  qed
qed

section \<open>Removal\<close>

lemma stored_append: "follow H r p = Some n \<Longrightarrow> stored H r (p @ t) i \<Longrightarrow> stored H n t i"
proof (induction p arbitrary: r)
  case (Cons s p)
  then obtain c where c: "edge H r s = Some c" "follow H c p = Some n" by (auto simp: bind_eq_Some_conv)
  then have "s \<noteq> Compiled_DoubleStar" by (auto simp: edge_def bind_eq_Some_conv)
  then have "\<not> holds H r (s # p @ t) i" by (cases s) (auto simp: holds_def)
  with c Cons show ?case by auto
qed simp

lemma swap_remove_split:
  "swap_remove (a @ x # b) (length a) = (if b = [] then a else a @ last b # butlast b)"
  by (cases b rule: rev_cases) (auto simp: swap_remove_def list_update_append butlast_append)

lemma set_swap_remove: "i < length xs \<Longrightarrow> insert (xs ! i) (set (swap_remove xs i)) = set xs"
proof -
  assume "i < length xs"
  then obtain a x b where "xs = a @ x # b" "i = length a"
    by (metis id_take_nth_drop length_take less_imp_le_nat min.absorb2)
  then show ?thesis
    using swap_remove_split [of a x b] by (cases b rule: rev_cases) auto
qed

lemma length_swap_remove [simp]: "length (swap_remove xs i) = length xs - 1"
  by (simp add: swap_remove_def)

lemma nth_swap_remove: "j < i \<Longrightarrow> i < length xs \<Longrightarrow> swap_remove xs i ! j = xs ! j"
  by (simp add: swap_remove_def nth_butlast)

lemma zip_swap_remove:
  assumes "length xs = length ys" "i < length xs"
  shows "zip (swap_remove xs i) (swap_remove ys i) = swap_remove (zip xs ys) i"
proof -
  have "last (zip xs ys) = (last xs, last ys)"
    using assms by (metis last_zip length_0_conv not_less_zero)
  then show ?thesis
    using assms by (simp add: swap_remove_def butlast_conv_take take_zip update_zip)
qed

lemma remove_double_star_loop_ok:
  assumes "length subs = length suffixes" "\<forall>j < index. (subs ! j, suffixes ! j) \<noteq> (sid, suffix)" "index \<le> length subs"
  shows "\<exists>subs' suffixes'. remove_double_star_loop sid suffix index subs suffixes = Some (subs', suffixes') \<and>
    length subs' = length suffixes' \<and> set (zip subs' suffixes') = set (zip subs suffixes) - {(sid, suffix)}"
  using assms
proof (induction sid suffix index subs suffixes rule: remove_double_star_loop.induct)
  case (1 sid suffix index subs suffixes)
  show ?case
  proof (cases "index < length subs")
    case False
    with "1.prems" have "(sid, suffix) \<notin> set (zip subs suffixes)"
      by (auto simp: set_zip)
    with False "1.prems" show ?thesis by (subst remove_double_star_loop.simps) auto
  next
    case inside: True
    show ?thesis
    proof (cases "subs ! index = sid \<and> suffixes ! index = suffix")
      case True
      have "insert (sid, suffix) (set (zip (swap_remove subs index) (swap_remove suffixes index))) =
          set (zip subs suffixes)"
        using set_swap_remove [of index "zip subs suffixes"] True inside "1.prems"(1)
        by (simp add: zip_swap_remove)
      then have gone: "set (zip (swap_remove subs index) (swap_remove suffixes index)) - {(sid, suffix)} =
          set (zip subs suffixes) - {(sid, suffix)}" by blast
      have "\<forall>j < index. (swap_remove subs index ! j, swap_remove suffixes index ! j) \<noteq> (sid, suffix)"
        using "1.prems" inside by (simp add: nth_swap_remove)
      with "1.IH"(1) True inside "1.prems" gone show ?thesis
        by (subst remove_double_star_loop.simps) auto
    next
      case False
      with "1.prems" have "\<forall>j < Suc index. (subs ! j, suffixes ! j) \<noteq> (sid, suffix)"
        by (auto simp: less_Suc_eq)
      with "1.IH"(2,3) False inside "1.prems" show ?thesis
        by (subst remove_double_star_loop.simps) auto
    qed
  qed
qed

lemma remove_double_star_ok:
  assumes "length (double_star_subs nd) = length (double_star_suffixes nd)"
  obtains nd' where "remove_double_star sid suffix nd = Some nd'" "child nd' = child nd"
    "length (double_star_subs nd') = length (double_star_suffixes nd')"
    "\<And>t i. node_holds nd' t i \<longleftrightarrow> node_holds nd t i \<and> \<not> (t = Compiled_DoubleStar # suffix \<and> i = sid)"
proof -
  from remove_double_star_loop_ok [OF assms, of 0 sid suffix] obtain subs suffixes where
    l: "remove_double_star_loop sid suffix 0 (double_star_subs nd) (double_star_suffixes nd) = Some (subs, suffixes)"
      "length subs = length suffixes"
      "set (zip subs suffixes) = set (zip (double_star_subs nd) (double_star_suffixes nd)) - {(sid, suffix)}"
    by auto
  let ?nd = "nd\<lparr>double_star_subs := subs, double_star_suffixes := suffixes\<rparr>"
  have "node_holds ?nd t i \<longleftrightarrow> node_holds nd t i \<and> \<not> (t = Compiled_DoubleStar # suffix \<and> i = sid)" for t i
    by (cases "(nd, t, i)" rule: node_holds.cases) (auto simp: l(3))
  with l(1,2) show thesis by (intro that [of ?nd]) (simp_all add: remove_double_star_def)
qed

lemma node_holds_remove_terminal:
  "node_holds (remove_terminal sid nd) t i \<longleftrightarrow> node_holds nd t i \<and> \<not> (t = [] \<and> i = sid)"
  by (cases "(nd, t, i)" rule: node_holds.cases) (auto simp: remove_terminal_def)

definition entry_removed :: "subscription_index \<Rightarrow> subscription_index \<Rightarrow> node_id
    \<Rightarrow> compiled_pattern_segment list \<Rightarrow> subscription_id \<Rightarrow> bool" where
  "entry_removed self self' r segs sid \<longleftrightarrow> index_pool self' \<and> same_frame self self' \<and>
     length (nodes self') = length (nodes self) \<and>
     (\<forall>m \<in> ran (roots self). \<forall>t i. stored (node_at self') m t i \<longleftrightarrow>
        stored (node_at self) m t i \<and> \<not> (m = r \<and> t = segs \<and> i = sid))"

text \<open>The nodes on the way from the root to the place of a removal stay where they are.\<close>

definition path_kept :: "subscription_index \<Rightarrow> subscription_index \<Rightarrow> node_id \<Rightarrow> compiled_pattern_segment list \<Rightarrow> bool" where
  "path_kept self self' r p \<longleftrightarrow> (\<forall>q t k. p = q @ t \<longrightarrow>
     follow (node_at self) r q = Some k \<longrightarrow> follow (node_at self') r q = Some k)"

lemma path_kept_trans: "path_kept a b r p \<Longrightarrow> path_kept b c r p \<Longrightarrow> path_kept a c r p"
  by (simp add: path_kept_def)

lemma path_kept_take: "path_kept a b r (p @ q) \<Longrightarrow> path_kept a b r p"
  by (simp add: path_kept_def)

lemma follow_no_double_star: "follow H n q = Some k \<Longrightarrow> Compiled_DoubleStar \<notin> set q"
  by (induction q arbitrary: n) (auto simp: bind_eq_Some_conv edge_def)

lemma node_holds_shape: "node_holds nd u i \<Longrightarrow> u = [] \<or> hd u = Compiled_DoubleStar"
  by (cases "(nd, u, i)" rule: node_holds.cases) auto

lemma split_unique:
  assumes "p @ u = q @ v" "x \<notin> set p" "x \<notin> set q" "u = [] \<or> hd u = x" "v = [] \<or> hd v = x"
  shows "p = q \<and> u = v"
proof -
  have pre: "takeWhile (\<lambda>y. y \<noteq> x) (a @ b) = a" if "x \<notin> set a" "b = [] \<or> hd b = x" for a b
    using that by (cases b) (auto simp: takeWhile_append)
  from assms pre [of p u] pre [of q v] have "p = q" by auto
  with assms(1) show ?thesis by simp
qed

lemma minus_entry:
  "(A \<Longrightarrow> \<not> (m = r \<and> t = p @ s)) \<Longrightarrow>
     (A \<or> m = r \<and> (\<exists>u. t = p @ u \<and> P u \<and> \<not> (u = s \<and> i = j))) \<longleftrightarrow>
     (A \<or> m = r \<and> (\<exists>u. t = p @ u \<and> P u)) \<and> \<not> (m = r \<and> t = p @ s \<and> i = j)"
  by auto

lemma entry_removed_local:
  assumes ok: "index_pool self" and r: "r \<in> ran (roots self)" "follow (node_at self) r p = Some n"
    and nd: "node_at self n = Some nd"
    and f: "child (f nd) = child nd" "length (double_star_subs (f nd)) = length (double_star_suffixes (f nd))"
      "\<And>t i. node_holds (f nd) t i \<longleftrightarrow> node_holds nd t i \<and> \<not> (t = segs \<and> i = sid)"
    and shape: "segs = [] \<or> hd segs = Compiled_DoubleStar"
  obtains self' where "modify_node self n f = Some self'" "entry_removed self self' r (p @ segs) sid"
    "path_kept self self' r p"
proof -
  have pool: "pool_ok (node_at self) (roots self) (set (free_nodes self))" using ok by (simp add: index_pool_def)
  obtain self' where m: "modify_node self n f = Some self'" "index_pool self'" "same_frame self self'"
    "length (nodes self') = length (nodes self)" "follow (node_at self') = follow (node_at self)"
    and st: "\<And>m t i. m \<in> ran (roots self) \<Longrightarrow> stored (node_at self') m t i \<longleftrightarrow>
       (\<exists>q u k. t = q @ u \<and> follow (node_at self) m q = Some k \<and> k \<noteq> n \<and> holds (node_at self) k u i) \<or>
       m = r \<and> (\<exists>u. t = p @ u \<and> node_holds (f nd) u i)"
    by (rule modify_local [of self r p n nd f, OF ok r nd f(1,2)]) blast
  have here: "(\<exists>q u. t = q @ u \<and> follow (node_at self) m q = Some n \<and> node_holds nd u i) \<longleftrightarrow>
      m = r \<and> (\<exists>u. t = p @ u \<and> node_holds nd u i)" if "m \<in> ran (roots self)" for m t i
    using follow_unique [OF pool that r(1) _ r(2)] r(2) by blast
  have away: "\<not> (m = r \<and> q @ u = p @ segs)" if "m \<in> ran (roots self)" "follow (node_at self) m q = Some k" "k \<noteq> n"
    "holds (node_at self) k u i" for m q k u i
    using that r(2) split_unique [of q u p segs Compiled_DoubleStar] follow_no_double_star [OF that(2)]
      follow_no_double_star [OF r(2)] shape by (auto simp: holds_def dest: node_holds_shape)
  have "stored (node_at self') m t i \<longleftrightarrow> stored (node_at self) m t i \<and> \<not> (m = r \<and> t = p @ segs \<and> i = sid)"
    if "m \<in> ran (roots self)" for m t i
    unfolding st [OF that] stored_split [OF nd] here [OF that] f(3)
    by (rule minus_entry) (use away [OF that] in blast)
  with m r(2) show thesis by (intro that [of self']) (auto simp: entry_removed_def path_kept_def)
qed

lemma prune_child:
  assumes ok: "index_pool self" and r: "r \<in> ran (roots self)" "follow (node_at self) r p = Some n"
    and nd: "node_at self n = Some nd" "child nd s = Some c" and cd: "node_at self c = Some cd" "is_reclaimable cd"
    and g: "child (g nd) = (child nd)(s := None)" "node_holds (g nd) = node_holds nd"
      "double_star_subs (g nd) = double_star_subs nd" "double_star_suffixes (g nd) = double_star_suffixes nd"
  obtains self1 self2 where "modify_node self n g = Some self1" "release_node self1 c = Some self2"
    "index_pool self2" "same_frame self self2" "length (nodes self2) = length (nodes self)"
    "stored (node_at self2) = stored (node_at self)" "path_kept self self2 r p"
proof -
  have pool: "pool_ok (node_at self) (roots self) (set (free_nodes self))" using ok by (simp add: index_pool_def)
  from follow_live [OF pool r] have nF: "n \<notin> set (free_nodes self)" by simp
  have par: "length (double_star_subs (g nd)) = length (double_star_suffixes (g nd))"
    using pool_okD(1) [OF pool nd(1)] by (simp add: g)
  note u = pool_unlink [OF pool nd(1) nF nd(2) cd g(1,2) par]
  from modify_node_ok [OF nd(1), of g] obtain self1 where m: "modify_node self n g = Some self1"
    "node_at self1 = (node_at self)(n \<mapsto> g nd)" "free_nodes self1 = free_nodes self"
    "length (nodes self1) = length (nodes self)" "same_frame self self1" .
  from m(2) cd u(4) have "node_at self1 c = Some cd" by simp
  from modify_node_ok [OF this, of reset_node] obtain self2 where m2: "modify_node self1 c reset_node = Some self2"
    "node_at self2 = (node_at self1)(c \<mapsto> node_new)" "free_nodes self2 = free_nodes self1"
    "length (nodes self2) = length (nodes self1)" "same_frame self1 self2" by auto
  let ?self = "self2\<lparr>free_nodes := free_nodes self2 @ [c]\<rparr>"
  have heap: "node_at ?self = (node_at self)(n \<mapsto> g nd, c \<mapsto> node_new)" using m(2) m2(2) by simp
  have frame: "same_frame self ?self" using m(5) m2(5) by (simp add: same_frame_def)
  have "index_pool ?self"
    using u(1,3) ok m(3,4) m2(3,4) frame unfolding index_pool_def heap by (simp add: same_frame_def)
  moreover have "stored (node_at ?self) = stored (node_at self)" unfolding heap by (rule u(2))
  moreover have "path_kept self ?self r p"
    unfolding path_kept_def heap using u(5) [OF r(2,1)] by blast
  ultimately show thesis
    using that [of self1 ?self] m(1,4) m2(1,4) frame by (simp add: release_node_def)
qed

text \<open>The way back up from a removal below \<open>c\<close>, with or without pruning \<open>c\<close>.\<close>

lemma remove_child:
  assumes ok: "index_pool self" and r: "r \<in> ran (roots self)" "follow (node_at self) r p = Some n"
    and rec: "entry_removed self self1 r segs sid" "path_kept self self1 r (p @ [s])"
      "follow (node_at self) r (p @ [s]) = Some c"
    and g: "\<And>nd. child (g nd) = (child nd)(s := None)" "\<And>nd. node_holds (g nd) = node_holds nd"
      "\<And>nd. double_star_subs (g nd) = double_star_subs nd" "\<And>nd. double_star_suffixes (g nd) = double_star_suffixes nd"
  shows "\<exists>cd. node_at self1 c = Some cd \<and>
    (\<exists>self'. (if is_reclaimable cd then modify_node self1 n g \<bind> (\<lambda>self2. release_node self2 c) else Some self1) = Some self' \<and>
      entry_removed self self' r segs sid \<and> path_kept self self' r p)"
proof -
  have ok1: "index_pool self1" and frame: "same_frame self self1" using rec by (auto simp: entry_removed_def)
  have r1: "r \<in> ran (roots self1)" using r frame by (simp add: same_frame_def)
  have pool1: "pool_ok (node_at self1) (roots self1) (set (free_nodes self1))" using ok1 by (simp add: index_pool_def)
  have fn: "follow (node_at self1) r p = Some n" and fc: "follow (node_at self1) r (p @ [s]) = Some c"
    using rec(2,3) r(2) by (auto simp: path_kept_def)
  from follow_live [OF pool1 r1 fc] obtain cd where cd: "node_at self1 c = Some cd" by auto
  from fn fc obtain nd where nd: "node_at self1 n = Some nd" "child nd s = Some c"
    by (auto simp: follow_snoc edge_def bind_eq_Some_conv)
  have kept: "path_kept self self1 r p" using rec(2) by (rule path_kept_take)
  show ?thesis
  proof (cases "is_reclaimable cd")
    case True
    from prune_child [OF ok1 r1 fn nd cd True, of g] g obtain self2 self3 where
      "modify_node self1 n g = Some self2" "release_node self2 c = Some self3" "index_pool self3"
      "same_frame self1 self3" "length (nodes self3) = length (nodes self1)"
      "stored (node_at self3) = stored (node_at self1)" "path_kept self1 self3 r p" by blast
    with True cd rec(1) path_kept_trans [OF kept] show ?thesis
      by (auto simp: entry_removed_def intro: same_frame_trans)
  qed (use cd rec(1) kept in auto)
qed

lemma remove_from_trie_ok:
  assumes "index_pool self" "r \<in> ran (roots self)" "follow (node_at self) r p = Some n"
  shows "\<exists>self'. remove_from_trie self n segs sid = Some self' \<and> entry_removed self self' r (p @ segs) sid \<and>
    path_kept self self' r p"
  using assms
proof (induction segs arbitrary: n p)
  case Nil
  have pool: "pool_ok (node_at self) (roots self) (set (free_nodes self))"
    using Nil by (simp add: index_pool_def)
  from follow_live [OF pool Nil(2,3)] obtain nd where nd: "node_at self n = Some nd" by auto
  have "length (double_star_subs (remove_terminal sid nd)) = length (double_star_suffixes (remove_terminal sid nd))"
    using pool_okD(1) [OF pool nd] by (simp add: remove_terminal_def)
  from entry_removed_local [where f = "remove_terminal sid", OF Nil(1-3) nd child_local(2) this node_holds_remove_terminal]
  show ?case by (metis remove_from_trie.simps(1))
next
  case (Cons s segs)
  have pool: "pool_ok (node_at self) (roots self) (set (free_nodes self))"
    using Cons.prems by (simp add: index_pool_def)
  from follow_live [OF pool Cons.prems(2,3)] obtain nd where nd: "node_at self n = Some nd" by auto
  have absent: "entry_removed self self r (p @ s # segs) sid \<and> path_kept self self r p"
    if "child nd s = None" "s \<noteq> Compiled_DoubleStar"
  proof -
    have "\<not> stored (node_at self) r (p @ s # segs) sid"
      using stored_append [OF Cons.prems(3), of "s # segs" sid] nd that
      by (cases s) (auto simp: holds_def edge_def)
    then show ?thesis using Cons.prems(1) by (auto simp: entry_removed_def path_kept_def)
  qed
  have step: "\<exists>self1 cd self'. remove_from_trie self c segs sid = Some self1 \<and> node_at self1 c = Some cd \<and>
      (if is_reclaimable cd then modify_node self1 n g \<bind> (\<lambda>self2. release_node self2 c) else Some self1) = Some self' \<and>
      entry_removed self self' r (p @ s # segs) sid \<and> path_kept self self' r p"
    if c: "child nd s = Some c"
      and g: "\<And>nd. child (g nd) = (child nd)(s := None)" "\<And>nd. node_holds (g nd) = node_holds nd"
        "\<And>nd. double_star_subs (g nd) = double_star_subs nd" "\<And>nd. double_star_suffixes (g nd) = double_star_suffixes nd"
    for c g
  proof -
    have fc: "follow (node_at self) r (p @ [s]) = Some c"
      using Cons.prems(3) nd c by (simp add: follow_snoc edge_def)
    from Cons.IH [OF Cons.prems(1,2) fc] obtain self1 where
      s1: "remove_from_trie self c segs sid = Some self1" "entry_removed self self1 r (p @ s # segs) sid"
        "path_kept self self1 r (p @ [s])" by auto
    from remove_child [OF Cons.prems s1(2,3) fc g] s1(1) show ?thesis by blast
  qed
  show ?case
  proof (cases s)
    case Compiled_DoubleStar
    obtain nd' where
      d: "remove_double_star sid segs nd = Some nd'" "child nd' = child nd"
        "length (double_star_subs nd') = length (double_star_suffixes nd')"
        "\<And>t i. node_holds nd' t i \<longleftrightarrow> node_holds nd t i \<and> \<not> (t = Compiled_DoubleStar # segs \<and> i = sid)"
      using remove_double_star_ok [OF pool_okD(1) [OF pool nd], of sid segs] by blast
    from entry_removed_local [where f = "\<lambda>_. nd'", OF Cons.prems nd d(2-4)] obtain self' where
      "modify_node self n (\<lambda>_. nd') = Some self'"
      "entry_removed self self' r (p @ Compiled_DoubleStar # segs) sid" "path_kept self self' r p" by auto
    with d(1) nd Compiled_DoubleStar show ?thesis by auto
  next
    case Compiled_Star
    show ?thesis
    proof (cases "single_wildcard nd")
      case None
      with absent Compiled_Star nd show ?thesis by simp
    next
      case (Some c)
      with step [of c "\<lambda>nd. nd\<lparr>single_wildcard := None\<rparr>"] Compiled_Star nd show ?thesis
        by (fastforce simp: child_single_wildcard)
    qed
  next
    case (Exact i)
    show ?thesis
    proof (cases "map_of (exact nd) i")
      case None
      with absent Exact nd show ?thesis by simp
    next
      case (Some c)
      with step [of c "\<lambda>nd. nd\<lparr>exact := AList.delete i (exact nd)\<rparr>"] Exact nd show ?thesis
        by (fastforce simp: child_exact_delete)
    qed
  qed
qed

end
