(* ===== verification/Subscription_Match.thy ===== *)
theory Subscription_Match
  imports Subscription_Trie
begin

text \<open>
  The contract of the subscription index. \<open>entries\<close> is the set of registrations an index
  stands for; the locale \<open>route_index\<close> states what insertion, removal and matching promise about
  it, and the model of \<^verbatim>\<open>SubscriptionIndex\<close> is shown to keep these promises: after any sequence
  of insertions and removals a match returns, without duplicates, exactly the live registrations of
  the family whose pattern matches the route.
\<close>

section \<open>Interned segments and the cache\<close>

definition interner_ok :: "segment_interner \<Rightarrow> bool" where
  "interner_ok s \<longleftrightarrow> distinct (map fst (ids s)) \<and> map (unat \<circ> snd) (ids s) = [0..<length (ids s)]"

definition cache_ok :: "segments_cache \<Rightarrow> bool" where
  "cache_ok c \<longleftrightarrow> (\<forall>(route, segments) \<in> set (cache c). segments = parse_pattern_segments route) \<and>
     length (cache c) \<le> CACHE_MAX_ENTRIES"

definition inj_map :: "('a \<rightharpoonup> 'b) \<Rightarrow> bool" where
  "inj_map L \<longleftrightarrow> (\<forall>a b i. L a = Some i \<longrightarrow> L b = Some i \<longrightarrow> a = b)"

lemma update_absent: "map_of xs k = None \<Longrightarrow> AList.update k v xs = xs @ [(k, v)]"
  by (induction xs) (auto split: if_splits)

lemma interner_inj:
  assumes "interner_ok s"
  shows "inj_map (lookup_segment s)"
proof -
  have "distinct (map snd (ids s))"
    using assms by (metis distinct_map distinct_upt interner_ok_def map_map)
  then have "a = b" if "(a, i) \<in> set (ids s)" "(b, i) \<in> set (ids s)" for a b i
    using that by (fastforce simp: distinct_map inj_on_def)
  then show ?thesis by (auto simp: inj_map_def lookup_segment_def dest!: map_of_SomeD)
qed

lemma intern_ok:
  assumes ok: "interner_ok s" and room: "length (ids s) < 2 ^ 32" and "intern s v = (s', i)"
  shows "interner_ok s'" "lookup_segment s' v = Some i" "lookup_segment s \<subseteq>\<^sub>m lookup_segment s'"
    "length (ids s') \<le> Suc (length (ids s))"
proof -
  have n: "unat (usize_to_segment_id_saturating (length (ids s))) = length (ids s)"
    using room unat_try_from_usize [of "length (ids s)", where 'a = 32]
    by (simp add: usize_to_segment_id_saturating_def try_from_usize_def)
  show "interner_ok s'"
    using assms n by (auto simp: intern_def interner_ok_def update_absent map_of_eq_None_iff Let_def split: option.splits)
  show "lookup_segment s' v = Some i" "lookup_segment s \<subseteq>\<^sub>m lookup_segment s'"
    using assms(3) by (auto simp: intern_def lookup_segment_def update_conv' map_le_def Let_def split: option.splits)
  show "length (ids s') \<le> Suc (length (ids s))"
    using assms(3) by (auto simp: intern_def update_absent Let_def split: option.splits)
qed

lemma get_or_parse_ok:
  assumes "cache_ok c" "get_or_parse c route = (c', segments)"
  shows "cache_ok c'" "segments = parse_pattern_segments route"
  using assms by (auto simp: get_or_parse_def cache_ok_def Let_def update_absent split: option.splits if_splits
      dest!: map_of_SomeD)

text \<open>A pattern with its literals replaced by their identifiers.\<close>

fun compile_segment :: "(string \<rightharpoonup> segment_id) \<Rightarrow> pattern_segment \<Rightarrow> compiled_pattern_segment option" where
  "compile_segment L (Literal v) = map_option Exact (L v)"
| "compile_segment L Star = Some Compiled_Star"
| "compile_segment L DoubleStar = Some Compiled_DoubleStar"

definition compiles :: "(string \<rightharpoonup> segment_id) \<Rightarrow> pattern_segment list \<Rightarrow> compiled_pattern_segment list \<Rightarrow> bool" where
  "compiles L ps cs \<longleftrightarrow> list_all2 (\<lambda>p c. compile_segment L p = Some c) ps cs"

lemma compiles_simps [simp]:
  "compiles L [] cs \<longleftrightarrow> cs = []" "compiles L ps [] \<longleftrightarrow> ps = []"
  "compiles L (p # ps) (c # cs) \<longleftrightarrow> compile_segment L p = Some c \<and> compiles L ps cs"
  by (simp_all add: compiles_def)

lemma compiles_Cons1: "compiles L (p # ps) cs \<longleftrightarrow>
    (\<exists>c cs'. cs = c # cs' \<and> compile_segment L p = Some c \<and> compiles L ps cs')"
  by (auto simp: compiles_def list_all2_Cons1)

lemma compiles_Cons2: "compiles L ps (c # cs) \<longleftrightarrow>
    (\<exists>p ps'. ps = p # ps' \<and> compile_segment L p = Some c \<and> compiles L ps' cs)"
  by (auto simp: compiles_def list_all2_Cons2)

lemma compile_segment_eq [simp]:
  "compile_segment L p = Some Compiled_Star \<longleftrightarrow> p = Star"
  "compile_segment L p = Some Compiled_DoubleStar \<longleftrightarrow> p = DoubleStar"
  "compile_segment L p = Some (Exact i) \<longleftrightarrow> (\<exists>v. p = Literal v \<and> L v = Some i)"
  by (cases p; auto)+

lemma compiles_lookup:
  "snd (compile_pattern_segments_from_iter (\<lambda>s v. (s, L v)) st ps) = Some cs \<longleftrightarrow> compiles L ps cs"
proof (induction ps arbitrary: cs)
  case (Cons p ps)
  obtain st' r where r: "compile_pattern_segments_from_iter (\<lambda>s v. (s, L v)) st ps = (st', r)" by fastforce
  with Cons have "r = Some cs' \<longleftrightarrow> compiles L ps cs'" for cs' by simp
  with r show ?case
    by (cases p) (auto simp: compiles_Cons1 split: option.splits)
qed auto

lemma compile_segment_mono: "compile_segment L p = Some c \<Longrightarrow> L \<subseteq>\<^sub>m L' \<Longrightarrow> compile_segment L' p = Some c"
  by (cases p) (auto simp: map_le_def dom_def)

lemma compiles_mono: "compiles L ps cs \<Longrightarrow> L \<subseteq>\<^sub>m L' \<Longrightarrow> compiles L' ps cs"
  by (auto simp: compiles_def elim!: list_all2_mono intro: compile_segment_mono)

lemma compile_segment_inj:
  "inj_map L \<Longrightarrow> compile_segment L p = Some c \<Longrightarrow> compile_segment L q = Some c \<Longrightarrow> p = q"
  by (cases c) (auto simp: inj_map_def)

lemma compiles_inj: "inj_map L \<Longrightarrow> compiles L ps cs \<Longrightarrow> compiles L qs cs \<Longrightarrow> ps = qs"
proof (induction cs arbitrary: ps qs)
  case (Cons c cs)
  then show ?case by (auto simp: compiles_Cons2 dest: compile_segment_inj)
qed simp

lemma compile_intern_ok:
  assumes "interner_ok s" "length (ids s) + length ps \<le> 2 ^ 32"
  shows "\<exists>s' cs. compile_pattern_segments_from_iter (\<lambda>s v. let (s, i) = intern s v in (s, Some i)) s ps = (s', Some cs) \<and>
    interner_ok s' \<and> compiles (lookup_segment s') ps cs \<and>
    lookup_segment s \<subseteq>\<^sub>m lookup_segment s' \<and> length (ids s') \<le> length (ids s) + length ps \<and> length cs = length ps"
  using assms
proof (induction ps arbitrary: s)
  case (Cons p ps)
  show ?case
  proof (cases p)
    case (Literal v)
    obtain s1 i where i: "intern s v = (s1, i)" by (cases "intern s v")
    note io = intern_ok [OF Cons.prems(1) _ i]
    have room: "length (ids s) < 2 ^ 32" using Cons.prems(2) by simp
    from Cons.IH [of s1] io [OF room] Cons.prems(2) obtain s' cs where
      r: "compile_pattern_segments_from_iter (\<lambda>s v. let (s, i) = intern s v in (s, Some i)) s1 ps = (s', Some cs)"
        "interner_ok s'" "compiles (lookup_segment s') ps cs" "lookup_segment s1 \<subseteq>\<^sub>m lookup_segment s'"
        "length (ids s') \<le> length (ids s1) + length ps" "length cs = length ps" by auto
    have "lookup_segment s' v = Some i"
      using r(4) io(2) [OF room] by (metis domI map_le_def)
    with r io(3,4) [OF room] i Literal show ?thesis
      by (auto intro: map_le_trans)
  qed (use Cons in fastforce)+
qed simp

section \<open>The index as a set of registrations\<close>

definition double_star_free :: "pattern_segment list \<Rightarrow> bool" where
  "double_star_free ps \<longleftrightarrow> \<not> adjacent (\<lambda>s t. s = DoubleStar \<and> t = DoubleStar) ps"

definition index_ok :: "subscription_index \<Rightarrow> bool" where
  "index_ok self \<longleftrightarrow> index_pool self \<and> interner_ok (interner self) \<and> cache_ok (index_cache self) \<and>
     (\<forall>r \<in> ran (roots self). \<forall>cs sid. stored (node_at self) r cs sid \<longrightarrow>
        (\<exists>ps. compiles (lookup_segment (interner self)) ps cs))"

definition entries :: "subscription_index \<Rightarrow> (route_family \<times> pattern_segment list \<times> subscription_id) set" where
  "entries self = {(fam, ps, sid). \<exists>r cs. roots self fam = Some r \<and>
     compiles (lookup_segment (interner self)) ps cs \<and> stored (node_at self) r cs sid}"

text \<open>\<open>index_within k\<close>: a well-formed index whose pool and interner hold at most \<open>k\<close> slots.\<close>

definition index_within :: "nat \<Rightarrow> subscription_index \<Rightarrow> bool" where
  "index_within k self \<longleftrightarrow> index_ok self \<and> length (nodes self) \<le> k \<and> length (ids (interner self)) \<le> k"

lemma compile_pattern_segments_intern_ok:
  assumes ok: "index_within k self" and room: "k + length (parse_pattern_segments pat) \<le> 2 ^ 32"
  obtains cs self' where "compile_pattern_segments_intern self pat = Some (cs, self')"
    "compiles (lookup_segment (interner self')) (parse_pattern_segments pat) cs"
    "lookup_segment (interner self) \<subseteq>\<^sub>m lookup_segment (interner self')"
    "interner_ok (interner self')" "cache_ok (index_cache self')"
    "length (ids (interner self')) \<le> k + length (parse_pattern_segments pat)"
    "length cs = length (parse_pattern_segments pat)" "node_at self' = node_at self"
    "nodes self' = nodes self" "family_roots self' = family_roots self" "free_nodes self' = free_nodes self"
proof -
  obtain c' segs where c: "get_or_parse (index_cache self) pat = (c', segs)"
    by (cases "get_or_parse (index_cache self) pat")
  from ok have "cache_ok (index_cache self)" by (simp add: index_within_def index_ok_def)
  note cok = get_or_parse_ok [OF this c]
  from ok room have "interner_ok (interner self)" "length (ids (interner self)) + length (parse_pattern_segments pat) \<le> 2 ^ 32"
    by (auto simp: index_within_def index_ok_def)
  from compile_intern_ok [OF this] obtain s' cs where
    "compile_pattern_segments_from_iter (\<lambda>s v. let (s, i) = intern s v in (s, Some i)) (interner self)
        (parse_pattern_segments pat) = (s', Some cs)" "interner_ok s'"
      "compiles (lookup_segment s') (parse_pattern_segments pat) cs"
      "lookup_segment (interner self) \<subseteq>\<^sub>m lookup_segment s'"
      "length (ids s') \<le> length (ids (interner self)) + length (parse_pattern_segments pat)"
      "length cs = length (parse_pattern_segments pat)" by auto
  with that [of cs "self\<lparr>index_cache := c', interner := s'\<rparr>"] c cok ok show thesis
    by (auto simp: compile_pattern_segments_intern_def index_within_def)
qed

lemma entries_interned:
  assumes ok: "index_ok self" and grow: "lookup_segment (interner self) \<subseteq>\<^sub>m lookup_segment (interner self')"
    and s': "interner_ok (interner self')" "cache_ok (index_cache self')"
    and same: "node_at self' = node_at self" "nodes self' = nodes self" "family_roots self' = family_roots self"
      "free_nodes self' = free_nodes self"
  shows "index_ok self'" "entries self' = entries self"
proof -
  show "index_ok self'"
    using ok s' same compiles_mono [OF _ grow] unfolding index_ok_def index_pool_def by metis
  have "compiles (lookup_segment (interner self')) ps cs \<longleftrightarrow>
      compiles (lookup_segment (interner self)) ps cs"
    if "stored (node_at self) r cs sid" "roots self fam = Some r" for ps cs r sid fam
  proof -
    from ok that obtain qs where "compiles (lookup_segment (interner self)) qs cs"
      by (auto simp: index_ok_def ran_def)
    then show ?thesis
      using compiles_mono [OF _ grow] compiles_inj [OF interner_inj [OF s'(1)]] by metis
  qed
  then show "entries self' = entries self" unfolding entries_def same by blast
qed

lemma get_or_create_root_ok:
  assumes ok: "index_within k self" and room: "k < 2 ^ 32"
  obtains r self' where "get_or_create_root self fam = Some (r, self')" "index_within (Suc k) self'"
    "roots self' fam = Some r" "entries self' = entries self" "interner self' = interner self"
    "index_cache self' = index_cache self" "length (nodes self') \<le> Suc (length (nodes self))"
proof (cases "roots self fam")
  case (Some r)
  with that [of r self] ok show thesis by (simp add: get_or_create_root_def index_within_def)
next
  case None
  have pool: "index_pool self" and room': "length (nodes self) < 2 ^ 32"
    using ok room by (auto simp: index_within_def index_ok_def)
  from alloc_node_pool [OF this] obtain c self1 where a: "alloc_node self = Some (c, self1)" "index_pool self1"
    "c \<notin> set (free_nodes self1)" "node_at self1 = (node_at self)(c \<mapsto> node_new)" "c \<notin> ran (roots self)"
    "\<nexists>m s. edge (node_at self1) m s = Some c" "stored (node_at self1) = stored (node_at self)"
    "length (nodes self1) \<le> Suc (length (nodes self))" "same_frame self self1" by metis
  let ?self = "self1\<lparr>family_roots := AList.update fam c (family_roots self1)\<rparr>"
  have roots: "roots ?self = (roots self)(fam \<mapsto> c)"
    using a(9) by (simp add: update_conv' same_frame_def)
  have ran: "ran (roots ?self) = insert c (ran (roots self))"
    unfolding roots using None by (simp add: ran_map_upd)
  have frame: "roots self1 = roots self" "interner self1 = interner self" "index_cache self1 = index_cache self"
    using a(9) by (simp_all add: same_frame_def)
  have blank: "\<not> stored (node_at self1) c cs sid" for cs sid
    by (cases cs) (simp_all add: holds_def edge_def a(4) del: node_holds.simps)
  have "pool_ok (node_at self1) ((roots self)(fam \<mapsto> c)) (set (free_nodes self1))"
    using a(2,3,4,5,6) frame(1) None unfolding index_pool_def pool_ok_def
    by (auto simp: ran_map_upd inj_on_def intro: ranI)
  then have pool': "index_pool ?self"
    using a(2) roots by (simp add: index_pool_def)
  have "index_within (Suc k) ?self"
    using ok pool' a(7,8) blank frame ran unfolding index_within_def index_ok_def by auto
  moreover have "entries ?self = entries self"
    using None blank a(7) frame unfolding entries_def roots by (auto split: if_splits)
  ultimately show thesis
    using that [of c ?self] a(1,8) roots frame None by (simp add: get_or_create_root_def)
qed

lemma entries_Some: "roots self f = Some m \<Longrightarrow> (f, qs, i) \<in> entries self \<longleftrightarrow>
    (\<exists>cs. compiles (lookup_segment (interner self)) qs cs \<and> stored (node_at self) m cs i)"
  by (simp add: entries_def)

lemma entries_None: "roots self f = None \<Longrightarrow> (f, qs, i) \<notin> entries self"
  by (simp add: entries_def)

lemma root_family:
  assumes "index_ok self" "roots self f = Some m" "roots self fam = Some r"
  shows "m = r \<longleftrightarrow> f = fam"
  using assms pool_okD(5) [of "node_at self" "roots self" "set (free_nodes self)" f m fam]
  by (auto simp: index_ok_def index_pool_def)

lemma compiles_unique:
  assumes "index_ok self" "compiles (lookup_segment (interner self)) ps cs"
  shows "compiles (lookup_segment (interner self)) qs cs \<longleftrightarrow> qs = ps"
  using assms compiles_inj [OF interner_inj] by (auto simp: index_ok_def)

lemma entries_added:
  assumes ok: "index_ok self" and add: "entry_added self self' r cs sid" and r: "roots self fam = Some r"
    and cs: "compiles (lookup_segment (interner self)) ps cs"
  shows "index_ok self'" "entries self' = insert (fam, ps, sid) (entries self)"
proof -
  have frame: "family_roots self' = family_roots self" "interner self' = interner self" "index_cache self' = index_cache self"
    and st: "\<And>m t i. m \<in> ran (roots self) \<Longrightarrow> stored (node_at self') m t i \<longleftrightarrow>
      stored (node_at self) m t i \<or> m = r \<and> t = cs \<and> i = sid"
    using add by (auto simp: entry_added_def same_frame_def)
  show "index_ok self'"
    using ok add cs frame st unfolding index_ok_def entry_added_def by metis
  have "(f, qs, i) \<in> entries self' \<longleftrightarrow> (f, qs, i) \<in> insert (fam, ps, sid) (entries self)" for f qs i
  proof (cases "roots self f")
    case None
    with r show ?thesis using frame by (auto simp: entries_None)
  next
    case (Some m)
    then have m: "m \<in> ran (roots self)" by (rule ranI)
    have "(f, qs, i) \<in> entries self' \<longleftrightarrow> (f, qs, i) \<in> entries self \<or>
        compiles (lookup_segment (interner self)) qs cs \<and> m = r \<and> i = sid"
      using Some frame entries_Some [of self' f m qs i] entries_Some [of self f m qs i] st [OF m] by auto
    then show ?thesis
      unfolding compiles_unique [OF ok cs] root_family [OF ok Some r] by auto
  qed
  then show "entries self' = insert (fam, ps, sid) (entries self)" by auto
qed

lemma entries_removed:
  assumes ok: "index_ok self" and rem: "entry_removed self self' r cs sid" and r: "roots self fam = Some r"
    and cs: "compiles (lookup_segment (interner self)) ps cs"
  shows "index_ok self'" "entries self' = entries self - {(fam, ps, sid)}"
proof -
  have frame: "family_roots self' = family_roots self" "interner self' = interner self" "index_cache self' = index_cache self"
    and st: "\<And>m t i. m \<in> ran (roots self) \<Longrightarrow> stored (node_at self') m t i \<longleftrightarrow>
      stored (node_at self) m t i \<and> \<not> (m = r \<and> t = cs \<and> i = sid)"
    using rem by (auto simp: entry_removed_def same_frame_def)
  show "index_ok self'"
    using ok rem frame st unfolding index_ok_def entry_removed_def by metis
  have "(f, qs, i) \<in> entries self' \<longleftrightarrow> (f, qs, i) \<in> entries self - {(fam, ps, sid)}" for f qs i
  proof (cases "roots self f")
    case None
    with r show ?thesis using frame by (auto simp: entries_None)
  next
    case (Some m)
    then have m: "m \<in> ran (roots self)" by (rule ranI)
    have one: "cs' = cs" if "compiles (lookup_segment (interner self)) ps cs'" for cs'
      using that cs by (metis compiles_lookup option.inject)
    have "(f, qs, i) \<in> entries self' \<longleftrightarrow> (\<exists>cs'. compiles (lookup_segment (interner self)) qs cs' \<and>
        stored (node_at self) m cs' i \<and> \<not> (f = fam \<and> cs' = cs \<and> i = sid))"
      using Some frame entries_Some [of self' f m qs i] st [OF m] root_family [OF ok Some r] by simp
    also have "\<dots> \<longleftrightarrow> (\<exists>cs'. compiles (lookup_segment (interner self)) qs cs' \<and>
        stored (node_at self) m cs' i) \<and> \<not> (f = fam \<and> qs = ps \<and> i = sid)"
      using one compiles_unique [OF ok cs] by metis
    finally show ?thesis using entries_Some [OF Some] by auto
  qed
  then show "entries self' = entries self - {(fam, ps, sid)}" by auto
qed

lemma index_insert_ok:
  assumes ok: "index_within k self" and room: "k + length (parse_pattern_segments pat) + 1 \<le> 2 ^ 32"
  shows "\<exists>self'. index_insert self fam pat sid = Some self' \<and>
    index_within (k + length (parse_pattern_segments pat) + 1) self' \<and>
    entries self' = insert (fam, parse_pattern_segments pat, sid) (entries self)"
proof -
  let ?ps = "parse_pattern_segments pat"
  obtain cs self1 where c: "compile_pattern_segments_intern self pat = Some (cs, self1)"
    "compiles (lookup_segment (interner self1)) ?ps cs"
    "lookup_segment (interner self) \<subseteq>\<^sub>m lookup_segment (interner self1)"
    "interner_ok (interner self1)" "cache_ok (index_cache self1)"
    "length (ids (interner self1)) \<le> k + length ?ps" "length cs = length ?ps" "node_at self1 = node_at self"
    "nodes self1 = nodes self" "family_roots self1 = family_roots self" "free_nodes self1 = free_nodes self"
    by (rule compile_pattern_segments_intern_ok [OF ok, of pat]) (use room in auto)
  from ok have "index_ok self" by (simp add: index_within_def)
  note i = entries_interned [OF this c(3,4,5,8-11)]
  have w: "index_within (k + length ?ps) self1"
    using i(1) ok c(6,9) by (simp add: index_within_def)
  obtain r self2 where g: "get_or_create_root self1 fam = Some (r, self2)" "index_within (Suc (k + length ?ps)) self2"
    "roots self2 fam = Some r" "entries self2 = entries self1" "interner self2 = interner self1"
    "length (nodes self2) \<le> Suc (length (nodes self1))"
    by (rule get_or_create_root_ok [OF w, of fam]) (use room in auto)
  have ok2: "index_ok self2" and len: "length (nodes self2) + length cs \<le> 2 ^ 32" "length (nodes self2) \<le> Suc k"
    using g(2,6) c(7,9) ok room by (auto simp: index_within_def)
  from insert_into_trie_ok [of self2 r "[]" r cs sid] ok2 len(1) g(3) obtain self3 where
    t: "insert_into_trie self2 r cs sid = Some self3" "entry_added self2 self3 r cs sid"
      "length (nodes self3) \<le> length (nodes self2) + length cs"
    by (auto simp: index_ok_def ran_def)
  have "compiles (lookup_segment (interner self2)) ?ps cs" using c(2) g(5) by simp
  note e = entries_added [OF ok2 t(2) g(3) this]
  have "interner self3 = interner self2" using t(2) by (simp add: entry_added_def same_frame_def)
  then have "index_within (k + length ?ps + 1) self3"
    using e(1) t(3) len(2) c(6,7) g(5) by (simp add: index_within_def)
  with e(2) g(1,4) i(2) c(1) t(1) show ?thesis by (simp add: index_insert_def)
qed

lemma index_remove_ok:
  assumes ok: "index_within k self"
  shows "\<exists>self'. index_remove self fam pat sid = Some self' \<and> index_within k self' \<and>
    entries self' = entries self - {(fam, parse_pattern_segments pat, sid)}"
proof (cases "compile_pattern_segments_lookup self pat")
  case None
  then have "\<nexists>cs. compiles (lookup_segment (interner self)) (parse_pattern_segments pat) cs"
    unfolding compile_pattern_segments_lookup_def compiles_lookup [of _ "()", symmetric] by simp
  then have "(fam, parse_pattern_segments pat, sid) \<notin> entries self" by (auto simp: entries_def)
  with None ok show ?thesis by (simp add: index_remove_def)
next
  case (Some cs)
  then have cs: "compiles (lookup_segment (interner self)) (parse_pattern_segments pat) cs"
    unfolding compile_pattern_segments_lookup_def compiles_lookup .
  show ?thesis
  proof (cases "roots self fam")
    case None
    then have "(fam, parse_pattern_segments pat, sid) \<notin> entries self" by (auto simp: entries_def)
    with None Some ok show ?thesis by (simp add: index_remove_def)
  next
    case r: (Some r)
    have iok: "index_ok self" using ok by (simp add: index_within_def)
    with r remove_from_trie_ok [of self r "[]" r cs sid] obtain self' where
      t: "remove_from_trie self r cs sid = Some self'" "entry_removed self self' r cs sid"
      by (auto simp: index_ok_def ran_def)
    note e = entries_removed [OF iok t(2) r cs]
    have "index_within k self'"
      using e(1) ok t(2) by (simp add: index_within_def entry_removed_def same_frame_def)
    with e(2) t(1) Some r show ?thesis by (simp add: index_remove_def)
  qed
qed

lemma insert_at_root_ok:
  assumes ok: "index_within k self" and r: "roots self fam = Some r"
    and room: "k + length (parse_pattern_segments pat) \<le> 2 ^ 32"
  obtains cs self1 self2 where "compile_pattern_segments_intern self pat = Some (cs, self1)"
    "insert_into_trie self1 r cs sid = Some self2" "index_within (k + length (parse_pattern_segments pat)) self2"
    "roots self2 = roots self" "entries self2 = insert (fam, parse_pattern_segments pat, sid) (entries self)"
proof -
  let ?ps = "parse_pattern_segments pat"
  obtain cs self1 where c: "compile_pattern_segments_intern self pat = Some (cs, self1)"
    "compiles (lookup_segment (interner self1)) ?ps cs"
    "lookup_segment (interner self) \<subseteq>\<^sub>m lookup_segment (interner self1)"
    "interner_ok (interner self1)" "cache_ok (index_cache self1)"
    "length (ids (interner self1)) \<le> k + length ?ps" "length cs = length ?ps" "node_at self1 = node_at self"
    "nodes self1 = nodes self" "family_roots self1 = family_roots self" "free_nodes self1 = free_nodes self"
    by (rule compile_pattern_segments_intern_ok [OF ok room])
  from ok have "index_ok self" by (simp add: index_within_def)
  note i = entries_interned [OF this c(3,4,5,8-11)]
  have r1: "roots self1 fam = Some r" using r c(10) by simp
  have len: "length (nodes self1) + length cs \<le> 2 ^ 32" using ok c(7,9) room by (simp add: index_within_def)
  from insert_into_trie_ok [of self1 r "[]" r cs sid] i(1) len r1 obtain self2 where
    t: "insert_into_trie self1 r cs sid = Some self2" "entry_added self1 self2 r cs sid"
      "length (nodes self2) \<le> length (nodes self1) + length cs"
    by (auto simp: index_ok_def ran_def)
  note e = entries_added [OF i(1) t(2) r1 c(2)]
  have frame: "interner self2 = interner self1" "family_roots self2 = family_roots self1"
    using t(2) by (simp_all add: entry_added_def same_frame_def)
  have "index_within (k + length ?ps) self2"
    using e(1) t(3) ok c(6,7,9) frame by (simp add: index_within_def)
  with that [OF c(1) t(1)] e(2) i(2) frame c(10) show thesis by simp
qed

lemma insert_items_ok:
  assumes "index_within k self" "roots self fam = Some r"
    "k + sum_list (map (\<lambda>(pat, sid). length (parse_pattern_segments pat)) items) \<le> 2 ^ 32"
  shows "\<exists>self'. insert_items self r items = Some self' \<and>
    index_within (k + sum_list (map (\<lambda>(pat, sid). length (parse_pattern_segments pat)) items)) self' \<and>
    entries self' = entries self \<union> (\<lambda>(pat, sid). (fam, parse_pattern_segments pat, sid)) ` set items"
  using assms
proof (induction items arbitrary: k self)
  case (Cons item items)
  obtain pat sid where item: "item = (pat, sid)" by (cases item)
  have room: "k + length (parse_pattern_segments pat) \<le> 2 ^ 32" using Cons.prems(3) by (simp add: item)
  obtain cs self1 self2 where s: "compile_pattern_segments_intern self pat = Some (cs, self1)"
    "insert_into_trie self1 r cs sid = Some self2" "index_within (k + length (parse_pattern_segments pat)) self2"
    "roots self2 = roots self" "entries self2 = insert (fam, parse_pattern_segments pat, sid) (entries self)"
    by (rule insert_at_root_ok [OF Cons.prems(1,2) room])
  with Cons.IH [OF s(3)] Cons.prems(2,3) show ?case by (auto simp: item add.assoc)
qed simp

lemma index_insert_batch_ok:
  assumes ok: "index_within k self" and
    room: "k + sum_list (map (\<lambda>(pat, sid). length (parse_pattern_segments pat)) items) + 1 \<le> 2 ^ 32"
  shows "\<exists>self'. index_insert_batch self fam items = Some self' \<and>
    index_within (k + sum_list (map (\<lambda>(pat, sid). length (parse_pattern_segments pat)) items) + 1) self' \<and>
    entries self' = entries self \<union> (\<lambda>(pat, sid). (fam, parse_pattern_segments pat, sid)) ` set items"
proof (cases "items = []")
  case True
  with ok show ?thesis by (auto simp: index_insert_batch_def index_within_def)
next
  case False
  obtain r self1 where g: "get_or_create_root self fam = Some (r, self1)" "index_within (Suc k) self1"
    "roots self1 fam = Some r" "entries self1 = entries self"
    by (rule get_or_create_root_ok [OF ok, of fam]) (use room in auto)
  with insert_items_ok [OF g(2,3), of items] room False show ?thesis
    by (auto simp: index_insert_batch_def)
qed

section \<open>Matching\<close>

subsection \<open>The collector\<close>

definition collector_ok :: "match_collector \<Rightarrow> bool" where
  "collector_ok c \<longleftrightarrow> distinct (matches c) \<and> (\<forall>s. seen c = Some s \<longrightarrow> s = set (matches c) \<and>
     MATCH_DEDUPE_SET_THRESHOLD \<le> length (matches c))"

lemma collector_push_ok:
  assumes "collector_ok c"
  shows "collector_ok (collector_push c sid)" "set (matches (collector_push c sid)) = insert sid (set (matches c))"
  using assms by (auto simp: collector_ok_def collector_push_def ensure_seen_def Let_def MATCH_DEDUPE_SET_THRESHOLD_def split: option.splits)

lemma extend_from_slice_ok:
  assumes "collector_ok c"
  shows "collector_ok (extend_from_slice c sids) \<and>
    set (matches (extend_from_slice c sids)) = set (matches c) \<union> set sids"
  using assms unfolding extend_from_slice_def
  by (induction sids arbitrary: c) (auto simp: collector_push_ok)

lemma matches_suffix_Nil [simp]: "matches_suffix_compiled [] route i"
  by (simp add: matches_suffix_compiled_def del: replicate.simps)

lemma double_star_loop_ok:
  assumes "collector_ok c" "\<And>previous matched. last_match = Some (previous, matched) \<Longrightarrow>
    matched = matches_suffix_compiled previous route i"
  shows "collector_ok (double_star_loop route i es last_match c) \<and>
    set (matches (double_star_loop route i es last_match c)) =
      set (matches c) \<union> {sid. \<exists>suffix. (sid, suffix) \<in> set es \<and> matches_suffix_compiled suffix route i}"
  using assms
proof (induction es arbitrary: last_match c)
  case (Cons e es)
  obtain sid suffix where e: "e = (sid, suffix)" by (cases e)
  show ?case
  proof (cases "suffix = []")
    case True
    with Cons.IH [of "collector_push c sid" last_match] Cons.prems show ?thesis
      by (auto simp: collector_push_ok e)
  next
    case False
    let ?m = "matches_suffix_compiled suffix route i"
    let ?c = "if ?m then collector_push c sid else c"
    have "double_star_loop route i (e # es) last_match c = double_star_loop route i es (Some (suffix, ?m)) ?c"
      using False Cons.prems(2) by (auto simp: e Let_def split: option.splits)
    moreover have "collector_ok ?c" "set (matches ?c) = set (matches c) \<union> {i. i = sid \<and> ?m}"
      using Cons.prems(1) by (auto simp: collector_push_ok)
    moreover note Cons.IH [OF this(1), of "Some (suffix, ?m)"]
    ultimately show ?thesis by (simp add: e) blast
  qed
qed simp

lemma collect_double_star_matches_ok:
  assumes "collector_ok c"
  shows "collector_ok (collect_double_star_matches nd route i c) \<and>
    set (matches (collect_double_star_matches nd route i c)) = set (matches c) \<union>
      {sid. \<exists>suffix. node_holds nd (Compiled_DoubleStar # suffix) sid \<and> matches_suffix_compiled suffix route i}"
  using double_star_loop_ok [OF assms, of None] by (simp add: collect_double_star_matches_def)

lemma collect_final_matches_ok:
  assumes "collector_ok c"
  shows "collector_ok (collect_final_matches nd c) \<and>
    set (matches (collect_final_matches nd c)) = set (matches c) \<union>
      {sid. node_holds nd [] sid \<or> node_holds nd [Compiled_DoubleStar] sid}"
proof -
  have fold: "collector_ok (foldl (\<lambda>collector (sid, suffix).
        if suffix = [] then collector_push collector sid else collector) c es) \<and>
      set (matches (foldl (\<lambda>collector (sid, suffix).
        if suffix = [] then collector_push collector sid else collector) c es)) =
      set (matches c) \<union> {sid. (sid, []) \<in> set es}" if "collector_ok c"
    for c and es :: "(subscription_id \<times> compiled_pattern_segment list) list"
    using that by (induction es arbitrary: c) (auto simp: collector_push_ok split: prod.splits)
  show ?thesis
    using extend_from_slice_ok [OF assms, of "terminals nd"]
      fold [of "if terminals nd \<noteq> [] then extend_from_slice c (terminals nd) else c"] assms
    by (auto simp: collect_final_matches_def)
qed

subsection \<open>Suffixes\<close>

abbreviation compiled_route :: "(string \<rightharpoonup> segment_id) \<Rightarrow> string list \<Rightarrow> compiled_route_segment list" where
  "compiled_route L route \<equiv> map (\<lambda>segment. \<lparr>exact_id = L segment\<rparr>) route"

lemma suffix_row_match:
  assumes "inj_map L" "compile_segment L p = Some c"
  shows "suffix_row (compiled_route L route) row c = match_row route row p"
proof (cases p)
  case (Literal v)
  with assms obtain i where i: "L v = Some i" "c = Exact i" by auto
  then have "L s = Some i \<longleftrightarrow> v = s" for s using assms(1) by (auto simp: inj_map_def)
  with i Literal show ?thesis by (simp add: suffix_row_def match_row_def zip_map2 comp_def case_prod_beta)
qed (use assms in \<open>auto simp: suffix_row_def match_row_def\<close>)

lemma foldl_suffix_row:
  "inj_map L \<Longrightarrow> compiles L ps cs \<Longrightarrow>
     foldl (suffix_row (compiled_route L route)) row cs = foldl (match_row route) row ps"
proof (induction cs arbitrary: ps row)
  case (Cons c cs)
  then show ?case by (auto simp: compiles_Cons2 suffix_row_match)
qed simp

lemma match_table_fold_append:
  "foldl (match_row route) (match_table qs route) ps = match_table (qs @ ps) route"
  by (induction ps rule: rev_induct) (simp_all add: match_row_table)

lemma matches_suffix_pmatch:
  assumes "inj_map L" "compiles L ps cs"
  shows "matches_suffix_compiled cs (compiled_route L route) i \<longleftrightarrow> pmatch (DoubleStar # ps) (drop i route)"
proof -
  let ?route = "drop i route"
  have "match_table [DoubleStar] ?route = replicate (length ?route + 1) True"
    by (rule nth_equalityI) (simp_all add: pmatch_double_star del: replicate.simps pmatch.simps)
  then have "foldl (match_row ?route) (replicate (length ?route + 1) True) ps = match_table (DoubleStar # ps) ?route"
    using match_table_fold_append [of ?route "[DoubleStar]" ps] by simp
  moreover have "drop i (compiled_route L route) = compiled_route L ?route" by (simp add: drop_map)
  ultimately show ?thesis
    unfolding matches_suffix_compiled_def Let_def
    by (simp add: foldl_suffix_row [OF assms] del: replicate.simps pmatch.simps)
qed

subsection \<open>The traversal\<close>

text \<open>The subscriptions below a node whose pattern matches the rest of the route.\<close>

definition hits :: "subscription_index \<Rightarrow> node_id \<Rightarrow> string list \<Rightarrow> subscription_id set" where
  "hits self n rest = {sid. \<exists>ps cs. compiles (lookup_segment (interner self)) ps cs \<and>
     stored (node_at self) n cs sid \<and> pmatch ps rest}"

definition tame :: "subscription_index \<Rightarrow> node_id \<Rightarrow> bool" where
  "tame self n \<longleftrightarrow> n \<in> dom (node_at self) \<and> (\<forall>cs sid. stored (node_at self) n cs sid \<longrightarrow>
     (\<exists>ps. compiles (lookup_segment (interner self)) ps cs) \<and>
     (\<forall>ps. compiles (lookup_segment (interner self)) ps cs \<longrightarrow> double_star_free ps))"

lemma pmatch_Nil_double_star_free:
  assumes "double_star_free ps"
  shows "pmatch ps [] \<longleftrightarrow> ps = [] \<or> ps = [DoubleStar]"
proof (cases ps)
  case (Cons p qs)
  show ?thesis
  proof (cases "p = DoubleStar \<and> qs \<noteq> []")
    case True
    then obtain q rs where "qs = q # rs" "q \<noteq> DoubleStar"
      using assms Cons by (auto simp: double_star_free_def neq_Nil_conv)
    with True Cons show ?thesis by (cases q) auto
  next
    case False
    with Cons show ?thesis by (cases p) auto
  qed
qed simp

lemma double_star_free_tl: "double_star_free (p # ps) \<Longrightarrow> double_star_free ps"
  by (cases ps) (auto simp: double_star_free_def)

lemma double_star_free_Cons: "double_star_free (p # ps) \<longleftrightarrow>
    double_star_free ps \<and> \<not> (p = DoubleStar \<and> ps \<noteq> [] \<and> hd ps = DoubleStar)"
  by (cases ps) (auto simp: double_star_free_def)

lemma tame_child:
  assumes ok: "index_ok self" and n: "tame self n" and c: "edge (node_at self) n s = Some c"
  shows "tame self c"
proof -
  have "c \<in> dom (node_at self)"
    using ok pool_okD(2) [OF _ c] by (auto simp: index_ok_def index_pool_def)
  moreover have "(\<exists>ps. compiles (lookup_segment (interner self)) ps cs) \<and>
     (\<forall>ps. compiles (lookup_segment (interner self)) ps cs \<longrightarrow> double_star_free ps)"
    if st: "stored (node_at self) c cs sid" for cs sid
  proof -
    have "stored (node_at self) n (s # cs) sid" using c st by auto
    with n have "\<exists>ps. compiles (lookup_segment (interner self)) ps (s # cs)"
      "\<forall>ps. compiles (lookup_segment (interner self)) ps (s # cs) \<longrightarrow> double_star_free ps"
      unfolding tame_def by blast+
    then obtain p qs where p: "compile_segment (lookup_segment (interner self)) p = Some s"
      "compiles (lookup_segment (interner self)) qs cs" and
      free: "\<And>ps. compiles (lookup_segment (interner self)) ps (s # cs) \<Longrightarrow> double_star_free ps"
      by (auto simp: compiles_Cons2)
    have "double_star_free ps" if "compiles (lookup_segment (interner self)) ps cs" for ps
      using free [of "p # ps"] p(1) that by (simp add: double_star_free_Cons)
    with p(2) show ?thesis by blast
  qed
  ultimately show ?thesis by (simp add: tame_def)
qed

text \<open>At the end of the route only the patterns that end at the node, or end with one \<^verbatim>\<open>**\<close>
  there, match.\<close>

lemma stored_short: "stored H n [] sid \<longleftrightarrow> holds H n [] sid"
  "stored H n (Compiled_DoubleStar # cs) sid \<longleftrightarrow> holds H n (Compiled_DoubleStar # cs) sid"
  by (auto simp: edge_def split: bind_splits)

lemma stored_edge: "s \<noteq> Compiled_DoubleStar \<Longrightarrow> stored H n (s # cs) sid \<longleftrightarrow> (\<exists>c. edge H n s = Some c \<and> stored H c cs sid)"
  by (cases s) (auto simp: holds_def)

lemma hits_Nil:
  assumes "tame self n"
  shows "hits self n [] = {sid. holds (node_at self) n [] sid \<or> holds (node_at self) n [Compiled_DoubleStar] sid}"
proof (intro set_eqI iffI)
  fix sid assume "sid \<in> hits self n []"
  then obtain ps cs where ps: "compiles (lookup_segment (interner self)) ps cs" "stored (node_at self) n cs sid" "pmatch ps []"
    by (auto simp: hits_def)
  with assms have "ps = [] \<or> ps = [DoubleStar]"
    using pmatch_Nil_double_star_free [of ps] by (auto simp: tame_def)
  with ps(1,2) show "sid \<in> {sid. holds (node_at self) n [] sid \<or> holds (node_at self) n [Compiled_DoubleStar] sid}"
    by (auto simp: compiles_Cons1 stored_short simp del: stored.simps(2))
next
  fix sid assume "sid \<in> {sid. holds (node_at self) n [] sid \<or> holds (node_at self) n [Compiled_DoubleStar] sid}"
  moreover have "compiles L [] [] \<and> pmatch [] []" "compiles L [DoubleStar] [Compiled_DoubleStar] \<and> pmatch [DoubleStar] []" for L
    by simp_all
  ultimately show "sid \<in> hits self n []"
    unfolding hits_def mem_Collect_eq using stored_short by blast
qed

lemma hitsI: "compiles (lookup_segment (interner self)) ps cs \<Longrightarrow> stored (node_at self) n cs sid \<Longrightarrow>
    pmatch ps rest \<Longrightarrow> sid \<in> hits self n rest"
  unfolding hits_def by blast

lemma hits_Cons:
  "sid \<in> hits self n (x # rest) \<longleftrightarrow>
     (\<exists>ps cs. compiles (lookup_segment (interner self)) ps cs \<and> holds (node_at self) n (Compiled_DoubleStar # cs) sid \<and>
        pmatch (DoubleStar # ps) (x # rest)) \<or>
     (\<exists>i c. lookup_segment (interner self) x = Some i \<and> edge (node_at self) n (Exact i) = Some c \<and> sid \<in> hits self c rest) \<or>
     (\<exists>c. edge (node_at self) n Compiled_Star = Some c \<and> sid \<in> hits self c rest)"
  (is "_ \<longleftrightarrow> ?D \<or> ?E \<or> ?S")
proof
  assume "sid \<in> hits self n (x # rest)"
  then obtain ps cs where ps: "compiles (lookup_segment (interner self)) ps cs" "stored (node_at self) n cs sid"
    "pmatch ps (x # rest)" by (auto simp: hits_def)
  then obtain p qs c ds where q: "ps = p # qs" "cs = c # ds" "compile_segment (lookup_segment (interner self)) p = Some c"
    "compiles (lookup_segment (interner self)) qs ds" by (cases ps) (auto simp: compiles_Cons1)
  show "?D \<or> ?E \<or> ?S"
  proof (cases p)
    case DoubleStar
    with ps q show ?thesis by (simp add: stored_short del: stored.simps(2) pmatch.simps(4)) blast
  next
    case Star
    with ps q have ?S by (auto simp: stored_edge intro: hitsI simp del: stored.simps(2))
    then show ?thesis by blast
  next
    case (Literal v)
    with ps q have ?E
      using hitsI [OF q(4), of _ sid rest] by (auto simp: stored_edge simp del: stored.simps(2))
    then show ?thesis by blast
  qed
next
  assume "?D \<or> ?E \<or> ?S"
  then consider ?D | ?E | ?S by blast
  then show "sid \<in> hits self n (x # rest)"
  proof cases
    case 1
    then obtain ps cs where d: "compiles (lookup_segment (interner self)) ps cs"
      "holds (node_at self) n (Compiled_DoubleStar # cs) sid" "pmatch (DoubleStar # ps) (x # rest)" by blast
    then have "compiles (lookup_segment (interner self)) (DoubleStar # ps) (Compiled_DoubleStar # cs)"
      "stored (node_at self) n (Compiled_DoubleStar # cs) sid" by simp_all
    with d(3) show ?thesis unfolding hits_def by blast
  next
    case 2
    then obtain i c ps cs where d: "lookup_segment (interner self) x = Some i" "edge (node_at self) n (Exact i) = Some c"
      "compiles (lookup_segment (interner self)) ps cs" "stored (node_at self) c cs sid" "pmatch ps rest"
      by (auto simp: hits_def)
    then have "compiles (lookup_segment (interner self)) (Literal x # ps) (Exact i # cs)"
      "stored (node_at self) n (Exact i # cs) sid" "pmatch (Literal x # ps) (x # rest)" by auto
    then show ?thesis unfolding hits_def by blast
  next
    case 3
    then obtain c ps cs where d: "edge (node_at self) n Compiled_Star = Some c"
      "compiles (lookup_segment (interner self)) ps cs" "stored (node_at self) c cs sid" "pmatch ps rest"
      by (auto simp: hits_def)
    then have "compiles (lookup_segment (interner self)) (Star # ps) (Compiled_Star # cs)"
      "stored (node_at self) n (Compiled_Star # cs) sid" "pmatch (Star # ps) (x # rest)" by auto
    then show ?thesis unfolding hits_def by blast
  qed
qed

text \<open>What one node passes on to the next frontier.\<close>

definition next_of :: "subscription_index \<Rightarrow> segment_id option \<Rightarrow> node_id \<Rightarrow> node_id set" where
  "next_of self e n = {c. (\<exists>i. e = Some i \<and> edge (node_at self) n (Exact i) = Some c) \<or>
     edge (node_at self) n Compiled_Star = Some c}"

definition suffix_hits :: "subscription_index \<Rightarrow> compiled_route_segment list \<Rightarrow> nat \<Rightarrow> node_id \<Rightarrow> subscription_id set" where
  "suffix_hits self route i n = {sid. \<exists>suffix. holds (node_at self) n (Compiled_DoubleStar # suffix) sid \<and>
     matches_suffix_compiled suffix route i}"

lemma visit_frontier_ok:
  assumes "set current \<subseteq> dom (node_at self)" "collector_ok collector"
  shows "\<exists>next' collector'. visit_frontier self route i segment current next_nodes collector = Some (next', collector') \<and>
    set next' = set next_nodes \<union> (\<Union>n \<in> set current. next_of self (exact_id segment) n) \<and> collector_ok collector' \<and>
    set (matches collector') = set (matches collector) \<union> (\<Union>n \<in> set current. suffix_hits self route i n)"
  using assms
proof (induction current arbitrary: next_nodes collector)
  case (Cons n current)
  then obtain nd where nd: "node_at self n = Some nd" by auto
  let ?next1 = "case exact_id segment of None \<Rightarrow> next_nodes
    | Some e \<Rightarrow> (case map_of (exact nd) e of None \<Rightarrow> next_nodes | Some c \<Rightarrow> next_nodes @ [c])"
  let ?next = "case single_wildcard nd of None \<Rightarrow> ?next1 | Some c \<Rightarrow> ?next1 @ [c]"
  let ?c = "if double_star_subs nd \<noteq> [] then collect_double_star_matches nd route i collector else collector"
  have c: "collector_ok ?c" "set (matches ?c) = set (matches collector) \<union> suffix_hits self route i n"
    using collect_double_star_matches_ok [OF Cons.prems(2), of nd route i] Cons.prems(2)
    by (auto simp: suffix_hits_def holds_def nd)
  have nxt: "set ?next = set next_nodes \<union> next_of self (exact_id segment) n"
    by (auto simp: next_of_def edge_def nd split: option.splits)
  from Cons.IH [of ?c ?next] Cons.prems(1) c(1) obtain next' collector' where
    "visit_frontier self route i segment current ?next ?c = Some (next', collector')"
    "set next' = set ?next \<union> (\<Union>n \<in> set current. next_of self (exact_id segment) n)" "collector_ok collector'"
    "set (matches collector') = set (matches ?c) \<union> (\<Union>n \<in> set current. suffix_hits self route i n)" by auto
  then show ?case unfolding nxt c(2) by (simp add: nd Let_def Un_assoc)
qed simp

lemma collect_frontier_ok:
  assumes "set current \<subseteq> dom (node_at self)" "collector_ok collector"
  shows "\<exists>collector'. collect_frontier self current collector = Some collector' \<and> collector_ok collector' \<and>
    set (matches collector') = set (matches collector) \<union>
      (\<Union>n \<in> set current. {sid. holds (node_at self) n [] sid \<or> holds (node_at self) n [Compiled_DoubleStar] sid})"
  using assms
proof (induction current arbitrary: collector)
  case (Cons n current)
  then obtain nd where nd: "node_at self n = Some nd" by auto
  note c = collect_final_matches_ok [OF Cons.prems(2), of nd]
  from Cons.IH [of "collect_final_matches nd collector"] Cons.prems(1) c show ?case
    by (auto simp: nd holds_def simp del: node_holds.simps)
qed simp

lemma suffix_hits_pmatch:
  assumes "index_ok self" "tame self n"
  shows "sid \<in> suffix_hits self (compiled_route (lookup_segment (interner self)) route) i n \<longleftrightarrow>
    (\<exists>ps cs. compiles (lookup_segment (interner self)) ps cs \<and>
       holds (node_at self) n (Compiled_DoubleStar # cs) sid \<and> pmatch (DoubleStar # ps) (drop i route))"
proof -
  have "inj_map (lookup_segment (interner self))" using assms(1) by (simp add: index_ok_def interner_inj)
  note suffix = matches_suffix_pmatch [OF this]
  have "\<exists>ps. compiles (lookup_segment (interner self)) ps cs" if "holds (node_at self) n (Compiled_DoubleStar # cs) sid" for cs
  proof -
    have "stored (node_at self) n (Compiled_DoubleStar # cs) sid" using that by simp
    with assms(2) have "\<exists>ps. compiles (lookup_segment (interner self)) ps (Compiled_DoubleStar # cs)"
      unfolding tame_def by blast
    then show ?thesis by (auto simp: compiles_Cons2)
  qed
  then show ?thesis unfolding suffix_hits_def using suffix by blast
qed

lemma traverse_ok:
  assumes ok: "index_ok self" and "\<forall>n \<in> set current. tame self n" "collector_ok collector"
    and "rest = drop i route"
  shows "\<exists>current' collector'. traverse self (compiled_route (lookup_segment (interner self)) route) i
      (compiled_route (lookup_segment (interner self)) rest) current collector = Some (current', collector') \<and>
    (\<forall>n \<in> set current'. tame self n) \<and> collector_ok collector' \<and>
    set (matches collector') \<union> (\<Union>n \<in> set current'. hits self n []) =
      set (matches collector) \<union> (\<Union>n \<in> set current. hits self n rest)"
  using assms(2-)
proof (induction rest arbitrary: i current collector)
  case (Cons x rest)
  let ?L = "lookup_segment (interner self)"
  let ?route = "compiled_route ?L route"
  have dom: "set current \<subseteq> dom (node_at self)" using Cons.prems(1) by (auto simp: tame_def)
  from visit_frontier_ok [OF dom Cons.prems(2), of ?route i "\<lparr>exact_id = ?L x\<rparr>" "[]"]
  obtain next' collector' where v: "visit_frontier self ?route i \<lparr>exact_id = ?L x\<rparr> current [] collector = Some (next', collector')"
    "set next' = (\<Union>n \<in> set current. next_of self (?L x) n)" "collector_ok collector'"
    "set (matches collector') = set (matches collector) \<union> (\<Union>n \<in> set current. suffix_hits self ?route i n)" by auto
  have tame: "\<forall>n \<in> set next'. tame self n"
    using v(2) Cons.prems(1) tame_child [OF ok] by (auto simp: next_of_def)
  have "rest = drop (i + 1) route" using Cons.prems(3) by (metis Suc_eq_plus1 drop_Suc list.sel(3) tl_drop)
  from Cons.IH [OF tame v(3) this] obtain current' collector'' where
    t: "traverse self ?route (i + 1) (compiled_route ?L rest) next' collector' = Some (current', collector'')"
      "\<forall>n \<in> set current'. tame self n" "collector_ok collector''"
      "set (matches collector'') \<union> (\<Union>n \<in> set current'. hits self n []) =
         set (matches collector') \<union> (\<Union>n \<in> set next'. hits self n rest)" by auto
  have "hits self n (x # rest) = suffix_hits self ?route i n \<union> (\<Union>c \<in> next_of self (?L x) n. hits self c rest)"
    if "n \<in> set current" for n
  proof (rule set_eqI)
    fix sid
    from Cons.prems(1) that have "tame self n" by simp
    from suffix_hits_pmatch [OF ok this, of sid route i]
    show "sid \<in> hits self n (x # rest) \<longleftrightarrow> sid \<in> suffix_hits self ?route i n \<union> (\<Union>c \<in> next_of self (?L x) n. hits self c rest)"
      unfolding hits_Cons Cons.prems(3) [symmetric] by (auto simp: next_of_def simp del: pmatch.simps(4))
  qed
  then have "(\<Union>n \<in> set current. hits self n (x # rest)) = (\<Union>n \<in> set current.
      suffix_hits self ?route i n \<union> (\<Union>c \<in> next_of self (?L x) n. hits self c rest))"
    by (rule SUP_cong [OF refl])
  also have "\<dots> = (\<Union>n \<in> set current. suffix_hits self ?route i n) \<union> (\<Union>n \<in> set next'. hits self n rest)"
    unfolding v(2) by (simp add: UN_Un_distrib)
  finally have "set (matches collector'') \<union> (\<Union>n \<in> set current'. hits self n []) =
      set (matches collector) \<union> (\<Union>n \<in> set current. hits self n (x # rest))"
    unfolding t(4) v(4) by (simp add: Un_assoc)
  with v(1) t(1-3) show ?case by simp
qed simp

lemma match_all_route_str_ok:
  assumes ok: "index_ok self" and free: "\<forall>(f, ps, sid) \<in> entries self. f = fam \<longrightarrow> double_star_free ps"
  shows "\<exists>ms. match_all_route_str self fam route = Some ms \<and> distinct ms \<and>
    set ms = {sid. \<exists>ps. (fam, ps, sid) \<in> entries self \<and> pmatch ps (extract_route_segments_borrowed route)}"
proof (cases "roots self fam")
  case None
  then show ?thesis by (auto simp: match_all_route_str_def entries_None)
next
  case (Some r)
  let ?L = "lookup_segment (interner self)"
  let ?route = "extract_route_segments_borrowed route"
  have r: "r \<in> ran (roots self)" using Some by (rule ranI)
  have tame: "\<forall>n \<in> set [r]. tame self n"
  proof -
    have "r \<in> dom (node_at self)"
      using ok pool_okD(4) [OF _ r] by (auto simp: index_ok_def index_pool_def)
    moreover have "double_star_free ps" if "compiles ?L ps cs" "stored (node_at self) r cs sid" for ps cs sid
      using free entries_Some [OF Some, of ps sid] that by blast
    moreover have "\<exists>ps. compiles ?L ps cs" if "stored (node_at self) r cs sid" for cs sid
      using ok r that unfolding index_ok_def by blast
    ultimately show ?thesis by (auto simp: tame_def)
  qed
  have "collector_ok collector_new" by (simp add: collector_ok_def collector_new_def)
  from traverse_ok [OF ok tame this, of ?route 0 ?route] obtain current collector where
    t: "traverse self (compiled_route ?L ?route) 0 (compiled_route ?L ?route) [r] collector_new = Some (current, collector)"
      "\<forall>n \<in> set current. tame self n" "collector_ok collector"
      "set (matches collector) \<union> (\<Union>n \<in> set current. hits self n []) = hits self r ?route"
    by (auto simp: collector_new_def)
  have "set current \<subseteq> dom (node_at self)" using t(2) by (auto simp: tame_def)
  from collect_frontier_ok [OF this t(3)] obtain collector' where
    c: "collect_frontier self current collector = Some collector'" "collector_ok collector'"
      "set (matches collector') = hits self r ?route"
    using t(2,4) hits_Nil by auto
  have "hits self r ?route = {sid. \<exists>ps. (fam, ps, sid) \<in> entries self \<and> pmatch ps ?route}"
    using entries_Some [OF Some] by (auto simp: hits_def)
  with c t(1) Some show ?thesis
    by (simp add: match_all_route_str_def compile_route_segments_lookup_def collector_ok_def)
qed

section \<open>The contract\<close>

type_synonym registration = "route_family \<times> pattern_segment list \<times> subscription_id"

datatype index_op =
    Insert_Op route_family route subscription_id
  | Batch_Op route_family "(route \<times> subscription_id) list"
  | Remove_Op route_family route subscription_id

text \<open>The abstract index: a set of registrations.\<close>

fun registered :: "registration set \<Rightarrow> index_op \<Rightarrow> registration set" where
  "registered R (Insert_Op fam pat sid) = insert (fam, parse_pattern_segments pat, sid) R"
| "registered R (Batch_Op fam items) = R \<union> (\<lambda>(pat, sid). (fam, parse_pattern_segments pat, sid)) ` set items"
| "registered R (Remove_Op fam pat sid) = R - {(fam, parse_pattern_segments pat, sid)}"

text \<open>An insertion takes at most one slot per pattern segment and one for a root.\<close>

fun op_cost :: "index_op \<Rightarrow> nat" where
  "op_cost (Insert_Op fam pat sid) = length (parse_pattern_segments pat) + 1"
| "op_cost (Batch_Op fam items) = sum_list (map (\<lambda>(pat, sid). length (parse_pattern_segments pat)) items) + 1"
| "op_cost (Remove_Op fam pat sid) = 0"

fun run_ops :: "('s \<Rightarrow> index_op \<Rightarrow> 's option) \<Rightarrow> 's \<Rightarrow> index_op list \<Rightarrow> 's option" where
  "run_ops step s [] = Some s"
| "run_ops step s (x # xs) = step s x \<bind> (\<lambda>s. run_ops step s xs)"

fun index_step :: "subscription_index \<Rightarrow> index_op \<Rightarrow> subscription_index option" where
  "index_step self (Insert_Op fam pat sid) = index_insert self fam pat sid"
| "index_step self (Batch_Op fam items) = index_insert_batch self fam items"
| "index_step self (Remove_Op fam pat sid) = index_remove self fam pat sid"

locale route_index =
  fixes start :: 's
    and step :: "'s \<Rightarrow> index_op \<Rightarrow> 's option"
    and matching :: "'s \<Rightarrow> route_family \<Rightarrow> string \<Rightarrow> subscription_id list option"
    and regs :: "'s \<Rightarrow> registration set"
    and within :: "nat \<Rightarrow> 's \<Rightarrow> bool"
  assumes start_within: "within 0 start" and regs_start: "regs start = {}"
    and step_ok: "within k s \<Longrightarrow> k + op_cost x \<le> 2 ^ 32 \<Longrightarrow>
      \<exists>s'. step s x = Some s' \<and> within (k + op_cost x) s' \<and> regs s' = registered (regs s) x"
    and matching_ok: "within k s \<Longrightarrow> (\<And>ps sid. (fam, ps, sid) \<in> regs s \<Longrightarrow> double_star_free ps) \<Longrightarrow>
      \<exists>ms. matching s fam route = Some ms \<and> distinct ms \<and>
        set ms = {sid. \<exists>ps. (fam, ps, sid) \<in> regs s \<and> match_segments ps (extract_route_segments_borrowed route)}"
begin

lemma run_within:
  "within k s \<Longrightarrow> k + sum_list (map op_cost xs) \<le> 2 ^ 32 \<Longrightarrow>
     \<exists>s'. run_ops step s xs = Some s' \<and> within (k + sum_list (map op_cost xs)) s' \<and> regs s' = foldl registered (regs s) xs"
proof (induction xs arbitrary: k s)
  case (Cons x xs)
  from step_ok [OF Cons.prems(1), of x] Cons.prems(2) obtain s' where
    s': "step s x = Some s'" "within (k + op_cost x) s'" "regs s' = registered (regs s) x" by auto
  from Cons.IH [OF s'(2)] Cons.prems(2) s' show ?case by (auto simp: add.assoc)
qed simp

lemma run_matches:
  assumes "sum_list (map op_cost xs) \<le> 2 ^ 32"
    and "\<And>ps sid. (fam, ps, sid) \<in> foldl registered {} xs \<Longrightarrow> double_star_free ps"
  shows "\<exists>s ms. run_ops step start xs = Some s \<and> regs s = foldl registered {} xs \<and>
    matching s fam route = Some ms \<and> distinct ms \<and>
    set ms = {sid. \<exists>ps. (fam, ps, sid) \<in> foldl registered {} xs \<and>
      match_segments ps (extract_route_segments_borrowed route)}"
proof -
  from run_within [OF start_within, of xs] assms(1) obtain s where
    s: "run_ops step start xs = Some s" "within (sum_list (map op_cost xs)) s" "regs s = foldl registered {} xs"
    by (auto simp: regs_start)
  from matching_ok [OF s(2), of fam route] assms(2) s show ?thesis by auto
qed

end

interpretation subscription_set: route_index subscription_index_new index_step match_all_route_str entries index_within
proof unfold_locales
  show "index_within 0 subscription_index_new"
    by (simp add: index_within_def index_ok_def index_pool_def pool_ok_def subscription_index_new_def node_at_def
        edge_def interner_ok_def cache_ok_def segment_interner_new_def segments_cache_new_def)
  show "entries subscription_index_new = {}"
    by (simp add: entries_def subscription_index_new_def)
next
  fix k :: nat and s x
  assume "index_within k s" "k + op_cost x \<le> 2 ^ 32"
  then show "\<exists>s'. index_step s x = Some s' \<and> index_within (k + op_cost x) s' \<and> entries s' = registered (entries s) x"
    using index_insert_ok [of k s] index_insert_batch_ok [of k s] index_remove_ok [of k s]
    by (cases x) (simp_all add: add.assoc)
next
  fix k s fam route
  assume w: "index_within k s" and free: "\<And>ps sid. (fam, ps, sid) \<in> entries s \<Longrightarrow> double_star_free ps"
  then show "\<exists>ms. match_all_route_str s fam route = Some ms \<and> distinct ms \<and>
      set ms = {sid. \<exists>ps. (fam, ps, sid) \<in> entries s \<and> match_segments ps (extract_route_segments_borrowed route)}"
    using match_all_route_str_ok [of s fam route] unfolding match_segments_pmatch by (auto simp: index_within_def)
qed

section \<open>Properties\<close>

text \<open>
  C29. The index implements the set of its registrations. From the empty index, every sequence of
  insertions and removals that inserts at most \<open>2 ^ 32\<close> segments and roots runs without a panic; a
  match then returns, each once, exactly the subscriptions registered for the family and not removed
  whose pattern accepts the route according to \<^verbatim>\<open>match_segments\<close>, provided no pattern of that
  family has two adjacent \<^verbatim>\<open>**\<close> (which \<^verbatim>\<open>compile_registration_pattern\<close> refuses).
\<close>

theorem index_refines_registrations:
  assumes "sum_list (map op_cost xs) \<le> 2 ^ 32"
    and "\<And>ps sid. (fam, ps, sid) \<in> foldl registered {} xs \<Longrightarrow> double_star_free ps"
  shows "\<exists>self ms. run_ops index_step subscription_index_new xs = Some self \<and>
    entries self = foldl registered {} xs \<and>
    match_all_route_str self fam route = Some ms \<and> distinct ms \<and>
    set ms = {sid. \<exists>ps. (fam, ps, sid) \<in> foldl registered {} xs \<and>
      match_segments ps (extract_route_segments_borrowed route)}"
  using assms by (rule subscription_set.run_matches)

theorem index_refines_registrations_witness:
  "\<exists>self ms. run_ops index_step subscription_index_new
      [Insert_Op 1 ''notice://a/*'' 7, Insert_Op 1 ''notice://a/**'' 8, Insert_Op 2 ''notice://a/b'' 9,
       Batch_Op 2 [(''notice://**'', 10)], Remove_Op 1 ''notice://a/*'' 7] = Some self \<and>
    match_all_route_str self 1 ''notice://a/b'' = Some ms \<and> set ms = {8}"
proof -
  let ?xs = "[Insert_Op 1 ''notice://a/*'' 7, Insert_Op 1 ''notice://a/**'' 8, Insert_Op 2 ''notice://a/b'' 9,
       Batch_Op 2 [(''notice://**'', 10)], Remove_Op 1 ''notice://a/*'' 7]"
  note parse = parse_pattern_segments_def split_route_def split_scheme_def parse_segment_def
    collect_path_segments_fast_def strip_prefix_def
  have regs: "foldl registered {} ?xs = {(1, [Literal ''a'', DoubleStar], 8), (2, [Literal ''a'', Literal ''b''], 9), (2, [DoubleStar], 10)}"
    by (auto simp: parse)
  have cost: "sum_list (map op_cost ?xs) \<le> 2 ^ 32" by (simp add: parse)
  have free: "double_star_free ps" if "(1, ps, sid) \<in> foldl registered {} ?xs" for ps sid
    using that unfolding regs by (auto simp: double_star_free_def)
  have eight: "{sid. \<exists>ps. (1, ps, sid) \<in> foldl registered {} ?xs \<and>
      match_segments ps (extract_route_segments_borrowed ''notice://a/b'')} = {8}"
    unfolding regs by (auto simp: extract_route_segments_borrowed_def parse match_segments_pmatch)
  have "\<exists>self ms. run_ops index_step subscription_index_new ?xs = Some self \<and> entries self = foldl registered {} ?xs \<and>
      match_all_route_str self 1 ''notice://a/b'' = Some ms \<and> distinct ms \<and> set ms = {8}"
    unfolding eight [symmetric] by (rule index_refines_registrations [OF cost free])
  then show ?thesis by blast
qed

text \<open>
  Two adjacent \<^verbatim>\<open>**\<close> are where the index and the pattern matcher part: a suffix that is not
  empty is never tried at the end of the route, so \<^verbatim>\<open>a/**/**\<close> does not find \<^verbatim>\<open>a\<close>, which the
  pattern accepts.
\<close>

lemma adjacent_double_star_gap:
  "run_ops index_step subscription_index_new [Insert_Op 1 ''a/**/**'' 7] \<bind>
     (\<lambda>self. match_all_route_str self 1 ''a'') = Some [] \<and>
   matches_str (pattern_new ''a/**/**'') ''a''"
proof -
  note parse = parse_pattern_segments_def split_route_def split_scheme_def parse_segment_def
    collect_path_segments_fast_def strip_prefix_def extract_route_segments_borrowed_def
  note index = index_insert_def compile_pattern_segments_intern_def get_or_parse_def intern_def
    subscription_index_new_def segments_cache_new_def segment_interner_new_def lookup_segment_def
    usize_to_segment_id_saturating_def usize_to_node_id_saturating_def try_from_usize_def
    get_or_create_root_def alloc_node_def modify_node_def node_at_def node_new_def add_double_star_def
  note matching = match_all_route_str_def compile_route_segments_lookup_def collector_new_def
    collect_double_star_matches_def collect_final_matches_def CACHE_MAX_ENTRIES_def matches_suffix_compiled_def
  have "run_ops index_step subscription_index_new [Insert_Op 1 ''a/**/**'' 7] \<bind>
     (\<lambda>self. match_all_route_str self 1 ''a'') = Some []"
    by (simp add: parse index matching Let_def)
  moreover have "matches_str (pattern_new ''a/**/**'') ''a''"
    by (simp add: matches_str_def pattern_new_def parse_pattern_def parse match_segments_pmatch)
  ultimately show ?thesis by blast
qed

end
