(* ===== verification/Subscription_State.thy ===== *)
theory Subscription_State
  imports Subscription_Match
begin

text \<open>
  The registrations of one family of a domain (\<^verbatim>\<open>src/domains/subscription_state.rs\<close>):
  \<^verbatim>\<open>RoutedSubscriptionSet\<close> keeps the subscriptions by identifier together with five derived
  indexes (patterns and identifiers per session, wildcard counts, exact routes, the wildcard trie) and
  the telemetry of every registration. The invariant \<open>set_ok\<close> says that each derived index is
  exactly what the subscriptions determine; insertion and the three removals keep it, matching returns
  exactly the matching registrations, and the per-session limits bound what a session can hold.

  The trait's associated data are the fields of an extensible record; \<^verbatim>\<open>metric_domain\<close> is a
  parameter. A hash map is an association list, a hash set a list without duplicates.
\<close>

section \<open>Definitions\<close>

definition MAX_WILDCARD_REGISTRATIONS_PER_SESSION :: nat where "MAX_WILDCARD_REGISTRATIONS_PER_SESSION = 128"
definition MAX_TOTAL_REGISTRATIONS_PER_SESSION :: nat where "MAX_TOTAL_REGISTRATIONS_PER_SESSION = 1024"

datatype registration_limit = Total | Wildcard

definition wildcard_registration_limit_reached :: "pattern \<Rightarrow> nat \<Rightarrow> bool" where
  "wildcard_registration_limit_reached p current_wildcard_count \<longleftrightarrow>
     is_wildcard p \<and> current_wildcard_count \<ge> MAX_WILDCARD_REGISTRATIONS_PER_SESSION"

definition registration_limit_for_counts :: "nat \<Rightarrow> pattern \<Rightarrow> nat \<Rightarrow> registration_limit option" where
  "registration_limit_for_counts current_total_count p current_wildcard_count =
     (if wildcard_registration_limit_reached p current_wildcard_count then Some Wildcard
      else if current_total_count \<ge> MAX_TOTAL_REGISTRATIONS_PER_SESSION then Some Total
      else None)"

record routed_subscription =
  sub_pattern :: pattern
  session_id :: u64
  subscription_id_of :: u64

subsection \<open>Telemetry\<close>

record registration_telemetry =
  current :: nat
  high_water :: nat
  crossed_128 :: bool
  crossed_1024 :: bool
  crossed_10000 :: bool

definition registration_telemetry_default :: registration_telemetry where
  "registration_telemetry_default = \<lparr>current = 0, high_water = 0, crossed_128 = False,
     crossed_1024 = False, crossed_10000 = False\<rparr>"

datatype metric_call = Gauge_Set string u64 | Counter_Inc string

text \<open>The global telemetry map, and the calls made on the metrics collector in order.\<close>

record registration_world =
  telemetry :: "(string \<times> registration_telemetry) list"
  metric_calls :: "metric_call list"

text \<open>\<^verbatim>\<open>usize::saturating_add(1)\<close>.\<close>

definition saturating_inc :: "nat \<Rightarrow> nat" where
  "saturating_inc n = min (n + 1) (2 ^ 64 - 1)"

definition threshold_calls :: "string \<Rightarrow> nat \<Rightarrow> (nat \<times> bool) list \<Rightarrow> metric_call list" where
  "threshold_calls domain_name high thresholds =
     map (\<lambda>(threshold, crossed). Counter_Inc (''fitz_'' @ domain_name @ ''_registration_threshold_'' @
            decimal threshold @ ''_total''))
       (filter (\<lambda>(threshold, crossed). \<not> crossed \<and> high \<ge> threshold) thresholds)"

definition record_registration_delta :: "string \<Rightarrow> bool \<Rightarrow> registration_world \<Rightarrow> registration_world" where
  "record_registration_delta domain_name added w =
     (let st = (case map_of (telemetry w) domain_name of Some st \<Rightarrow> st | None \<Rightarrow> registration_telemetry_default);
          cur = (if added then saturating_inc (current st) else current st - 1);
          high = max (high_water st) cur;
          calls = [Gauge_Set (''fitz_'' @ domain_name @ ''_registrations'') (of_nat cur),
                   Gauge_Set (''fitz_'' @ domain_name @ ''_registrations_high_water'') (of_nat high)] @
            threshold_calls domain_name high
              [(128, crossed_128 st), (1024, crossed_1024 st), (10000, crossed_10000 st)];
          st = \<lparr>current = cur, high_water = high, crossed_128 = crossed_128 st \<or> high \<ge> 128,
                crossed_1024 = crossed_1024 st \<or> high \<ge> 1024, crossed_10000 = crossed_10000 st \<or> high \<ge> 10000\<rparr>
      in w\<lparr>telemetry := AList.update domain_name st (telemetry w), metric_calls := metric_calls w @ calls\<rparr>)"

subsection \<open>The set\<close>

record 'a subscription_set =
  subscriptions :: "(u64 \<times> 'a routed_subscription_scheme) list"
  session_patterns :: "(u64 \<times> (string \<times> u64) list) list"
  session_subscription_ids :: "(u64 \<times> u64 list) list"
  wildcard_subscription_counts :: "(u64 \<times> nat) list"
  wildcard_index :: subscription_index
  exact_routes :: "(string \<times> u64 list) list"
  wildcard_subscription_count :: nat

definition subscription_set_new :: "'a subscription_set" where
  "subscription_set_new = \<lparr>subscriptions = [], session_patterns = [], session_subscription_ids = [],
     wildcard_subscription_counts = [], wildcard_index = subscription_index_new, exact_routes = [],
     wildcard_subscription_count = 0\<rparr>"

definition set_is_empty :: "'a subscription_set \<Rightarrow> bool" where
  "set_is_empty self \<longleftrightarrow> subscriptions self = []"

definition subscription_count :: "'a subscription_set \<Rightarrow> nat" where
  "subscription_count self = length (subscriptions self)"

definition subscription_count_for_session :: "'a subscription_set \<Rightarrow> u64 \<Rightarrow> nat" where
  "subscription_count_for_session self sess =
     (case map_of (session_subscription_ids self) sess of None \<Rightarrow> 0 | Some sids \<Rightarrow> length sids)"

definition wildcard_subscription_count_for_session :: "'a subscription_set \<Rightarrow> u64 \<Rightarrow> nat" where
  "wildcard_subscription_count_for_session self sess =
     (case map_of (wildcard_subscription_counts self) sess of None \<Rightarrow> 0 | Some n \<Rightarrow> n)"

definition registration_limit_for_session :: "'a subscription_set \<Rightarrow> u64 \<Rightarrow> pattern \<Rightarrow> registration_limit option" where
  "registration_limit_for_session self sess p =
     registration_limit_for_counts (subscription_count_for_session self sess) p
       (wildcard_subscription_count_for_session self sess)"

definition set_get :: "'a subscription_set \<Rightarrow> u64 \<Rightarrow> 'a routed_subscription_scheme option" where
  "set_get self sid = map_of (subscriptions self) sid"

definition matching_ids :: "'a subscription_set \<Rightarrow> route_family \<Rightarrow> string \<Rightarrow> u64 list option" where
  "matching_ids self fam route =
     (let sids = (case map_of (exact_routes self) route of Some sids \<Rightarrow> sids | None \<Rightarrow> [])
      in if wildcard_subscription_count self > 0
         then map_option ((@) sids) (match_all_route_str (wildcard_index self) fam route)
         else Some sids)"

definition matching_capacity_hint :: "'a subscription_set \<Rightarrow> string \<Rightarrow> nat" where
  "matching_capacity_hint self route =
     (case map_of (exact_routes self) route of None \<Rightarrow> 0 | Some sids \<Rightarrow> length sids) + wildcard_subscription_count self"

definition find_existing_id :: "'a subscription_set \<Rightarrow> u64 \<Rightarrow> string \<Rightarrow> u64 option" where
  "find_existing_id self sess pat = map_of (session_patterns self) sess \<bind> (\<lambda>patterns. map_of patterns pat)"

text \<open>\<^verbatim>\<open>entry(key).or_default()\<close> read back.\<close>

definition entry_or :: "'v \<Rightarrow> ('k \<times> 'v) list \<Rightarrow> 'k \<Rightarrow> 'v" where
  "entry_or d m key = (case map_of m key of Some v \<Rightarrow> v | None \<Rightarrow> d)"

definition set_insert :: "string \<Rightarrow> 'a subscription_set \<Rightarrow> registration_world \<Rightarrow> route_family
    \<Rightarrow> 'a routed_subscription_scheme \<Rightarrow> ('a subscription_set \<times> registration_world) option" where
  "set_insert domain_name self w fam subscription =
     (let sid = subscription_id_of subscription;
          sess = session_id subscription;
          pat = pat_route (sub_pattern subscription);
          self = self\<lparr>session_patterns :=
            AList.update sess (AList.update pat sid (entry_or [] (session_patterns self) sess)) (session_patterns self)\<rparr>;
          self = self\<lparr>session_subscription_ids :=
            AList.update sess (let sids = entry_or [] (session_subscription_ids self) sess
                               in if sid \<in> set sids then sids else sids @ [sid]) (session_subscription_ids self)\<rparr>
      in do {
        self \<leftarrow> (if is_wildcard (sub_pattern subscription) then do {
            index \<leftarrow> index_insert (wildcard_index self) fam pat sid;
            Some (self\<lparr>wildcard_index := index,
              wildcard_subscription_count := saturating_inc (wildcard_subscription_count self),
              wildcard_subscription_counts := AList.update sess
                (saturating_inc (entry_or 0 (wildcard_subscription_counts self) sess)) (wildcard_subscription_counts self)\<rparr>)
          }
          else Some (self\<lparr>exact_routes :=
            AList.update pat (entry_or [] (exact_routes self) pat @ [sid]) (exact_routes self)\<rparr>));
        Some (self\<lparr>subscriptions := AList.update sid subscription (subscriptions self)\<rparr>,
          record_registration_delta domain_name True w)
      })"

text \<open>The three blocks of \<^verbatim>\<open>remove_subscription\<close> that shrink one entry of a map and remove the
  entry when it becomes empty.\<close>

definition drop_pattern :: "u64 \<Rightarrow> string \<Rightarrow> (u64 \<times> (string \<times> u64) list) list \<Rightarrow> (u64 \<times> (string \<times> u64) list) list" where
  "drop_pattern sess pat sp =
     (case map_of sp sess of
        None \<Rightarrow> sp
      | Some patterns \<Rightarrow>
          let patterns = AList.delete pat patterns
          in if patterns = [] then AList.delete sess sp else AList.update sess patterns sp)"

definition drop_id :: "'k \<Rightarrow> u64 \<Rightarrow> ('k \<times> u64 list) list \<Rightarrow> ('k \<times> u64 list) list" where
  "drop_id key sid m =
     (case map_of m key of
        None \<Rightarrow> m
      | Some sids \<Rightarrow>
          let sids = filter (\<lambda>i. i \<noteq> sid) sids
          in if sids = [] then AList.delete key m else AList.update key sids m)"

definition drop_count :: "u64 \<Rightarrow> (u64 \<times> nat) list \<Rightarrow> (u64 \<times> nat) list" where
  "drop_count sess wc =
     (case map_of wc sess of
        None \<Rightarrow> wc
      | Some n \<Rightarrow> if n - 1 = 0 then AList.delete sess wc else AList.update sess (n - 1) wc)"

definition remove_subscription :: "string \<Rightarrow> 'a subscription_set \<Rightarrow> registration_world \<Rightarrow> route_family
    \<Rightarrow> u64 \<Rightarrow> ('a subscription_set \<times> registration_world) option" where
  "remove_subscription domain_name self w fam sid =
     (case map_of (subscriptions self) sid of
        None \<Rightarrow> Some (self, w)
      | Some subscription \<Rightarrow>
          let w = record_registration_delta domain_name False w;
              sess = session_id subscription;
              pat = pat_route (sub_pattern subscription);
              self = self\<lparr>subscriptions := AList.delete sid (subscriptions self),
                session_patterns := drop_pattern sess pat (session_patterns self),
                session_subscription_ids := drop_id sess sid (session_subscription_ids self)\<rparr>
          in if is_wildcard (sub_pattern subscription) then do {
               index \<leftarrow> index_remove (wildcard_index self) fam pat sid;
               Some (self\<lparr>wildcard_index := index,
                   wildcard_subscription_count := wildcard_subscription_count self - 1,
                   wildcard_subscription_counts := drop_count sess (wildcard_subscription_counts self)\<rparr>, w)
             }
             else Some (self\<lparr>exact_routes := drop_id pat sid (exact_routes self)\<rparr>, w))"

definition remove_session_pattern :: "string \<Rightarrow> 'a subscription_set \<Rightarrow> registration_world \<Rightarrow> route_family
    \<Rightarrow> u64 \<Rightarrow> string \<Rightarrow> (nat \<times> 'a subscription_set \<times> registration_world) option" where
  "remove_session_pattern domain_name self w fam sess pat =
     (case find_existing_id self sess pat of
        None \<Rightarrow> Some (0, self, w)
      | Some sid \<Rightarrow> map_option (Pair 1) (remove_subscription domain_name self w fam sid))"

fun remove_each :: "string \<Rightarrow> 'a subscription_set \<Rightarrow> registration_world \<Rightarrow> route_family \<Rightarrow> u64 list
    \<Rightarrow> ('a subscription_set \<times> registration_world) option" where
  "remove_each domain_name self w fam [] = Some (self, w)"
| "remove_each domain_name self w fam (sid # sids) = do {
     (self, w) \<leftarrow> remove_subscription domain_name self w fam sid;
     remove_each domain_name self w fam sids
   }"

definition remove_session :: "string \<Rightarrow> 'a subscription_set \<Rightarrow> registration_world \<Rightarrow> route_family
    \<Rightarrow> u64 \<Rightarrow> (nat \<times> 'a subscription_set \<times> registration_world) option" where
  "remove_session domain_name self w fam sess =
     (case map_of (session_subscription_ids self) sess of
        None \<Rightarrow> Some (0, self, w)
      | Some removed_ids \<Rightarrow>
          map_option (Pair (length removed_ids))
            (remove_each domain_name
              (self\<lparr>session_subscription_ids := AList.delete sess (session_subscription_ids self)\<rparr>) w fam removed_ids))"

definition remove_subscription_for_session :: "string \<Rightarrow> 'a subscription_set \<Rightarrow> registration_world \<Rightarrow> route_family
    \<Rightarrow> u64 \<Rightarrow> u64 \<Rightarrow> (bool \<times> 'a subscription_set \<times> registration_world) option" where
  "remove_subscription_for_session domain_name self w fam sess sid =
     (let matches_session =
        (case map_of (subscriptions self) sid of None \<Rightarrow> False | Some s \<Rightarrow> session_id s = sess)
      in if matches_session then map_option (Pair True) (remove_subscription domain_name self w fam sid)
         else Some (False, self, w))"

text \<open>The subscriptions in the order they are visited; \<^verbatim>\<open>matched\<close> counts the visits.\<close>

definition for_each_matching_route ::
  "'a subscription_set \<Rightarrow> route_family \<Rightarrow> string \<Rightarrow> 'a routed_subscription_scheme list option" where
  "for_each_matching_route self fam route =
     (let exact_visits = (case map_of (exact_routes self) route of
            None \<Rightarrow> []
          | Some sids \<Rightarrow> List.map_filter (\<lambda>sid. map_of (subscriptions self) sid) sids)
      in if wildcard_subscription_count self > 0 then do {
           wildcard_matches \<leftarrow> match_all_route_str (wildcard_index self) fam route;
           Some (exact_visits @ List.map_filter (\<lambda>sid. map_of (subscriptions self) sid) wildcard_matches)
         }
         else Some exact_visits)"

text \<open>\<^verbatim>\<open>Drop\<close>: one decrement per subscription left.\<close>

definition drop_set :: "string \<Rightarrow> 'a subscription_set \<Rightarrow> registration_world \<Rightarrow> registration_world" where
  "drop_set domain_name self w = (record_registration_delta domain_name False ^^ subscription_count self) w"

section \<open>Derived indexes\<close>

text \<open>The identifiers whose entry has the key \<open>k\<close>.\<close>

definition owned :: "('i \<rightharpoonup> 's) \<Rightarrow> ('s \<Rightarrow> 'k option) \<Rightarrow> 'k \<Rightarrow> 'i set" where
  "owned D key k = {i. \<exists>s. D i = Some s \<and> key s = Some k}"

definition grouped :: "('k \<rightharpoonup> 'i list) \<Rightarrow> ('i \<rightharpoonup> 's) \<Rightarrow> ('s \<Rightarrow> 'k option) \<Rightarrow> 'k \<Rightarrow> bool" where
  "grouped m D key k \<longleftrightarrow> (case m k of None \<Rightarrow> owned D key k = {}
     | Some is \<Rightarrow> is \<noteq> [] \<and> distinct is \<and> set is = owned D key k)"

definition counted :: "('k \<rightharpoonup> nat) \<Rightarrow> ('i \<rightharpoonup> 's) \<Rightarrow> ('s \<Rightarrow> 'k option) \<Rightarrow> 'k \<Rightarrow> bool" where
  "counted m D key k \<longleftrightarrow> (case m k of None \<Rightarrow> owned D key k = {}
     | Some n \<Rightarrow> n \<noteq> 0 \<and> n = card (owned D key k))"

lemma owned_insert:
  "D i = None \<Longrightarrow> owned (D(i \<mapsto> s)) key k = (if key s = Some k then insert i (owned D key k) else owned D key k)"
  by (auto simp: owned_def)

lemma owned_delete:
  "D i = Some s \<Longrightarrow> owned (D(i := None)) key k = (if key s = Some k then owned D key k - {i} else owned D key k)"
  by (auto simp: owned_def)

lemma not_owned: "D i = None \<Longrightarrow> i \<notin> owned D key k"
  by (simp add: owned_def)

lemma owned_here: "D i = Some s \<Longrightarrow> key s = Some k \<Longrightarrow> i \<in> owned D key k"
  by (simp add: owned_def)

lemma finite_owned: "finite (dom D) \<Longrightarrow> finite (owned D key k)"
  by (rule finite_subset [of _ "dom D"]) (auto simp: owned_def)

lemma grouped_Some: "grouped m D key k \<Longrightarrow> D i = Some s \<Longrightarrow> key s = Some k \<Longrightarrow> \<exists>is. m k = Some is"
  by (cases "m k") (auto simp: grouped_def owned_def)

lemma counted_Some: "counted m D key k \<Longrightarrow> D i = Some s \<Longrightarrow> key s = Some k \<Longrightarrow> \<exists>n. m k = Some n"
  by (cases "m k") (auto simp: counted_def owned_def)

text \<open>Pushing a new identifier, and dropping one with the emptied group.\<close>

lemma grouped_push:
  assumes "D i = None" "grouped m D key j" "key s = Some k"
  shows "grouped (m(k \<mapsto> (case m k of Some is \<Rightarrow> is | None \<Rightarrow> []) @ [i])) (D(i \<mapsto> s)) key j"
  using assms not_owned [of D i key k]
  by (cases "j = k") (auto simp: grouped_def owned_insert split: option.splits)

lemma grouped_skip: "D i = None \<Longrightarrow> grouped m D key j \<Longrightarrow> key s \<noteq> Some j \<Longrightarrow> grouped m (D(i \<mapsto> s)) key j"
  by (simp add: grouped_def owned_insert split: option.splits)

lemma grouped_drop:
  assumes i: "D i = Some s" and g: "grouped m D key j" and k: "key s = Some k" and m: "m k = Some is"
  shows "grouped (m(k := if filter (\<lambda>x. x \<noteq> i) is = [] then None else Some (filter (\<lambda>x. x \<noteq> i) is))) (D(i := None)) key j"
  using assms by (cases "j = k") (auto simp: grouped_def owned_delete filter_empty_conv split: option.splits)

lemma grouped_skip_drop:
  "D i = Some s \<Longrightarrow> grouped m D key j \<Longrightarrow> key s \<noteq> Some j \<Longrightarrow> grouped m (D(i := None)) key j"
  by (simp add: grouped_def owned_delete split: option.splits)

lemma counted_push:
  assumes "finite (dom D)" "D i = None" "counted m D key j" "key s = Some k"
  shows "counted (m(k \<mapsto> Suc (case m k of Some n \<Rightarrow> n | None \<Rightarrow> 0))) (D(i \<mapsto> s)) key j"
  using assms not_owned [of D i key k] finite_owned [of D key k]
  by (cases "j = k") (auto simp: counted_def owned_insert split: option.splits)

lemma counted_skip: "D i = None \<Longrightarrow> counted m D key j \<Longrightarrow> key s \<noteq> Some j \<Longrightarrow> counted m (D(i \<mapsto> s)) key j"
  by (simp add: counted_def owned_insert split: option.splits)

lemma counted_drop:
  assumes fin: "finite (dom D)" and i: "D i = Some s" and c: "counted m D key j" and k: "key s = Some k" and m: "m k = Some n"
  shows "counted (m(k := if n - 1 = 0 then None else Some (n - 1))) (D(i := None)) key j"
proof (cases "j = k")
  case True
  have "i \<in> owned D key k" using i k by (rule owned_here)
  moreover have "n = card (owned D key k)" using c m True by (simp add: counted_def)
  ultimately have "n - 1 = card (owned D key k - {i})" using finite_owned [OF fin] by simp
  with True i k finite_owned [OF fin, of key k] show ?thesis
    by (auto simp: counted_def owned_delete)
next
  case False
  with assms show ?thesis by (simp add: counted_def owned_delete split: option.splits)
qed

lemma counted_skip_drop:
  "D i = Some s \<Longrightarrow> counted m D key j \<Longrightarrow> key s \<noteq> Some j \<Longrightarrow> counted m (D(i := None)) key j"
  by (simp add: counted_def owned_delete split: option.splits)

section \<open>The invariant\<close>

abbreviation sub_route :: "'a routed_subscription_scheme \<Rightarrow> string" where
  "sub_route s \<equiv> pat_route (sub_pattern s)"

abbreviation wild :: "'a routed_subscription_scheme \<Rightarrow> bool" where
  "wild s \<equiv> is_wildcard (sub_pattern s)"

definition by_session :: "'a routed_subscription_scheme \<Rightarrow> u64 option" where
  "by_session s = Some (session_id s)"

definition by_wildcard_session :: "'a routed_subscription_scheme \<Rightarrow> u64 option" where
  "by_wildcard_session s = (if wild s then Some (session_id s) else None)"

definition by_wildcard :: "'a routed_subscription_scheme \<Rightarrow> unit option" where
  "by_wildcard s = (if wild s then Some () else None)"

definition by_exact_route :: "'a routed_subscription_scheme \<Rightarrow> string option" where
  "by_exact_route s = (if wild s then None else Some (sub_route s))"

lemmas by_defs = by_session_def by_wildcard_session_def by_wildcard_def by_exact_route_def

definition patterns_ok :: "(u64 \<times> (string \<times> u64) list) list \<Rightarrow> (u64 \<rightharpoonup> 'a routed_subscription_scheme) \<Rightarrow> bool" where
  "patterns_ok sp D \<longleftrightarrow>
     (\<forall>sess pat i. map_of sp sess \<bind> (\<lambda>ps. map_of ps pat) = Some i \<longleftrightarrow>
        (\<exists>s. D i = Some s \<and> session_id s = sess \<and> sub_route s = pat))"

text \<open>While a session is being removed its identifiers have already been taken out: \<open>X\<close>.\<close>

definition ids_ok :: "u64 option \<Rightarrow> (u64 \<times> u64 list) list \<Rightarrow> (u64 \<rightharpoonup> 'a routed_subscription_scheme) \<Rightarrow> bool" where
  "ids_ok X ssi D \<longleftrightarrow> (\<forall>j. if X = Some j then map_of ssi j = None else grouped (map_of ssi) D by_session j)"

definition wildcards_ok :: "nat \<Rightarrow> route_family \<Rightarrow> subscription_index \<Rightarrow> nat \<Rightarrow> (u64 \<times> nat) list
    \<Rightarrow> (u64 \<rightharpoonup> 'a routed_subscription_scheme) \<Rightarrow> bool" where
  "wildcards_ok k fam index n wc D \<longleftrightarrow> (\<forall>j. counted (map_of wc) D by_wildcard_session j) \<and>
     n = card (owned D by_wildcard ()) \<and> n \<le> k \<and> index_within k index \<and>
     entries index = {(f, ps, i). \<exists>s. f = fam \<and> D i = Some s \<and> wild s \<and> ps = parse_pattern_segments (sub_route s)}"

definition set_ok_but :: "u64 option \<Rightarrow> nat \<Rightarrow> route_family \<Rightarrow> 'a subscription_set \<Rightarrow> bool" where
  "set_ok_but X k fam S \<longleftrightarrow>
     distinct (map fst (subscriptions S)) \<and> (\<forall>(i, s) \<in> set (subscriptions S). subscription_id_of s = i) \<and>
     patterns_ok (session_patterns S) (map_of (subscriptions S)) \<and>
     ids_ok X (session_subscription_ids S) (map_of (subscriptions S)) \<and>
     (\<forall>r. grouped (map_of (exact_routes S)) (map_of (subscriptions S)) by_exact_route r) \<and>
     wildcards_ok k fam (wildcard_index S) (wildcard_subscription_count S) (wildcard_subscription_counts S)
       (map_of (subscriptions S))"

abbreviation set_ok :: "nat \<Rightarrow> route_family \<Rightarrow> 'a subscription_set \<Rightarrow> bool" where
  "set_ok \<equiv> set_ok_but None"

lemma set_ok_new: "set_ok 0 fam subscription_set_new"
proof -
  have "index_within 0 subscription_index_new" "entries subscription_index_new = {}"
    using subscription_set.start_within subscription_set.regs_start by auto
  then show ?thesis
    by (simp add: set_ok_but_def subscription_set_new_def patterns_ok_def ids_ok_def grouped_def wildcards_ok_def
        counted_def owned_def)
qed

subsection \<open>Insertion\<close>

lemma patterns_ok_insert:
  assumes ok: "patterns_ok sp D" and new: "D i = None" "map_of sp (session_id s) \<bind> (\<lambda>ps. map_of ps (sub_route s)) = None"
  shows "patterns_ok (AList.update (session_id s) (AList.update (sub_route s) i (entry_or [] sp (session_id s))) sp) (D(i \<mapsto> s))"
proof -
  have "map_of (AList.update (session_id s) (AList.update (sub_route s) i (entry_or [] sp (session_id s))) sp) sess \<bind>
      (\<lambda>ps. map_of ps pat) = (if sess = session_id s \<and> pat = sub_route s then Some i else map_of sp sess \<bind> (\<lambda>ps. map_of ps pat))"
    for sess pat
    by (auto simp: update_conv' entry_or_def split: option.splits)
  moreover have "\<not> (session_id t = session_id s \<and> sub_route t = sub_route s)" if "D j = Some t" for j t
    using ok new(2) that unfolding patterns_ok_def by (metis option.distinct(1))
  ultimately show ?thesis using ok new(1) unfolding patterns_ok_def by (auto split: if_splits)
qed

lemma ids_ok_insert:
  assumes ok: "ids_ok None ssi D" and new: "D i = None"
  shows "ids_ok None (AList.update (session_id s) (let sids = entry_or [] ssi (session_id s)
      in if i \<in> set sids then sids else sids @ [i]) ssi) (D(i \<mapsto> s))"
proof -
  have g: "grouped (map_of ssi) D by_session j" for j using ok by (simp add: ids_ok_def)
  have "i \<notin> owned D by_session (session_id s)" using new by (rule not_owned)
  with g [of "session_id s"] have "i \<notin> set (entry_or [] ssi (session_id s))"
    by (cases "map_of ssi (session_id s)") (simp_all add: grouped_def entry_or_def)
  moreover have "grouped ((map_of ssi)(session_id s \<mapsto> entry_or [] ssi (session_id s) @ [i])) (D(i \<mapsto> s)) by_session j" for j
    unfolding entry_or_def by (rule grouped_push [OF new g]) (simp add: by_session_def)
  ultimately show ?thesis by (simp add: ids_ok_def update_conv')
qed

lemma wildcards_ok_insert:
  assumes ok: "wildcards_ok k fam index n wc D" and fin: "finite (dom D)" and new: "D i = None" and w: "wild s"
    and room: "k + length (parse_pattern_segments (sub_route s)) + 1 \<le> 2 ^ 32"
  obtains index' where "index_insert index fam (sub_route s) i = Some index'"
    "wildcards_ok (k + length (parse_pattern_segments (sub_route s)) + 1) fam index' (saturating_inc n)
       (AList.update (session_id s) (saturating_inc (entry_or 0 wc (session_id s))) wc) (D(i \<mapsto> s))"
proof -
  let ?k = "k + length (parse_pattern_segments (sub_route s)) + 1"
  from ok have within: "index_within k index" by (simp add: wildcards_ok_def)
  from index_insert_ok [OF within room, of fam i] obtain index' where
    i: "index_insert index fam (sub_route s) i = Some index'" "index_within ?k index'"
      "entries index' = insert (fam, parse_pattern_segments (sub_route s), i) (entries index)" by auto
  have n: "n = card (owned D by_wildcard ())" "n \<le> k" using ok by (simp_all add: wildcards_ok_def)
  have key: "by_wildcard_session s = Some (session_id s)" "by_wildcard s = Some ()"
    using w by (simp_all add: by_defs)
  have "owned D by_wildcard_session (session_id s) \<subseteq> owned D by_wildcard ()"
    by (auto simp: owned_def by_defs split: if_splits)
  with finite_owned [OF fin] have "card (owned D by_wildcard_session (session_id s)) \<le> card (owned D by_wildcard ())"
    by (rule card_mono)
  moreover have counted: "counted (map_of wc) D by_wildcard_session j" for j using ok by (simp add: wildcards_ok_def)
  moreover have "entry_or 0 wc (session_id s) = card (owned D by_wildcard_session (session_id s))"
    using counted [of "session_id s"]
    by (cases "map_of wc (session_id s)") (simp_all add: counted_def entry_or_def)
  ultimately have inc: "saturating_inc n = Suc n"
    "saturating_inc (entry_or 0 wc (session_id s)) = Suc (entry_or 0 wc (session_id s))"
    using n room by (simp_all add: saturating_inc_def)
  have "counted (map_of (AList.update (session_id s) (Suc (entry_or 0 wc (session_id s))) wc)) (D(i \<mapsto> s)) by_wildcard_session j" for j
    unfolding update_conv' entry_or_def by (rule counted_push [OF fin new counted key(1)])
  moreover have "Suc n = card (owned (D(i \<mapsto> s)) by_wildcard ())"
    using n(1) owned_insert [of D i s by_wildcard "()"] new key(2) not_owned [of D i by_wildcard "()"]
      finite_owned [OF fin, of by_wildcard "()"] by simp
  moreover have "entries index' = {(f, ps, j). \<exists>t. f = fam \<and> (D(i \<mapsto> s)) j = Some t \<and> wild t \<and>
      ps = parse_pattern_segments (sub_route t)}"
    using ok i(3) new w unfolding wildcards_ok_def by (auto split: if_splits)
  ultimately have "wildcards_ok ?k fam index' (Suc n)
      (AList.update (session_id s) (Suc (entry_or 0 wc (session_id s))) wc) (D(i \<mapsto> s))"
    using i(2) n(2) by (simp add: wildcards_ok_def)
  with that [OF i(1)] inc show thesis by simp
qed

lemma wildcards_ok_skip:
  assumes "wildcards_ok k fam index n wc D" "D i = None" "\<not> wild s"
  shows "wildcards_ok k fam index n wc (D(i \<mapsto> s))"
  using assms unfolding wildcards_ok_def
  by (auto simp: counted_skip owned_insert by_defs split: if_splits)

lemma wildcards_ok_mono: "wildcards_ok k fam index n wc D \<Longrightarrow> k \<le> k' \<Longrightarrow> wildcards_ok k' fam index n wc D"
  by (auto simp: wildcards_ok_def index_within_def)

definition set_cost :: "'a routed_subscription_scheme \<Rightarrow> nat" where
  "set_cost s = length (parse_pattern_segments (sub_route s)) + 1"

lemma set_update_fst: "distinct (map fst xs) \<Longrightarrow> map_of xs i = None \<Longrightarrow> set (AList.update i s xs) = insert (i, s) (set xs)"
  by (simp add: update_absent)

lemma set_insert_ok:
  fixes s :: "'a routed_subscription_scheme"
  assumes ok: "set_ok k fam S" and fresh: "map_of (subscriptions S) (subscription_id_of s) = None"
    and new: "find_existing_id S (session_id s) (sub_route s) = None" and room: "k + set_cost s \<le> 2 ^ 32"
  obtains S' where "set_insert md S w fam s = Some (S', record_registration_delta md True w)"
    "set_ok (k + set_cost s) fam S'"
    "map_of (subscriptions S') = (map_of (subscriptions S))(subscription_id_of s \<mapsto> s)"
proof -
  let ?i = "subscription_id_of s"
  let ?D = "map_of (subscriptions S)"
  let ?subs = "AList.update ?i s (subscriptions S)"
  let ?sp = "AList.update (session_id s) (AList.update (sub_route s) ?i (entry_or [] (session_patterns S) (session_id s)))
    (session_patterns S)"
  let ?ssi = "AList.update (session_id s) (let sids = entry_or [] (session_subscription_ids S) (session_id s)
      in if ?i \<in> set sids then sids else sids @ [?i]) (session_subscription_ids S)"
  let ?er = "AList.update (sub_route s) (entry_or [] (exact_routes S) (sub_route s) @ [?i]) (exact_routes S)"
  have D': "map_of ?subs = ?D(?i \<mapsto> s)" by (simp add: update_conv')
  have base: "distinct (map fst ?subs)" "\<forall>(i, t) \<in> set ?subs. subscription_id_of t = i"
    using ok fresh by (auto simp: set_ok_but_def set_update_fst distinct_update)
  have sp: "patterns_ok ?sp (?D(?i \<mapsto> s))"
    using ok new fresh by (intro patterns_ok_insert) (auto simp: set_ok_but_def find_existing_id_def)
  have ssi: "ids_ok None ?ssi (?D(?i \<mapsto> s))"
    using ok fresh by (intro ids_ok_insert) (auto simp: set_ok_but_def)
  have ex: "grouped (map_of (exact_routes S)) ?D by_exact_route r" for r
    using ok by (simp add: set_ok_but_def)
  have wc: "wildcards_ok k fam (wildcard_index S) (wildcard_subscription_count S) (wildcard_subscription_counts S) ?D"
    using ok by (simp add: set_ok_but_def)
  show thesis
  proof (cases "wild s")
    case True
    have "grouped (map_of (exact_routes S)) (?D(?i \<mapsto> s)) by_exact_route r" for r
      using fresh ex by (rule grouped_skip) (use True in \<open>simp add: by_defs\<close>)
    moreover obtain index' where "index_insert (wildcard_index S) fam (sub_route s) ?i = Some index'"
      "wildcards_ok (k + set_cost s) fam index' (saturating_inc (wildcard_subscription_count S))
        (AList.update (session_id s) (saturating_inc (entry_or 0 (wildcard_subscription_counts S) (session_id s)))
          (wildcard_subscription_counts S)) (?D(?i \<mapsto> s))"
      using wildcards_ok_insert [OF wc _ fresh True] room by (auto simp: set_cost_def finite_dom_map_of add.assoc)
    ultimately show thesis
      using True base sp ssi D'
      by (intro that [of "S\<lparr>session_patterns := ?sp, session_subscription_ids := ?ssi, wildcard_index := index',
          wildcard_subscription_count := saturating_inc (wildcard_subscription_count S),
          wildcard_subscription_counts := AList.update (session_id s)
            (saturating_inc (entry_or 0 (wildcard_subscription_counts S) (session_id s))) (wildcard_subscription_counts S),
          subscriptions := ?subs\<rparr>"])
        (simp_all add: set_insert_def Let_def set_ok_but_def cong: if_cong)
  next
    case False
    have "grouped (map_of ?er) (?D(?i \<mapsto> s)) by_exact_route r" for r
      unfolding update_conv' entry_or_def
      by (rule grouped_push [OF fresh ex]) (use False in \<open>simp add: by_defs\<close>)
    moreover have "wildcards_ok (k + set_cost s) fam (wildcard_index S) (wildcard_subscription_count S)
        (wildcard_subscription_counts S) (?D(?i \<mapsto> s))"
      using wildcards_ok_skip [OF wc fresh False] by (rule wildcards_ok_mono) simp
    ultimately show thesis
      using False base sp ssi D'
      by (intro that [of "S\<lparr>session_patterns := ?sp, session_subscription_ids := ?ssi, exact_routes := ?er,
          subscriptions := ?subs\<rparr>"])
        (simp_all add: set_insert_def Let_def set_ok_but_def cong: if_cong)
  qed
qed

subsection \<open>Removal\<close>

lemma patterns_okD:
  "patterns_ok sp D \<Longrightarrow> D i = Some s \<Longrightarrow> map_of sp (session_id s) \<bind> (\<lambda>ps. map_of ps (sub_route s)) = Some i"
  unfolding patterns_ok_def by blast

lemma patterns_ok_remove:
  assumes ok: "patterns_ok sp D" and i: "D i = Some s"
  shows "patterns_ok (drop_pattern (session_id s) (sub_route s) sp) (D(i := None))" (is "patterns_ok ?sp _")
proof -
  have eq: "map_of ?sp sess \<bind> (\<lambda>ps. map_of ps pat) =
      (if sess = session_id s \<and> pat = sub_route s then None else map_of sp sess \<bind> (\<lambda>ps. map_of ps pat))" for sess pat
  proof (cases "map_of sp (session_id s)")
    case (Some ps)
    have "map_of ps pat = None" if "AList.delete (sub_route s) ps = []" "pat \<noteq> sub_route s" for pat
      using arg_cong [OF that(1), of "\<lambda>xs. map_of xs pat"] that(2) by (simp add: delete_conv')
    with Some show ?thesis by (auto simp: drop_pattern_def Let_def update_conv' delete_conv')
  qed (auto simp: drop_pattern_def)
  have one: "j = i" if "D j = Some t" "session_id t = session_id s" "sub_route t = sub_route s" for j t
  proof -
    from patterns_okD [OF ok i] patterns_okD [OF ok that(1)] that(2,3) show ?thesis by simp
  qed
  show ?thesis unfolding patterns_ok_def eq
  proof (intro allI)
    fix sess pat j
    show "(if sess = session_id s \<and> pat = sub_route s then None else map_of sp sess \<bind> (\<lambda>ps. map_of ps pat)) = Some j \<longleftrightarrow>
        (\<exists>t. (D(i := None)) j = Some t \<and> session_id t = sess \<and> sub_route t = pat)"
    proof (cases "sess = session_id s \<and> pat = sub_route s")
      case True
      with one show ?thesis by auto
    next
      case False
      have "map_of sp sess \<bind> (\<lambda>ps. map_of ps pat) = Some j \<longleftrightarrow>
          (\<exists>t. D j = Some t \<and> session_id t = sess \<and> sub_route t = pat)"
        using ok unfolding patterns_ok_def by blast
      also have "\<dots> \<longleftrightarrow> (\<exists>t. (D(i := None)) j = Some t \<and> session_id t = sess \<and> sub_route t = pat)"
        using False i by (cases "j = i") auto
      finally show ?thesis unfolding if_not_P [OF False] .
    qed
  qed
qed

lemma map_of_drop_group:
  "map_of (if is = [] then AList.delete k m else AList.update k is m) =
     (map_of m)(k := if is = [] then None else Some is)"
  by (auto simp: update_conv' delete_conv')

lemma ids_ok_remove:
  assumes ok: "ids_ok X ssi D" and i: "D i = Some s"
  shows "ids_ok X (drop_id (session_id s) i ssi) (D(i := None))"
proof (cases "map_of ssi (session_id s)")
  case None
  have "grouped (map_of ssi) (D(i := None)) by_session j" if "X \<noteq> Some j" for j
  proof -
    have g: "grouped (map_of ssi) D by_session j" using ok that by (simp add: ids_ok_def)
    have "session_id s \<noteq> j"
      using grouped_Some [OF g i] None by (auto simp: by_session_def)
    then show ?thesis using i g by (auto intro!: grouped_skip_drop simp: by_session_def)
  qed
  with None ok show ?thesis by (simp add: ids_ok_def drop_id_def)
next
  case (Some sids)
  then have X: "X \<noteq> Some (session_id s)" using ok by (auto simp: ids_ok_def)
  have key: "by_session s = Some (session_id s)" by (simp add: by_session_def)
  have "grouped ((map_of ssi)(session_id s := if filter (\<lambda>x. x \<noteq> i) sids = [] then None
      else Some (filter (\<lambda>x. x \<noteq> i) sids))) (D(i := None)) by_session j" if "X \<noteq> Some j" for j
  proof -
    have "grouped (map_of ssi) D by_session j" using ok that by (simp add: ids_ok_def)
    from grouped_drop [of D i s "map_of ssi" by_session j, OF i this key Some] show ?thesis .
  qed
  moreover have "map_of ssi j = None" if "X = Some j" for j using ok that by (simp add: ids_ok_def)
  ultimately show ?thesis using X unfolding drop_id_def Some option.case Let_def ids_ok_def map_of_drop_group by auto
qed

lemma exact_remove:
  assumes ok: "\<And>r. grouped (map_of er) D by_exact_route r" and i: "D i = Some s" and w: "\<not> wild s"
  shows "grouped (map_of (drop_id (sub_route s) i er)) (D(i := None)) by_exact_route r"
proof -
  have key: "by_exact_route s = Some (sub_route s)" using w by (simp add: by_defs)
  from grouped_Some [OF ok i key] obtain sids where m: "map_of er (sub_route s) = Some sids" by blast
  from grouped_drop [of D i s "map_of er" by_exact_route r, OF i ok key m] show ?thesis
    unfolding drop_id_def m option.case Let_def map_of_drop_group .
qed

lemma wildcards_ok_remove:
  assumes ok: "wildcards_ok k fam index n wc D" and fin: "finite (dom D)" and i: "D i = Some s" and w: "wild s"
  obtains index' where "index_remove index fam (sub_route s) i = Some index'"
    "wildcards_ok k fam index' (n - 1) (drop_count (session_id s) wc) (D(i := None))"
proof -
  from ok have within: "index_within k index" by (simp add: wildcards_ok_def)
  from index_remove_ok [OF within, of fam "sub_route s" i] obtain index' where
    x: "index_remove index fam (sub_route s) i = Some index'" "index_within k index'"
      "entries index' = entries index - {(fam, parse_pattern_segments (sub_route s), i)}" by auto
  have key: "by_wildcard_session s = Some (session_id s)" "by_wildcard s = Some ()"
    using w by (simp_all add: by_defs)
  have c: "counted (map_of wc) D by_wildcard_session j" for j using ok by (simp add: wildcards_ok_def)
  from counted_Some [OF c i key(1)] obtain m where m: "map_of wc (session_id s) = Some m" by blast
  have map: "map_of (if m - 1 = 0 then AList.delete (session_id s) wc else AList.update (session_id s) (m - 1) wc) =
      (map_of wc)(session_id s := if m - 1 = 0 then None else Some (m - 1))"
    by (auto simp: update_conv' delete_conv')
  have "n - 1 \<le> k" using ok by (auto simp: wildcards_ok_def)
  note counted_drop [of D i s "map_of wc" by_wildcard_session, OF fin i c key(1) m]
  moreover have "i \<in> owned D by_wildcard ()" using i key(2) by (rule owned_here)
  then have "n - 1 = card (owned (D(i := None)) by_wildcard ())"
    using ok owned_delete [of D i s by_wildcard "()"] i key(2) finite_owned [OF fin, of by_wildcard "()"]
    by (simp add: wildcards_ok_def)
  moreover have "entries index' = {(f, ps, j). \<exists>t. f = fam \<and> (D(i := None)) j = Some t \<and> wild t \<and>
      ps = parse_pattern_segments (sub_route t)}"
    using ok x(3) i unfolding wildcards_ok_def by auto
  ultimately have "wildcards_ok k fam index' (n - 1)
      (if m - 1 = 0 then AList.delete (session_id s) wc else AList.update (session_id s) (m - 1) wc) (D(i := None))"
    using x(2) \<open>n - 1 \<le> k\<close> unfolding wildcards_ok_def map by blast
  with that [OF x(1)] m show thesis by (simp add: drop_count_def)
qed

lemma wildcards_ok_skip_drop:
  assumes "wildcards_ok k fam index n wc D" "D i = Some s" "\<not> wild s"
  shows "wildcards_ok k fam index n wc (D(i := None))"
  using assms unfolding wildcards_ok_def
  by (auto simp: counted_skip_drop owned_delete by_defs split: if_splits)

lemma remove_subscription_ok:
  assumes ok: "set_ok_but X k fam S" and i: "map_of (subscriptions S) i = Some s"
  obtains S' where "remove_subscription md S w fam i = Some (S', record_registration_delta md False w)"
    "set_ok_but X k fam S'" "map_of (subscriptions S') = (map_of (subscriptions S))(i := None)"
proof -
  let ?D = "map_of (subscriptions S)"
  let ?subs = "AList.delete i (subscriptions S)"
  let ?sp = "drop_pattern (session_id s) (sub_route s) (session_patterns S)"
  let ?ssi = "drop_id (session_id s) i (session_subscription_ids S)"
  let ?er = "drop_id (sub_route s) i (exact_routes S)"
  let ?wc = "drop_count (session_id s) (wildcard_subscription_counts S)"
  have D': "map_of ?subs = ?D(i := None)" by (simp add: delete_conv')
  have base: "distinct (map fst ?subs)" "\<forall>(j, t) \<in> set ?subs. subscription_id_of t = j"
    using ok by (auto simp: set_ok_but_def AList.delete_eq distinct_map_filter)
  have sp: "patterns_ok ?sp (?D(i := None))"
    using ok i by (intro patterns_ok_remove) (auto simp: set_ok_but_def)
  have ssi: "ids_ok X ?ssi (?D(i := None))"
    using ok i by (intro ids_ok_remove) (auto simp: set_ok_but_def)
  have ex: "grouped (map_of (exact_routes S)) ?D by_exact_route r" for r
    using ok by (simp add: set_ok_but_def)
  have wc: "wildcards_ok k fam (wildcard_index S) (wildcard_subscription_count S) (wildcard_subscription_counts S) ?D"
    using ok by (simp add: set_ok_but_def)
  show thesis
  proof (cases "wild s")
    case True
    have "grouped (map_of (exact_routes S)) (?D(i := None)) by_exact_route r" for r
      using i ex by (rule grouped_skip_drop) (use True in \<open>simp add: by_defs\<close>)
    moreover obtain index' where "index_remove (wildcard_index S) fam (sub_route s) i = Some index'"
      "wildcards_ok k fam index' (wildcard_subscription_count S - 1) ?wc (?D(i := None))"
      by (rule wildcards_ok_remove [OF wc finite_dom_map_of i True])
    ultimately show thesis
      using True base sp ssi D' i
      by (intro that [of "S\<lparr>subscriptions := ?subs, session_patterns := ?sp, session_subscription_ids := ?ssi,
          wildcard_index := index', wildcard_subscription_count := wildcard_subscription_count S - 1,
          wildcard_subscription_counts := ?wc\<rparr>"])
        (simp_all add: remove_subscription_def Let_def set_ok_but_def)
  next
    case False
    note exact_remove [OF ex i False]
    moreover note wildcards_ok_skip_drop [OF wc i False]
    ultimately show thesis
      using False base sp ssi D' i
      by (intro that [of "S\<lparr>subscriptions := ?subs, session_patterns := ?sp, session_subscription_ids := ?ssi,
          exact_routes := ?er\<rparr>"])
        (simp_all add: remove_subscription_def Let_def set_ok_but_def)
  qed
qed

lemma remove_each_ok:
  assumes "set_ok_but X k fam S"
  shows "\<exists>S' w'. remove_each md S w fam sids = Some (S', w') \<and> set_ok_but X k fam S' \<and>
    map_of (subscriptions S') = (\<lambda>i. if i \<in> set sids then None else map_of (subscriptions S) i)"
  using assms
proof (induction sids arbitrary: S w)
  case (Cons i sids)
  show ?case
  proof (cases "map_of (subscriptions S) i")
    case None
    from Cons.IH [OF Cons.prems, of w] None show ?thesis
      by (fastforce simp: remove_subscription_def)
  next
    case (Some s)
    obtain S1 where S1: "remove_subscription md S w fam i = Some (S1, record_registration_delta md False w)"
      "set_ok_but X k fam S1" "map_of (subscriptions S1) = (map_of (subscriptions S))(i := None)"
      by (rule remove_subscription_ok [OF Cons.prems Some])
    from Cons.IH [OF S1(2), of "record_registration_delta md False w"] S1 show ?thesis
      by (fastforce simp: fun_upd_def)
  qed
qed (auto simp: fun_eq_iff)

text \<open>The subscriptions of one session.\<close>

definition session_owned :: "'a subscription_set \<Rightarrow> u64 \<Rightarrow> u64 set" where
  "session_owned S sess = {i. \<exists>s. map_of (subscriptions S) i = Some s \<and> session_id s = sess}"

lemma owned_by_session: "owned (map_of (subscriptions S)) by_session sess = session_owned S sess"
  by (simp add: owned_def session_owned_def by_session_def)

lemma set_ok_ids:
  assumes "set_ok k fam S"
  shows "grouped (map_of (session_subscription_ids S)) (map_of (subscriptions S)) by_session sess"
  using assms by (simp add: set_ok_but_def ids_ok_def)

lemma remove_session_ok:
  assumes ok: "set_ok k fam S"
  obtains S' w' where "remove_session md S w fam sess = Some (card (session_owned S sess), S', w')" "set_ok k fam S'"
    "map_of (subscriptions S') = (\<lambda>i. if i \<in> session_owned S sess then None else map_of (subscriptions S) i)"
proof (cases "map_of (session_subscription_ids S) sess")
  case None
  with set_ok_ids [OF ok, of sess] have "session_owned S sess = {}" by (simp add: grouped_def owned_by_session)
  with None ok show thesis by (intro that [of S w]) (simp_all add: remove_session_def)
next
  case (Some sids)
  with set_ok_ids [OF ok, of sess] have sids: "distinct sids" "set sids = session_owned S sess"
    by (simp_all add: grouped_def owned_by_session)
  let ?S = "S\<lparr>session_subscription_ids := AList.delete sess (session_subscription_ids S)\<rparr>"
  have "set_ok_but (Some sess) k fam ?S"
    using ok by (simp add: set_ok_but_def ids_ok_def delete_conv' grouped_def)
  from remove_each_ok [OF this, of md w sids] sids obtain S' w' where
    r: "remove_each md ?S w fam sids = Some (S', w')" "set_ok_but (Some sess) k fam S'"
      "map_of (subscriptions S') = (\<lambda>i. if i \<in> session_owned S sess then None else map_of (subscriptions S) i)"
    by (auto cong: if_cong)
  have none: "owned (map_of (subscriptions S')) by_session sess = {}"
    unfolding r(3) by (auto simp: owned_def session_owned_def by_session_def)
  have "ids_ok None (session_subscription_ids S') (map_of (subscriptions S'))"
    unfolding ids_ok_def
  proof (intro allI)
    fix j
    from r(2) have "ids_ok (Some sess) (session_subscription_ids S') (map_of (subscriptions S'))"
      by (simp add: set_ok_but_def)
    then have "if Some sess = Some j then map_of (session_subscription_ids S') j = None
        else grouped (map_of (session_subscription_ids S')) (map_of (subscriptions S')) by_session j"
      unfolding ids_ok_def by blast
    then show "if None = Some j then map_of (session_subscription_ids S') j = None
        else grouped (map_of (session_subscription_ids S')) (map_of (subscriptions S')) by_session j"
      using none by (cases "j = sess") (auto simp: grouped_def)
  qed
  with r(2) have "set_ok k fam S'" by (simp add: set_ok_but_def)
  moreover have "length sids = card (session_owned S sess)" using sids by (metis distinct_card)
  ultimately show thesis
    using Some r(1,3) by (intro that [of S' w']) (simp_all add: remove_session_def)
qed

lemma find_existing_id_ok:
  assumes "set_ok_but X k fam S"
  shows "find_existing_id S sess pat = Some i \<longleftrightarrow>
    (\<exists>s. map_of (subscriptions S) i = Some s \<and> session_id s = sess \<and> sub_route s = pat)"
proof -
  from assms have "patterns_ok (session_patterns S) (map_of (subscriptions S))" by (simp add: set_ok_but_def)
  then show ?thesis unfolding patterns_ok_def find_existing_id_def by blast
qed

lemma subscription_count_for_session_ok:
  assumes "set_ok k fam S"
  shows "subscription_count_for_session S sess = card (session_owned S sess)"
proof (cases "map_of (session_subscription_ids S) sess")
  case (Some sids)
  with set_ok_ids [OF assms, of sess] have "distinct sids" "set sids = session_owned S sess"
    by (simp_all add: grouped_def owned_by_session)
  then show ?thesis using Some distinct_card by (simp add: subscription_count_for_session_def) fastforce
qed (use set_ok_ids [OF assms, of sess] in \<open>simp add: subscription_count_for_session_def grouped_def owned_by_session\<close>)

definition session_wildcards :: "'a subscription_set \<Rightarrow> u64 \<Rightarrow> u64 set" where
  "session_wildcards S sess = {i. \<exists>s. map_of (subscriptions S) i = Some s \<and> session_id s = sess \<and> wild s}"

lemma wildcard_count_for_session_ok:
  assumes "set_ok k fam S"
  shows "wildcard_subscription_count_for_session S sess = card (session_wildcards S sess)"
proof -
  have "counted (map_of (wildcard_subscription_counts S)) (map_of (subscriptions S)) by_wildcard_session sess"
    using assms by (simp add: set_ok_but_def wildcards_ok_def)
  moreover have "owned (map_of (subscriptions S)) by_wildcard_session sess = session_wildcards S sess"
    by (auto simp: owned_def session_wildcards_def by_defs split: if_splits)
  ultimately show ?thesis
    by (cases "map_of (wildcard_subscription_counts S) sess")
      (simp_all add: counted_def wildcard_subscription_count_for_session_def)
qed

section \<open>Matching\<close>

definition registration_matches :: "'a routed_subscription_scheme \<Rightarrow> string \<Rightarrow> bool" where
  "registration_matches s route \<longleftrightarrow>
     (if wild s then match_segments (parse_pattern_segments (sub_route s)) (extract_route_segments_borrowed route)
      else sub_route s = route)"

lemma matching_ids_ok:
  fixes S :: "'a subscription_set"
  assumes ok: "set_ok k fam S"
    and free: "\<And>i s. map_of (subscriptions S) i = Some s \<Longrightarrow> wild s \<Longrightarrow> double_star_free (parse_pattern_segments (sub_route s))"
  shows "\<exists>sids. matching_ids S fam route = Some sids \<and> distinct sids \<and>
    set sids = {i. \<exists>s. map_of (subscriptions S) i = Some s \<and> registration_matches s route}"
proof -
  let ?D = "map_of (subscriptions S)"
  let ?exact = "case map_of (exact_routes S) route of Some sids \<Rightarrow> sids | None \<Rightarrow> []"
  have wc: "wildcards_ok k fam (wildcard_index S) (wildcard_subscription_count S) (wildcard_subscription_counts S) ?D"
    using ok by (simp add: set_ok_but_def)
  have "grouped (map_of (exact_routes S)) ?D by_exact_route route" using ok by (simp add: set_ok_but_def)
  then have exact: "distinct ?exact" "set ?exact = {i. \<exists>s. ?D i = Some s \<and> \<not> wild s \<and> sub_route s = route}"
    by (auto simp: grouped_def owned_def by_defs split: option.splits if_splits)
  have split: "{i. \<exists>s. ?D i = Some s \<and> registration_matches s route} = set ?exact \<union>
      {i. \<exists>s. ?D i = Some s \<and> wild s \<and> match_segments (parse_pattern_segments (sub_route s)) (extract_route_segments_borrowed route)}"
    unfolding exact(2) by (auto simp: registration_matches_def split: if_splits)
  show ?thesis
  proof (cases "wildcard_subscription_count S > 0")
    case True
    have "double_star_free ps" if "(fam, ps, i) \<in> entries (wildcard_index S)" for ps i
      using wc that free by (auto simp: wildcards_ok_def)
    with subscription_set.matching_ok [of k "wildcard_index S" fam route] wc obtain ms where
      ms: "match_all_route_str (wildcard_index S) fam route = Some ms" "distinct ms"
        "set ms = {i. \<exists>s. ?D i = Some s \<and> wild s \<and> match_segments (parse_pattern_segments (sub_route s))
          (extract_route_segments_borrowed route)}"
      by (fastforce simp: wildcards_ok_def)
    have "set ?exact \<inter> set ms = {}" unfolding exact(2) ms(3) by auto
    with ms exact True show ?thesis unfolding split by (auto simp: matching_ids_def)
  next
    case False
    have "finite (owned ?D by_wildcard ())" by (simp add: finite_owned finite_dom_map_of)
    with False wc have "\<not> wild s" if "?D i = Some s" for i s
      using that owned_here [of ?D i s by_wildcard "()"] by (auto simp: wildcards_ok_def by_defs)
    with False exact(1) show ?thesis unfolding split by (auto simp: matching_ids_def)
  qed
qed

lemma for_each_matching_route_ok:
  assumes ok: "set_ok k fam S" and sids: "matching_ids S fam route = Some sids"
    and live: "\<And>i. i \<in> set sids \<Longrightarrow> \<exists>s. map_of (subscriptions S) i = Some s"
  shows "for_each_matching_route S fam route = Some (map (\<lambda>i. the (map_of (subscriptions S) i)) sids)"
proof -
  have visit: "List.map_filter (\<lambda>i. map_of (subscriptions S) i) xs = map (\<lambda>i. the (map_of (subscriptions S) i)) xs"
    if "set xs \<subseteq> set sids" for xs
    using that live by (induction xs) (auto simp: List.map_filter_simps split: option.splits)
  show ?thesis
  proof (cases "wildcard_subscription_count S > 0")
    case True
    with sids obtain ms where ms: "match_all_route_str (wildcard_index S) fam route = Some ms"
      "sids = (case map_of (exact_routes S) route of Some sids \<Rightarrow> sids | None \<Rightarrow> []) @ ms"
      by (auto simp: matching_ids_def Let_def)
    with True visit [of ms] visit [of "case map_of (exact_routes S) route of Some sids \<Rightarrow> sids | None \<Rightarrow> []"]
    show ?thesis by (auto simp: for_each_matching_route_def Let_def List.map_filter_simps split: option.splits)
  next
    case False
    with sids visit [of sids] show ?thesis
      by (auto simp: for_each_matching_route_def matching_ids_def List.map_filter_simps split: option.splits)
  qed
qed

section \<open>Reachable sets\<close>

text \<open>
  What the domains do with a set of one family: register a subscription under a fresh identifier
  when the session has none for that pattern and is below its limits, and remove in the three ways.
  The index \<open>k\<close> is the number of trie slots used so far.
\<close>

inductive reachable_set :: "string \<Rightarrow> route_family \<Rightarrow> nat \<Rightarrow> 'a subscription_set \<Rightarrow> bool" for md fam where
  start: "reachable_set md fam 0 subscription_set_new"
| register: "reachable_set md fam k S \<Longrightarrow> map_of (subscriptions S) (subscription_id_of s) = None \<Longrightarrow>
    find_existing_id S (session_id s) (sub_route s) = None \<Longrightarrow>
    registration_limit_for_session S (session_id s) (sub_pattern s) = None \<Longrightarrow> k + set_cost s \<le> 2 ^ 32 \<Longrightarrow>
    set_insert md S w fam s = Some (S', w') \<Longrightarrow> reachable_set md fam (k + set_cost s) S'"
| unregister: "reachable_set md fam k S \<Longrightarrow> remove_session_pattern md S w fam sess pat = Some (n, S', w') \<Longrightarrow>
    reachable_set md fam k S'"
| unsubscribe: "reachable_set md fam k S \<Longrightarrow> remove_subscription_for_session md S w fam sess sid = Some (b, S', w') \<Longrightarrow>
    reachable_set md fam k S'"
| disconnect: "reachable_set md fam k S \<Longrightarrow> remove_session md S w fam sess = Some (n, S', w') \<Longrightarrow>
    reachable_set md fam k S'"

definition limits_ok :: "'a subscription_set \<Rightarrow> bool" where
  "limits_ok S \<longleftrightarrow> (\<forall>sess. card (session_owned S sess) \<le> MAX_TOTAL_REGISTRATIONS_PER_SESSION \<and>
     card (session_wildcards S sess) \<le> MAX_WILDCARD_REGISTRATIONS_PER_SESSION)"

lemma finite_session_sets: "finite (session_owned S sess)" "finite (session_wildcards S sess)"
  by (rule finite_subset [of _ "dom (map_of (subscriptions S))"];
      auto simp: session_owned_def session_wildcards_def finite_dom_map_of)+

lemma limits_ok_shrink:
  assumes "limits_ok S" "map_of (subscriptions S') \<subseteq>\<^sub>m map_of (subscriptions S)"
  shows "limits_ok S'"
proof -
  have "session_owned S' sess \<subseteq> session_owned S sess" "session_wildcards S' sess \<subseteq> session_wildcards S sess" for sess
    using assms(2) by (auto simp: session_owned_def session_wildcards_def map_le_def dom_def)
  then have "card (session_owned S' sess) \<le> card (session_owned S sess)"
    "card (session_wildcards S' sess) \<le> card (session_wildcards S sess)" for sess
    by (simp_all add: card_mono finite_session_sets)
  with assms(1) show ?thesis unfolding limits_ok_def by (meson order_trans)
qed

lemma limits_ok_register:
  assumes ok: "set_ok k fam S" and lim: "limits_ok S"
    and below: "registration_limit_for_session S (session_id s) (sub_pattern s) = None"
    and D': "map_of (subscriptions S') = (map_of (subscriptions S))(subscription_id_of s \<mapsto> s)"
    and fresh: "map_of (subscriptions S) (subscription_id_of s) = None"
  shows "limits_ok S'"
proof -
  have owned: "session_owned S' sess = (if session_id s = sess then insert (subscription_id_of s) (session_owned S sess)
      else session_owned S sess)" for sess
    using fresh by (auto simp: session_owned_def D')
  have wilds: "session_wildcards S' sess = (if session_id s = sess \<and> wild s
      then insert (subscription_id_of s) (session_wildcards S sess) else session_wildcards S sess)" for sess
    using fresh by (auto simp: session_wildcards_def D')
  have "card (session_owned S (session_id s)) < MAX_TOTAL_REGISTRATIONS_PER_SESSION"
    "wild s \<longrightarrow> card (session_wildcards S (session_id s)) < MAX_WILDCARD_REGISTRATIONS_PER_SESSION"
    using below subscription_count_for_session_ok [OF ok] wildcard_count_for_session_ok [OF ok]
    by (auto simp: registration_limit_for_session_def registration_limit_for_counts_def
        wildcard_registration_limit_reached_def split: if_splits)
  with lim show ?thesis unfolding limits_ok_def owned wilds
    using card_insert_le_m1 finite_session_sets by (auto simp: card_insert_if)
qed

lemma remove_subscription_frame:
  assumes "set_ok k fam S" "remove_subscription md S w fam i = Some (S', w')"
  shows "set_ok k fam S'" "map_of (subscriptions S') \<subseteq>\<^sub>m map_of (subscriptions S)"
proof -
  have "set_ok k fam S' \<and> map_of (subscriptions S') \<subseteq>\<^sub>m map_of (subscriptions S)"
  proof (cases "map_of (subscriptions S) i")
    case None
    with assms show ?thesis by (simp add: remove_subscription_def)
  next
    case (Some s)
    obtain S'' where "remove_subscription md S w fam i = Some (S'', record_registration_delta md False w)"
      "set_ok k fam S''" "map_of (subscriptions S'') = (map_of (subscriptions S))(i := None)"
      by (rule remove_subscription_ok [OF assms(1) Some])
    with assms(2) show ?thesis by (simp add: map_le_def)
  qed
  then show "set_ok k fam S'" "map_of (subscriptions S') \<subseteq>\<^sub>m map_of (subscriptions S)" by auto
qed

lemma reachable_set_ok: "reachable_set md fam k S \<Longrightarrow> set_ok k fam S \<and> limits_ok S"
proof (induction rule: reachable_set.induct)
  case start
  have "limits_ok subscription_set_new"
    by (simp add: limits_ok_def session_owned_def session_wildcards_def subscription_set_new_def)
  then show ?case using set_ok_new by blast
next
  case (register k S s w S' w')
  then have ok: "set_ok k fam S" by blast
  obtain S'' where "set_insert md S w fam s = Some (S'', record_registration_delta md True w)"
    "set_ok (k + set_cost s) fam S''" "map_of (subscriptions S'') = (map_of (subscriptions S))(subscription_id_of s \<mapsto> s)"
    by (rule set_insert_ok [OF ok register(2,3,5)])
  with register(6) have
    "set_ok (k + set_cost s) fam S'" "map_of (subscriptions S') = (map_of (subscriptions S))(subscription_id_of s \<mapsto> s)"
    by auto
  with limits_ok_register [OF ok _ register(4) this(2) register(2)] register.IH show ?case by blast
next
  case (unregister k S w sess pat n S' w')
  then show ?case
    by (auto simp: remove_session_pattern_def dest: remove_subscription_frame intro: limits_ok_shrink split: option.splits)
next
  case (unsubscribe k S w sess sid b S' w')
  then show ?case
    by (auto simp: remove_subscription_for_session_def Let_def dest: remove_subscription_frame intro: limits_ok_shrink
        split: option.splits if_splits)
next
  case (disconnect k S w sess n S' w')
  then have ok: "set_ok k fam S" by blast
  obtain S'' w'' where r: "remove_session md S w fam sess = Some (card (session_owned S sess), S'', w'')" "set_ok k fam S''"
    "map_of (subscriptions S'') = (\<lambda>i. if i \<in> session_owned S sess then None else map_of (subscriptions S) i)"
    by (rule remove_session_ok [OF ok])
  with disconnect(2) have "S'' = S'" by simp
  moreover have "map_of (subscriptions S'') \<subseteq>\<^sub>m map_of (subscriptions S)"
    unfolding r(3) by (auto simp: map_le_def dom_def split: if_splits)
  ultimately show ?case using r(2) disconnect.IH limits_ok_shrink by blast
qed

section \<open>Telemetry\<close>













section \<open>A set with one registration\<close>

definition sample_subscription :: routed_subscription where
  "sample_subscription = \<lparr>sub_pattern = pattern_new ''notice://a/b'', session_id = 5, subscription_id_of = 7\<rparr>"

definition sample_set :: "unit subscription_set" where
  "sample_set = \<lparr>subscriptions = [(7, sample_subscription)], session_patterns = [(5, [(''notice://a/b'', 7)])],
     session_subscription_ids = [(5, [7])], wildcard_subscription_counts = [], wildcard_index = subscription_index_new,
     exact_routes = [(''notice://a/b'', [7])], wildcard_subscription_count = 0\<rparr>"

lemmas sample_parse = pattern_new_def parse_pattern_def parse_pattern_segments_def split_route_def split_scheme_def
  parse_segment_def collect_path_segments_fast_def strip_prefix_def is_wildcard_def

lemma sample_set_get: "set_get sample_set i = (if i = 7 then Some sample_subscription else None)"
  by (simp add: set_get_def sample_set_def)

lemma sample_set_reachable: "reachable_set ''notice'' 1 3 sample_set"
proof -
  have "set_insert ''notice'' subscription_set_new w 1 sample_subscription =
      Some (sample_set, record_registration_delta ''notice'' True w)" for w
    by (simp add: set_insert_def sample_subscription_def sample_set_def subscription_set_new_def entry_or_def sample_parse Let_def)
  moreover have "set_cost sample_subscription = 3"
    by (simp add: set_cost_def sample_subscription_def sample_parse)
  ultimately show ?thesis
    using reachable_set.register [OF reachable_set.start, of sample_subscription "''notice''" _ 1 sample_set]
    by (simp add: subscription_set_new_def find_existing_id_def registration_limit_for_session_def
        registration_limit_for_counts_def wildcard_registration_limit_reached_def subscription_count_for_session_def
        wildcard_subscription_count_for_session_def MAX_TOTAL_REGISTRATIONS_PER_SESSION_def
        MAX_WILDCARD_REGISTRATIONS_PER_SESSION_def)
qed

section \<open>Properties\<close>

text \<open>
  C30. In every reachable set the derived indexes say exactly what the registered subscriptions
  say: the pattern lookup finds the identifier of the session's subscription with that pattern and
  nothing else, the two per-session counters are the numbers of the session's subscriptions and
  wildcard subscriptions, and these never exceed 1024 and 128.
\<close>

theorem registration_indexes_exact:
  assumes "reachable_set md fam k S"
  shows "(find_existing_id S sess pat = Some i \<longleftrightarrow>
      (\<exists>s. set_get S i = Some s \<and> session_id s = sess \<and> pat_route (sub_pattern s) = pat)) \<and>
    subscription_count_for_session S sess = card {i. \<exists>s. set_get S i = Some s \<and> session_id s = sess} \<and>
    wildcard_subscription_count_for_session S sess =
      card {i. \<exists>s. set_get S i = Some s \<and> session_id s = sess \<and> is_wildcard (sub_pattern s)} \<and>
    subscription_count_for_session S sess \<le> 1024 \<and> wildcard_subscription_count_for_session S sess \<le> 128"
proof -
  from reachable_set_ok [OF assms] have ok: "set_ok k fam S" and "limits_ok S" by auto
  then have lim: "card (session_owned S sess) \<le> 1024" "card (session_wildcards S sess) \<le> 128"
    by (simp_all add: limits_ok_def MAX_TOTAL_REGISTRATIONS_PER_SESSION_def MAX_WILDCARD_REGISTRATIONS_PER_SESSION_def)
  show ?thesis
    unfolding find_existing_id_ok [OF ok] using lim
    by (simp add: subscription_count_for_session_ok [OF ok] wildcard_count_for_session_ok [OF ok]
        session_owned_def session_wildcards_def set_get_def)
qed

theorem registration_indexes_exact_witness:
  "find_existing_id sample_set 5 ''notice://a/b'' = Some 7 \<and> subscription_count_for_session sample_set 5 = 1"
proof -
  have "{i. \<exists>s. set_get sample_set i = Some s \<and> session_id s = 5} = {7}"
    by (auto simp: sample_set_get sample_subscription_def)
  with registration_indexes_exact [OF sample_set_reachable, of 5 "''notice://a/b''" 7] show ?thesis
    by (simp add: sample_set_get sample_subscription_def pattern_new_def parse_pattern_def split: prod.splits)
qed

text \<open>
  C31. Matching a route against a reachable set of a family, none of whose wildcard patterns has two
  adjacent \<^verbatim>\<open>**\<close>, returns every matching subscription once: an exact pattern matches the equal
  route, a wildcard pattern what the pattern matcher accepts; the visitor sees those subscriptions.
\<close>

theorem matching_ids_exact:
  assumes reach: "reachable_set md fam k S"
    and free: "\<And>i s. set_get S i = Some s \<Longrightarrow> is_wildcard (sub_pattern s) \<Longrightarrow>
      double_star_free (parse_pattern_segments (pat_route (sub_pattern s)))"
  shows "\<exists>sids. matching_ids S fam route = Some sids \<and> distinct sids \<and>
    set sids = {i. \<exists>s. set_get S i = Some s \<and>
      (if is_wildcard (sub_pattern s)
       then match_segments (parse_pattern_segments (pat_route (sub_pattern s))) (extract_route_segments_borrowed route)
       else pat_route (sub_pattern s) = route)} \<and>
    for_each_matching_route S fam route = Some (map (\<lambda>i. the (set_get S i)) sids)"
proof -
  from reachable_set_ok [OF reach] have ok: "set_ok k fam S" ..
  from matching_ids_ok [OF ok, of route] free obtain sids where
    m: "matching_ids S fam route = Some sids" "distinct sids"
      "set sids = {i. \<exists>s. map_of (subscriptions S) i = Some s \<and> registration_matches s route}"
    by (auto simp: set_get_def)
  moreover from m(3) for_each_matching_route_ok [OF ok m(1)]
  have "for_each_matching_route S fam route = Some (map (\<lambda>i. the (map_of (subscriptions S) i)) sids)" by blast
  ultimately show ?thesis by (simp add: set_get_def registration_matches_def)
qed

theorem matching_ids_exact_witness:
  "\<exists>sids. matching_ids sample_set 1 ''notice://a/b'' = Some sids \<and> set sids = {7}"
proof -
  have exact: "\<not> is_wildcard (sub_pattern sample_subscription)" "pat_route (sub_pattern sample_subscription) = ''notice://a/b''"
    by (simp_all add: sample_subscription_def sample_parse)
  have "\<exists>sids. matching_ids sample_set 1 ''notice://a/b'' = Some sids \<and> distinct sids \<and>
    set sids = {i. \<exists>s. set_get sample_set i = Some s \<and>
      (if is_wildcard (sub_pattern s)
       then match_segments (parse_pattern_segments (pat_route (sub_pattern s))) (extract_route_segments_borrowed ''notice://a/b'')
       else pat_route (sub_pattern s) = ''notice://a/b'')} \<and>
    for_each_matching_route sample_set 1 ''notice://a/b'' = Some (map (\<lambda>i. the (set_get sample_set i)) sids)"
    by (rule matching_ids_exact [OF sample_set_reachable]) (auto simp: sample_set_get exact split: if_splits)
  then show ?thesis using exact by (auto simp: sample_set_get)
qed

text \<open>
  C32. When a session goes away, removal never panics and deletes exactly the session's
  subscriptions: it reports their number, keeps every other subscription, and leaves a reachable set
  in which the session has no pattern and no count.
\<close>

theorem remove_session_complete:
  assumes "reachable_set md fam k S"
  shows "\<exists>S' w'. remove_session md S w fam sess = Some (subscription_count_for_session S sess, S', w') \<and>
    reachable_set md fam k S' \<and>
    (\<forall>i. set_get S' i = (case set_get S i of None \<Rightarrow> None | Some s \<Rightarrow> if session_id s = sess then None else Some s)) \<and>
    subscription_count_for_session S' sess = 0 \<and> find_existing_id S' sess pat = None"
proof -
  from reachable_set_ok [OF assms] have ok: "set_ok k fam S" ..
  obtain S' w' where r: "remove_session md S w fam sess = Some (card (session_owned S sess), S', w')" "set_ok k fam S'"
    "map_of (subscriptions S') = (\<lambda>i. if i \<in> session_owned S sess then None else map_of (subscriptions S) i)"
    by (rule remove_session_ok [OF ok])
  have get: "set_get S' i = (case set_get S i of None \<Rightarrow> None | Some s \<Rightarrow> if session_id s = sess then None else Some s)" for i
    by (auto simp: set_get_def r(3) session_owned_def split: option.splits)
  then have none: "session_id s \<noteq> sess" if "map_of (subscriptions S') i = Some s" for i s
    using that by (auto simp: set_get_def split: option.splits if_splits)
  then have "subscription_count_for_session S' sess = 0"
    unfolding subscription_count_for_session_ok [OF r(2)] by (auto simp: session_owned_def)
  moreover have "find_existing_id S' sess pat \<noteq> Some i" for i
    unfolding find_existing_id_ok [OF r(2)] using none by blast
  then have "find_existing_id S' sess pat = None" by (metis not_Some_eq)
  moreover have "reachable_set md fam k S'" using assms r(1) by (rule reachable_set.disconnect)
  ultimately show ?thesis using r(1) get subscription_count_for_session_ok [OF ok] by auto
qed

theorem remove_session_complete_witness:
  "\<exists>n S'. map_option (\<lambda>(n, S', w'). (n, S')) (remove_session ''notice'' sample_set \<lparr>telemetry = [], metric_calls = []\<rparr> 1 5) = Some (n, S') \<and>
    set_get S' 7 = None \<and> find_existing_id S' 5 ''notice://a/b'' = None"
  using remove_session_complete [OF sample_set_reachable, of "\<lparr>telemetry = [], metric_calls = []\<rparr>" 5 "''notice://a/b''"]
  by (auto simp: sample_set_get sample_subscription_def)


end
