(* ===== verification/Domain_Manifest.thy ===== *)
theory Domain_Manifest
  imports Matcher
begin

text \<open>
  The domain inventory (\<^verbatim>\<open>src/runtime/domain_manifest.rs\<close>): the seven domains, the descriptor
  table indexed by their discriminants, resolution of a domain from its scheme, and the registration
  grammar a domain applies. Registering a sink on the router is not part of it.
\<close>

section \<open>Definitions\<close>

datatype domain_kind = Kv | Queue | Notice | Stream | Rpc | Lease | Schedule

definition ALL_KINDS :: "domain_kind list" where
  "ALL_KINDS = [Kv, Queue, Notice, Stream, Rpc, Lease, Schedule]"

definition SESSION_CLEANUP_ORDER :: "domain_kind list" where
  "SESSION_CLEANUP_ORDER = [Kv, Notice, Rpc, Stream, Schedule, Lease, Queue]"

fun kind_index :: "domain_kind \<Rightarrow> nat" where
  "kind_index Kv = 0"
| "kind_index Queue = 1"
| "kind_index Notice = 2"
| "kind_index Stream = 3"
| "kind_index Rpc = 4"
| "kind_index Lease = 5"
| "kind_index Schedule = 6"

record domain_descriptor =
  desc_kind :: domain_kind
  scheme :: string
  inbound_route :: string
  cleanup_route :: string
  wildcard_route :: string
  registration_depth :: pattern_depth
  wildcard_registrations_allowed :: bool

definition DOMAIN_DESCRIPTORS :: "domain_descriptor list" where
  "DOMAIN_DESCRIPTORS =
    [\<lparr>desc_kind = Kv, scheme = ''kv'', inbound_route = ''kv://inbound'', cleanup_route = ''kv://cleanup'',
      wildcard_route = ''kv://**'', registration_depth = CanMatch 3, wildcard_registrations_allowed = True\<rparr>,
     \<lparr>desc_kind = Queue, scheme = ''queue'', inbound_route = ''queue://inbound'', cleanup_route = ''queue://cleanup'',
      wildcard_route = ''queue://**'', registration_depth = CanMatch 3, wildcard_registrations_allowed = True\<rparr>,
     \<lparr>desc_kind = Notice, scheme = ''notice'', inbound_route = ''notice://inbound'', cleanup_route = ''notice://cleanup'',
      wildcard_route = ''notice://**'', registration_depth = Flexible, wildcard_registrations_allowed = True\<rparr>,
     \<lparr>desc_kind = Stream, scheme = ''stream'', inbound_route = ''stream://inbound'', cleanup_route = ''stream://cleanup'',
      wildcard_route = ''stream://**'', registration_depth = CanMatch 3, wildcard_registrations_allowed = True\<rparr>,
     \<lparr>desc_kind = Rpc, scheme = ''rpc'', inbound_route = ''rpc://inbound'', cleanup_route = ''rpc://cleanup'',
      wildcard_route = ''rpc://**'', registration_depth = Flexible, wildcard_registrations_allowed = True\<rparr>,
     \<lparr>desc_kind = Lease, scheme = ''lease'', inbound_route = ''lease://inbound'', cleanup_route = ''lease://cleanup'',
      wildcard_route = ''lease://**'', registration_depth = CanMatch 3, wildcard_registrations_allowed = True\<rparr>,
     \<lparr>desc_kind = Schedule, scheme = ''schedule'', inbound_route = ''schedule://inbound'', cleanup_route = ''schedule://cleanup'',
      wildcard_route = ''schedule://**'', registration_depth = CanMatch 4, wildcard_registrations_allowed = True\<rparr>]"

definition descriptor :: "domain_kind \<Rightarrow> domain_descriptor" where
  "descriptor kind = DOMAIN_DESCRIPTORS ! kind_index kind"

definition kind_as_str :: "domain_kind \<Rightarrow> string" where
  "kind_as_str kind = scheme (descriptor kind)"

definition kind_wildcard_route :: "domain_kind \<Rightarrow> string" where
  "kind_wildcard_route kind = wildcard_route (descriptor kind)"

definition kind_cleanup_route :: "domain_kind \<Rightarrow> string" where
  "kind_cleanup_route kind = cleanup_route (descriptor kind)"

definition kind_inbound_route :: "domain_kind \<Rightarrow> string" where
  "kind_inbound_route kind = inbound_route (descriptor kind)"

definition from_scheme :: "string \<Rightarrow> domain_kind option" where
  "from_scheme s = find (\<lambda>kind. kind_as_str kind = s) ALL_KINDS"

datatype domain_registration_error = Grammar registration_error | RequiresExactRoute string

definition descriptor_compile_registration_pattern ::
  "domain_descriptor \<Rightarrow> string \<Rightarrow> domain_registration_error + pattern" where
  "descriptor_compile_registration_pattern self route =
     (case compile_registration_pattern route (scheme self) (registration_depth self) of
        Inl e \<Rightarrow> Inl (Grammar e)
      | Inr p \<Rightarrow>
          if is_wildcard p \<and> \<not> wildcard_registrations_allowed self
          then Inl (RequiresExactRoute (scheme self))
          else Inr p)"

section \<open>The table\<close>

lemma descriptor_table:
  "kind_index kind < length DOMAIN_DESCRIPTORS" "desc_kind (descriptor kind) = kind"
  by (cases kind; simp add: DOMAIN_DESCRIPTORS_def descriptor_def)+

lemma from_scheme_as_str [simp]: "from_scheme (kind_as_str kind) = Some kind"
  by (cases kind) (simp_all add: from_scheme_def kind_as_str_def ALL_KINDS_def descriptor_def DOMAIN_DESCRIPTORS_def)

lemma from_scheme_SomeD: "from_scheme s = Some kind \<Longrightarrow> kind_as_str kind = s"
  by (auto simp: from_scheme_def find_Some_iff)

lemma cleanup_order_complete: "distinct SESSION_CLEANUP_ORDER \<and> set SESSION_CLEANUP_ORDER = set ALL_KINDS \<and> set ALL_KINDS = UNIV"
proof -
  have "kind \<in> set ALL_KINDS" for kind by (cases kind) (simp_all add: ALL_KINDS_def)
  then show ?thesis by (auto simp: SESSION_CLEANUP_ORDER_def ALL_KINDS_def)
qed

lemma descriptor_lease:
  "scheme (descriptor Lease) = ''lease''" "registration_depth (descriptor Lease) = CanMatch 3"
  "wildcard_registrations_allowed (descriptor Lease)"
  by (simp_all add: descriptor_def DOMAIN_DESCRIPTORS_def)

end
