(* ===== verification/Lease_Model.thy ===== *)
theory Lease_Model
  imports Subscription_State Domain_Manifest
    "HOL-Library.List_Lexorder" "HOL-Library.Char_ord" "HOL-Library.Product_Lexorder"
begin

text \<open>
  The lease domain, part one: the protocol types (\<^verbatim>\<open>src/domains/lease/protocol.rs\<close>), the state of
  one family actor (\<^verbatim>\<open>sink/model.rs\<close>) with the record of cleaned-up sessions
  (\<^verbatim>\<open>runtime/cleanup_guard.rs\<close>), and the calls an operation makes on its surroundings: reading the
  clock, routing an envelope, keeping the per-session indexes, the admin read model and the gauges.

  The surroundings are the parameter \<open>lease_env\<close>: the outcome of the \<open>n\<close>-th routed envelope, the
  \<open>n\<close>-th reading of the monotonic and of the wall clock, the keyed hash of a session, and whether request
  metrics are configured. Every reading
  and every envelope advances a counter of the state, so no two calls are tied to the same outcome. A
  panic of the source is \<open>None\<close>. Logging is left out; counters are logged by name.
\<close>

section \<open>Time\<close>

text \<open>\<^verbatim>\<open>Instant\<close> as nanoseconds since the platform's origin: seconds are an \<^verbatim>\<open>i64\<close>, so
  adding a duration fails from \<open>2 ^ 63\<close> seconds on.\<close>

type_synonym instant = nat

definition NANOS :: nat where "NANOS = 1000000000"

definition INSTANT_END :: nat where "INSTANT_END = 2 ^ 63 * NANOS"

definition checked_add_secs :: "instant \<Rightarrow> nat \<Rightarrow> instant option" where
  "checked_add_secs t secs = (if t + secs * NANOS < INSTANT_END then Some (t + secs * NANOS) else None)"

text \<open>\<^verbatim>\<open>saturating_duration_since(..).as_secs()\<close>.\<close>

definition secs_until :: "instant \<Rightarrow> instant \<Rightarrow> nat" where
  "secs_until later now = (later - now) div NANOS"

section \<open>Protocol\<close>

datatype lease_key =
  LeaseKey (key_family: route_family) (key_realm: string) (key_area: string) (key_resource: string)

text \<open>The derived \<^verbatim>\<open>Ord\<close>: by family, then realm, area and resource.\<close>

definition key_tuple :: "lease_key \<Rightarrow> route_family \<times> string \<times> string \<times> string" where
  "key_tuple k = (key_family k, key_realm k, key_area k, key_resource k)"

lemma key_tuple_inject [simp]: "key_tuple a = key_tuple b \<longleftrightarrow> a = b"
  by (cases a; cases b) (simp add: key_tuple_def)

instantiation lease_key :: linorder
begin

definition less_eq_lease_key :: "lease_key \<Rightarrow> lease_key \<Rightarrow> bool" where
  "less_eq_lease_key a b \<longleftrightarrow> key_tuple a \<le> key_tuple b"

definition less_lease_key :: "lease_key \<Rightarrow> lease_key \<Rightarrow> bool" where
  "less_lease_key a b \<longleftrightarrow> key_tuple a < key_tuple b"

instance
  by standard (simp_all only: less_eq_lease_key_def less_lease_key_def less_le_not_le order_refl linear,
    auto intro: order_trans dest: antisym)

end

definition from_route_str :: "route_family \<Rightarrow> string \<Rightarrow> lease_key option" where
  "from_route_str fam route =
     (case route_exact_triplet route of
        None \<Rightarrow> None
      | Some parts \<Rightarrow>
          if realm parts \<noteq> [] \<and> area parts \<noteq> [] \<and> resource parts \<noteq> []
             \<and> CHR ''*'' \<notin> set (realm parts) \<and> CHR ''*'' \<notin> set (area parts) \<and> CHR ''*'' \<notin> set (resource parts)
          then Some (LeaseKey fam (realm parts) (area parts) (resource parts))
          else None)"

definition from_route :: "route_family \<Rightarrow> route \<Rightarrow> lease_key option" where
  "from_route fam route = from_route_str fam route"

definition to_route :: "lease_key \<Rightarrow> route" where
  "to_route k = ''lease://'' @ key_realm k @ ''/'' @ key_area k @ ''/'' @ key_resource k"

definition session_scoped_owner_id :: "u64 \<Rightarrow> string \<Rightarrow> string" where
  "session_scoped_owner_id sess owner =
     (if owner = [] then ''session:'' @ decimal (unat sess)
      else ''session:'' @ decimal (unat sess) @ '':'' @ owner)"

definition logical_owner_id :: "string \<Rightarrow> string" where
  "logical_owner_id scoped =
     (case strip_prefix ''session:'' scoped \<bind> split_once '':'' of
        None \<Rightarrow> [] | Some (_, owner) \<Rightarrow> owner)"

definition LEASE_MAX_OWNER_ID_BYTES :: nat where "LEASE_MAX_OWNER_ID_BYTES = 512"
definition LEASE_LIST_DEFAULT_PAGE_SIZE :: u32 where "LEASE_LIST_DEFAULT_PAGE_SIZE = 100"
definition LEASE_LIST_MAX_PAGE_SIZE :: u32 where "LEASE_LIST_MAX_PAGE_SIZE = 500"
definition LEASE_LIST_MAX_SNAPSHOTS :: nat where "LEASE_LIST_MAX_SNAPSHOTS = 256"
definition LEASE_LIST_MAX_CANDIDATES_PER_SCAN :: nat where "LEASE_LIST_MAX_CANDIDATES_PER_SCAN = 50000"
definition LEASE_LIST_PAGE_BYTE_BUDGET :: nat where "LEASE_LIST_PAGE_BYTE_BUDGET = 60000"
definition LEASE_LIST_MAX_RETAINED_ITEMS_TOTAL :: nat where "LEASE_LIST_MAX_RETAINED_ITEMS_TOTAL = 500000"
definition LEASE_LIST_MAX_RETAINED_BYTES_PER_SESSION :: nat where
  "LEASE_LIST_MAX_RETAINED_BYTES_PER_SESSION = 16 * 1024 * 1024"
definition LEASE_LIST_MAX_RETAINED_BYTES_TOTAL :: nat where
  "LEASE_LIST_MAX_RETAINED_BYTES_TOTAL = 64 * 1024 * 1024"
definition LEASE_LIST_SNAPSHOT_IDLE_TTL_SECS :: nat where "LEASE_LIST_SNAPSHOT_IDLE_TTL_SECS = 300"

record lease_list_cursor =
  snapshot_id :: u64
  cursor_offset :: u32

record lease_list_item =
  item_route :: route
  item_owner_id :: string
  item_holder_incarnation :: u64
  item_acquired_at :: string
  item_expires_in_secs :: u64
  item_renewals :: u32

text \<open>Error texts are those of the source; the text of a rejected pattern is its reason.\<close>

datatype lease_response =
    Acquired u64
  | AlreadyHeld u64
  | Queued u64
  | AlreadyQueued u64
  | Timeout
  | QueueFull nat
  | Extended u64
  | Released
  | HeldByOther string
  | NotHeld
  | Fenced u64
  | LeaseExpired
  | NotFound
  | Status string u64 u64 nat
  | LeaseError string
  | InvalidSubscriptionRoute domain_registration_error
  | InvalidListPattern domain_registration_error
  | InvalidListCursor
  | ListPage "lease_list_item list" "lease_list_cursor option"
  | SubscribeOk u64
  | UnsubscribeOk

datatype lease_message =
    MsgAcquire route_family route string u64 u32
  | MsgExtend route_family route string u64 u64
  | MsgRelease route_family route string u64
  | MsgQuery route_family route
  | MsgList route_family route "lease_list_cursor option" "u32 option"
  | Tick

datatype lease_subscription_message =
    Subscribe route_family route u64 route_address
  | Unsubscribe route_family route u64 route_address

datatype prepared_lease_operation =
    PrepAcquire lease_key string u64 u32
  | PrepExtend lease_key string u64 u64
  | PrepRelease lease_key string u64
  | PrepQuery lease_key

datatype lease_client_frame = Op lease_message | Sub lease_subscription_message

section \<open>Client frames and envelopes\<close>

datatype client_channel = ChControl | ChPub | ChSub | ChRpc | ChLease | ChInternal

record client_frame_meta =
  meta_session_id :: u64
  meta_channel :: client_channel
  meta_message_type :: u16
  meta_route_family :: route_family
  meta_correlation :: "u64 option"
  ack_requested :: bool
  response_final :: bool
  extensions_present :: bool

definition client_frame_meta_new :: "u64 \<Rightarrow> client_channel \<Rightarrow> u16 \<Rightarrow> route_family \<Rightarrow> client_frame_meta" where
  "client_frame_meta_new sess channel message_type fam =
     \<lparr>meta_session_id = sess, meta_channel = channel, meta_message_type = message_type, meta_route_family = fam,
      meta_correlation = None, ack_requested = False, response_final = True, extensions_present = False\<rparr>"

record lease_client_notification =
  note_session_id :: u64
  note_route_family :: route_family
  note_subscription_id :: u64
  note_route :: route
  note_payload :: bytes

text \<open>What the sink hands to the router: source, destination and payload.\<close>

datatype lease_outbound =
    OutResponse route_address route_address client_frame_meta lease_response
  | OutNotification route_address lease_client_notification

record domain_publish_event =
  event_family :: route_family
  event_route :: route
  event_payload :: bytes

section \<open>State\<close>

definition LEASE_MAX_WAIT_SECONDS :: u32 where "LEASE_MAX_WAIT_SECONDS = 30"
definition LEASE_MAX_QUEUE_DEPTH :: nat where "LEASE_MAX_QUEUE_DEPTH = 100"

record sink_lease_state =
  owner_id :: string
  owner_session_id :: u64
  fencing_token :: u64
  expiry :: instant
  acquired_at :: string
  renewals :: nat

record pending_acquire =
  w_correlation :: "u64 option"
  w_session_id :: u64
  w_owner_id :: string
  w_reply_destination :: route_address
  w_reply_source :: route_address
  w_channel :: client_channel
  w_route_family :: route_family
  queued_token :: u64
  w_ttl_secs :: u64
  expires_at :: instant

type_synonym pending_acquire_ref = "lease_key \<times> u64"

record lease_list_snapshot =
  snap_session_id :: u64
  snap_family_id :: route_family
  pattern_route :: string
  snap_items :: "lease_list_item list"
  retained_bytes :: nat
  served_count :: u32
  last_touched_at :: instant

record lease_acquire_request =
  req_key :: lease_key
  req_session_id :: u64
  req_owner_id :: string
  req_ttl_secs :: u64
  req_wait_seconds :: u32
  req_reply_source :: route_address
  req_reply_destination :: "route_address option"
  req_channel :: client_channel
  req_route_family :: route_family
  req_correlation :: "u64 option"

record queued_acquire_request =
  q_correlation :: "u64 option"
  q_current_owner :: string
  q_session_id :: u64
  q_owner_id :: string
  q_ttl_secs :: u64
  q_wait_seconds :: u32
  q_reply_source :: route_address
  q_reply_destination :: "route_address option"
  q_channel :: client_channel
  q_route_family :: route_family
  q_now :: instant

subsection \<open>Cleaned-up sessions\<close>

definition DOMAIN_ACTOR_MAILBOX_CAPACITY :: nat where "DOMAIN_ACTOR_MAILBOX_CAPACITY = 16384"

record cleaned_up_sessions =
  cleaned_order :: "u64 list"
  cleaned_seen :: "u64 list"
  cleaned_capacity :: nat

definition cleaned_up_sessions_new :: "nat \<Rightarrow> cleaned_up_sessions" where
  "cleaned_up_sessions_new capacity = \<lparr>cleaned_order = [], cleaned_seen = [], cleaned_capacity = max capacity 1\<rparr>"

definition mark :: "u64 \<Rightarrow> cleaned_up_sessions \<Rightarrow> cleaned_up_sessions" where
  "mark sess self =
     (if sess \<in> set (cleaned_seen self) then self
      else
        let self = self\<lparr>cleaned_seen := cleaned_seen self @ [sess], cleaned_order := cleaned_order self @ [sess]\<rparr>
        in if length (cleaned_order self) > cleaned_capacity self
           then (case cleaned_order self of
                   [] \<Rightarrow> self
                 | oldest # rest \<Rightarrow>
                     self\<lparr>cleaned_order := rest, cleaned_seen := filter (\<lambda>x. x \<noteq> oldest) (cleaned_seen self)\<rparr>)
           else self)"

definition contains :: "cleaned_up_sessions \<Rightarrow> u64 \<Rightarrow> bool" where
  "contains self sess \<longleftrightarrow> sess \<in> set (cleaned_seen self)"

subsection \<open>The admin read model\<close>

record lease_info =
  info_route_family :: u64
  info_realm :: string
  info_area :: string
  info_resource :: string
  info_owner :: string
  info_acquired_at :: string
  info_expires_at :: string
  info_renewals :: nat
  info_fencing_token :: u64

type_synonym lease_identity = "u64 \<times> string \<times> string \<times> string"

definition lease_identity_key :: "u64 \<Rightarrow> string \<Rightarrow> string \<Rightarrow> string \<Rightarrow> lease_identity" where
  "lease_identity_key fam rlm ar res = (fam, rlm, ar, res)"

definition lease_identity_for :: "lease_info \<Rightarrow> lease_identity" where
  "lease_identity_for info =
     lease_identity_key (info_route_family info) (info_realm info) (info_area info) (info_resource info)"

record admin_read_model =
  admin_leases :: "(lease_identity \<times> lease_info) list"
  lease_waiter_counts :: "(u64 \<times> nat) list"

definition set_lease_family_waiter_count :: "u64 \<Rightarrow> nat \<Rightarrow> admin_read_model \<Rightarrow> nat \<times> admin_read_model" where
  "set_lease_family_waiter_count fam n self =
     (let self = self\<lparr>lease_waiter_counts := AList.update fam n (lease_waiter_counts self)\<rparr>
      in (sum_list (map snd (lease_waiter_counts self)), self))"

definition upsert_lease :: "lease_info \<Rightarrow> admin_read_model \<Rightarrow> admin_read_model" where
  "upsert_lease lease self = self\<lparr>admin_leases := AList.update (lease_identity_for lease) lease (admin_leases self)\<rparr>"

definition remove_lease :: "u64 \<Rightarrow> string \<Rightarrow> string \<Rightarrow> string \<Rightarrow> admin_read_model \<Rightarrow> admin_read_model" where
  "remove_lease fam rlm ar res self =
     self\<lparr>admin_leases := AList.delete (lease_identity_key fam rlm ar res) (admin_leases self)\<rparr>"

subsection \<open>The family actor and its surroundings\<close>

record lease_subscription = routed_subscription +
  sub_address :: route_address

type_synonym lease_subscriptions = "(unit lease_subscription_ext) subscription_set"

datatype route_result = Delivered | ActorStopped | RouteFailed

record lease_env =
  route_outcome :: "nat \<Rightarrow> lease_outbound \<Rightarrow> route_result"
  sink_resolved :: "nat \<Rightarrow> route_address \<Rightarrow> bool"
  clock :: "nat \<Rightarrow> instant"
  utc_text :: "nat \<Rightarrow> string"
  utc_text_after :: "nat \<Rightarrow> nat \<Rightarrow> string"
  hash_session :: "u64 \<Rightarrow> u64"
  with_metrics :: bool

text \<open>The last five fields are what the operations did to their surroundings: clock readings, routed
  envelopes with their outcomes, counters, and the two gauges.\<close>

record lease_family_state =
  own_family :: route_family
  leases :: "(lease_key \<times> sink_lease_state) list"
  session_leases :: "(u64 \<times> lease_key list) list"
  pending_acquires :: "(lease_key \<times> pending_acquire list) list"
  session_waiters :: "(u64 \<times> pending_acquire_ref list) list"
  cleaned_up :: cleaned_up_sessions
  next_token :: u64
  families :: "(u64 \<times> lease_subscriptions) list"
  next_sub_id :: u64
  list_snapshots :: "(u64 \<times> lease_list_snapshot) list"
  next_list_snapshot_id :: u64
  admin :: admin_read_model
  registrations :: registration_world
  readings :: nat
  routed :: "(lease_outbound \<times> route_result) list"
  counters :: "string list"
  active_gauge :: nat
  waiters_gauge :: nat

type_synonym lease_state = lease_family_state

text \<open>\<^verbatim>\<open>BTreeMap::insert\<close> on the entries in key order; removal keeps the order.\<close>

fun btree_insert :: "'k::linorder \<Rightarrow> 'v \<Rightarrow> ('k \<times> 'v) list \<Rightarrow> ('k \<times> 'v) list" where
  "btree_insert k v [] = [(k, v)]"
| "btree_insert k v ((k', v') # m) =
     (if k < k' then (k, v) # (k', v') # m
      else if k = k' then (k, v) # m
      else (k', v') # btree_insert k v m)"

definition lease_family_state_new :: "u64 \<Rightarrow> u64 \<Rightarrow> u64 \<Rightarrow> route_family \<Rightarrow> lease_state" where
  "lease_family_state_new token sub_id snapshot fam =
     \<lparr>own_family = fam, leases = [], session_leases = [], pending_acquires = [], session_waiters = [],
      cleaned_up = cleaned_up_sessions_new DOMAIN_ACTOR_MAILBOX_CAPACITY, next_token = token, families = [],
      next_sub_id = sub_id, list_snapshots = [], next_list_snapshot_id = snapshot,
      admin = \<lparr>admin_leases = [], lease_waiter_counts = []\<rparr>,
      registrations = \<lparr>telemetry = [], metric_calls = []\<rparr>, readings = 0, routed = [], counters = [],
      active_gauge = 0, waiters_gauge = 0\<rparr>"

section \<open>Calls on the surroundings\<close>

text \<open>\<^verbatim>\<open>Instant::now()\<close>.\<close>

definition instant_now :: "lease_env \<Rightarrow> lease_state \<Rightarrow> instant \<times> lease_state" where
  "instant_now E s = (clock E (readings s), s\<lparr>readings := readings s + 1\<rparr>)"

text \<open>\<^verbatim>\<open>Utc::now().to_rfc3339()\<close>.\<close>

definition utc_now_text :: "lease_env \<Rightarrow> lease_state \<Rightarrow> string" where
  "utc_now_text E s = utc_text E (readings s)"

text \<open>\<^verbatim>\<open>AtomicU64::try_update\<close> with \<^verbatim>\<open>checked_add(1)\<close>: the old value and the new one.\<close>

definition next_id :: "u64 \<Rightarrow> (u64 \<times> u64) option" where
  "next_id n = (if n = - 1 then None else Some (n, n + 1))"

definition next_fencing_token :: "lease_state \<Rightarrow> (u64 \<times> lease_state) option" where
  "next_fencing_token s = map_option (\<lambda>(token, succ). (token, s\<lparr>next_token := succ\<rparr>)) (next_id (next_token s))"

definition counter_inc :: "string \<Rightarrow> lease_state \<Rightarrow> lease_state" where
  "counter_inc name s = s\<lparr>counters := counters s @ [name]\<rparr>"

definition router_route :: "lease_env \<Rightarrow> lease_outbound \<Rightarrow> lease_state \<Rightarrow> route_result \<times> lease_state" where
  "router_route E out s =
     (let r = route_outcome E (length (routed s)) out in (r, s\<lparr>routed := routed s @ [(out, r)]\<rparr>))"

datatype delivery_drop_kind = Response | Notification

definition record_dropped_delivery :: "delivery_drop_kind \<Rightarrow> lease_state \<Rightarrow> lease_state" where
  "record_dropped_delivery kind s =
     counter_inc (case kind of Response \<Rightarrow> ''fitz_lease_response_drops_total''
                  | Notification \<Rightarrow> ''fitz_lease_notify_drops_total'') s"

end
