(* ===== verification/Lease_Sink.thy ===== *)
theory Lease_Sink
  imports Lease_Model
begin

text \<open>
  The lease domain, part two: the operations of the family actor (\<^verbatim>\<open>src/domains/lease/sink/\<close>) on
  ownership and waiting: the per-session indexes (\<^verbatim>\<open>waiter_tracking.rs\<close>), the admin projection
  (\<^verbatim>\<open>observability.rs\<close>), notifications (\<^verbatim>\<open>delivery.rs\<close>), responses (\<^verbatim>\<open>responses.rs\<close>),
  expiry and the advance of a queue (\<^verbatim>\<open>expiry.rs\<close>), the four requests (\<^verbatim>\<open>acquire.rs\<close>) and the
  release of a session (\<^verbatim>\<open>cleanup.rs\<close>). \<open>advance_waiter_queue\<close> calls itself when a grant cannot be
  delivered; its termination proof is that the key's queue has become shorter.
\<close>

section \<open>Per-session indexes\<close>

text \<open>\<^verbatim>\<open>HashSet::insert\<close> and \<^verbatim>\<open>entry(..).or_default()\<close>; removal drops an emptied entry.\<close>

definition set_insert_key :: "'a \<Rightarrow> 'a list \<Rightarrow> 'a list" where
  "set_insert_key x xs = (if x \<in> set xs then xs else xs @ [x])"

definition track :: "'k \<Rightarrow> 'a \<Rightarrow> ('k \<times> 'a list) list \<Rightarrow> ('k \<times> 'a list) list" where
  "track sess x m = AList.update sess (set_insert_key x (entry_or [] m sess)) m"

definition untrack :: "'k \<Rightarrow> 'a \<Rightarrow> ('k \<times> 'a list) list \<Rightarrow> ('k \<times> 'a list) list" where
  "untrack sess x m =
     (case map_of m sess of
        None \<Rightarrow> m
      | Some xs \<Rightarrow>
          let xs = filter (\<lambda>y. y \<noteq> x) xs
          in if xs = [] then AList.delete sess m else AList.update sess xs m)"

definition track_session_lease :: "u64 \<Rightarrow> lease_key \<Rightarrow> lease_state \<Rightarrow> lease_state" where
  "track_session_lease sess key s = s\<lparr>session_leases := track sess key (session_leases s)\<rparr>"

definition untrack_session_lease :: "u64 \<Rightarrow> lease_key \<Rightarrow> lease_state \<Rightarrow> lease_state" where
  "untrack_session_lease sess key s = s\<lparr>session_leases := untrack sess key (session_leases s)\<rparr>"

definition track_session_waiter :: "u64 \<Rightarrow> lease_key \<Rightarrow> u64 \<Rightarrow> lease_state \<Rightarrow> lease_state" where
  "track_session_waiter sess key token s = s\<lparr>session_waiters := track sess (key, token) (session_waiters s)\<rparr>"

definition untrack_session_waiter :: "u64 \<Rightarrow> lease_key \<Rightarrow> u64 \<Rightarrow> lease_state \<Rightarrow> lease_state" where
  "untrack_session_waiter sess key token s = s\<lparr>session_waiters := untrack sess (key, token) (session_waiters s)\<rparr>"

section \<open>Validation\<close>

definition lease_expiry :: "instant \<Rightarrow> u64 \<Rightarrow> lease_response + instant" where
  "lease_expiry now ttl_secs =
     (if ttl_secs = 0 then Inl (LeaseError ''ttl_secs must be greater than zero'')
      else case checked_add_secs now (unat ttl_secs) of
             None \<Rightarrow> Inl (LeaseError ''ttl_secs exceeds the supported lease duration'')
           | Some t \<Rightarrow> Inr t)"

section \<open>Admin projection and gauges\<close>

definition lease_info_from_state :: "lease_env \<Rightarrow> lease_key \<Rightarrow> sink_lease_state \<Rightarrow> lease_state \<Rightarrow> lease_info \<times> lease_state" where
  "lease_info_from_state E key st s =
     (let (now, s) = instant_now E s
      in (\<lparr>info_route_family = ucast (key_family key), info_realm = key_realm key, info_area = key_area key,
           info_resource = key_resource key, info_owner = owner_id st, info_acquired_at = acquired_at st,
           info_expires_at = utc_text_after E (readings s) (secs_until (expiry st) now),
           info_renewals = renewals st, info_fencing_token = fencing_token st\<rparr>, s))"

definition upsert_admin_lease :: "lease_env \<Rightarrow> lease_key \<Rightarrow> sink_lease_state \<Rightarrow> lease_state \<Rightarrow> lease_state" where
  "upsert_admin_lease E key st s =
     (let (info, s) = lease_info_from_state E key st s in s\<lparr>admin := upsert_lease info (admin s)\<rparr>)"

definition remove_admin_lease :: "lease_key \<Rightarrow> lease_state \<Rightarrow> lease_state" where
  "remove_admin_lease key s =
     s\<lparr>admin := remove_lease (ucast (key_family key)) (key_realm key) (key_area key) (key_resource key) (admin s)\<rparr>"

definition lease_count :: "lease_state \<Rightarrow> nat" where
  "lease_count s = length (leases s)"

definition waiter_count :: "lease_state \<Rightarrow> nat" where
  "waiter_count s = sum_list (map (length \<circ> snd) (pending_acquires s))"

definition lease_subscription_count :: "lease_state \<Rightarrow> nat" where
  "lease_subscription_count s = sum_list (map (subscription_count \<circ> snd) (families s))"

definition live_counts :: "lease_state \<Rightarrow> nat \<times> nat \<times> nat" where
  "live_counts s = (lease_count s, lease_subscription_count s, waiter_count s)"

definition refresh_metrics_gauges :: "lease_state \<Rightarrow> lease_state" where
  "refresh_metrics_gauges s =
     (let (_, _, waiters) = live_counts s;
          (waiter_total, adm) = set_lease_family_waiter_count (ucast (own_family s)) waiters (admin s)
      in s\<lparr>admin := adm, active_gauge := length (admin_leases adm), waiters_gauge := waiter_total\<rparr>)"

fun lease_response_is_failure :: "lease_response \<Rightarrow> bool" where
  "lease_response_is_failure Timeout = True"
| "lease_response_is_failure (HeldByOther _) = True"
| "lease_response_is_failure (AlreadyQueued _) = True"
| "lease_response_is_failure (QueueFull _) = True"
| "lease_response_is_failure NotHeld = True"
| "lease_response_is_failure LeaseExpired = True"
| "lease_response_is_failure (Fenced _) = True"
| "lease_response_is_failure NotFound = True"
| "lease_response_is_failure (LeaseError _) = True"
| "lease_response_is_failure (InvalidSubscriptionRoute _) = True"
| "lease_response_is_failure (InvalidListPattern _) = True"
| "lease_response_is_failure InvalidListCursor = True"
| "lease_response_is_failure _ = False"

section \<open>Notifications\<close>

definition notify_target :: "lease_env \<Rightarrow> domain_publish_event \<Rightarrow> lease_subscription \<Rightarrow> lease_state \<Rightarrow> lease_state" where
  "notify_target E event sub s =
     (let note = \<lparr>note_session_id = session_id sub, note_route_family = event_family event,
                   note_subscription_id = subscription_id_of sub, note_route = event_route event,
                   note_payload = event_payload event\<rparr>;
          (r, s) = router_route E (OutNotification (sub_address sub) note) s
      in if r = Delivered then s else record_dropped_delivery Notification s)"

definition handle_domain_publish :: "lease_env \<Rightarrow> domain_publish_event \<Rightarrow> lease_state \<Rightarrow> lease_state option" where
  "handle_domain_publish E event s =
     (case map_of (families s) (ucast (event_family event)) of
        None \<Rightarrow> Some s
      | Some family_state \<Rightarrow>
          map_option (\<lambda>targets. fold (notify_target E event) targets s)
            (for_each_matching_route family_state (event_family event) (event_route event)))"

definition notify_lease_change :: "lease_env \<Rightarrow> lease_key \<Rightarrow> lease_state \<Rightarrow> lease_state option" where
  "notify_lease_change E key s =
     (if map_of (families s) (ucast (key_family key)) = None then Some s
      else handle_domain_publish E
        \<lparr>event_family = key_family key, event_route = to_route key, event_payload = []\<rparr> s)"

section \<open>Responses to waiters\<close>

definition MSG_TYPE_ACQUIRE :: u16 where "MSG_TYPE_ACQUIRE = 400"

definition send_waiter_response :: "lease_env \<Rightarrow> pending_acquire \<Rightarrow> lease_response \<Rightarrow> lease_state \<Rightarrow> bool \<times> lease_state" where
  "send_waiter_response E waiter response s =
     (let meta = (client_frame_meta_new (w_session_id waiter) (w_channel waiter) MSG_TYPE_ACQUIRE (w_route_family waiter))
            \<lparr>meta_correlation := w_correlation waiter\<rparr>;
          (r, s) = router_route E (OutResponse (w_reply_source waiter) (w_reply_destination waiter) meta response) s
      in if r = Delivered then (True, s) else (False, record_dropped_delivery Response s))"

section \<open>Expiry\<close>

datatype waiter_progress = Unchanged | ExpiredWaiters | Consumed

definition changed :: "waiter_progress \<Rightarrow> bool" where
  "changed p \<longleftrightarrow> p \<noteq> Unchanged"

text \<open>\<^verbatim>\<open>VecDeque::remove\<close>.\<close>

definition remove_at :: "nat \<Rightarrow> 'a list \<Rightarrow> 'a list" where
  "remove_at i xs = take i xs @ drop (Suc i) xs"

function drain_loop :: "instant \<Rightarrow> nat \<Rightarrow> pending_acquire list \<Rightarrow> pending_acquire list
    \<Rightarrow> pending_acquire list \<times> pending_acquire list" where
  "drain_loop now index expired queue =
     (if index < length queue then
        if expires_at (queue ! index) \<le> now
        then drain_loop now index (expired @ [queue ! index]) (remove_at index queue)
        else drain_loop now (index + 1) expired queue
      else (expired, queue))"
  by pat_completeness auto

termination
  by (relation "measure (\<lambda>(now, index, expired, queue). length queue - index)") (auto simp: remove_at_def)

declare drain_loop.simps [simp del]

text \<open>The expired waiters and the queue left.\<close>

definition drain_expired_waiters :: "pending_acquire list \<Rightarrow> instant \<Rightarrow> pending_acquire list \<times> pending_acquire list" where
  "drain_expired_waiters queue now = drain_loop now 0 [] queue"

definition timeout_waiter :: "lease_env \<Rightarrow> lease_key \<Rightarrow> pending_acquire \<Rightarrow> lease_state \<Rightarrow> lease_state" where
  "timeout_waiter E key waiter s =
     snd (send_waiter_response E waiter Timeout
       (untrack_session_waiter (w_session_id waiter) key (queued_token waiter) s))"

definition set_queue :: "lease_key \<Rightarrow> pending_acquire list \<Rightarrow> lease_state \<Rightarrow> lease_state" where
  "set_queue key queue s =
     s\<lparr>pending_acquires :=
        if queue = [] then AList.delete key (pending_acquires s) else AList.update key queue (pending_acquires s)\<rparr>"

definition expire_timed_out_waiters_for_key :: "lease_env \<Rightarrow> lease_key \<Rightarrow> instant \<Rightarrow> lease_state \<Rightarrow> nat \<times> lease_state" where
  "expire_timed_out_waiters_for_key E key now s =
     (case map_of (pending_acquires s) key of
        None \<Rightarrow> (0, s)
      | Some queue \<Rightarrow>
          let (expired, queue) = drain_expired_waiters queue now;
              s = set_queue key queue s
          in (length expired,
              fold (\<lambda>waiter s. snd (send_waiter_response E waiter Timeout
                      (counter_inc ''fitz_lease_acquire_timeouts_total''
                        (untrack_session_waiter (w_session_id waiter) key (queued_token waiter) s)))) expired s))"

definition pending_waiter_count :: "lease_key \<Rightarrow> lease_state \<Rightarrow> nat" where
  "pending_waiter_count key s = (case map_of (pending_acquires s) key of None \<Rightarrow> 0 | Some queue \<Rightarrow> length queue)"

text \<open>The block of \<^verbatim>\<open>advance_waiter_queue\<close> that pops the front of the queue of a free key and
  installs the waiter's lease when its expiry can be represented.\<close>

definition grant_front :: "lease_env \<Rightarrow> lease_key \<Rightarrow> instant \<Rightarrow> lease_state
    \<Rightarrow> (pending_acquire \<times> sink_lease_state option) option \<times> lease_state" where
  "grant_front E key now s =
     (if map_of (leases s) key \<noteq> None then (None, s)
      else case map_of (pending_acquires s) key of
        None \<Rightarrow> (None, s)
      | Some [] \<Rightarrow> (None, set_queue key [] s)
      | Some (waiter # queue) \<Rightarrow>
          let s = set_queue key queue s
          in case lease_expiry now (w_ttl_secs waiter) of
               Inl _ \<Rightarrow> (Some (waiter, None), s)
             | Inr t \<Rightarrow>
                 let st = \<lparr>owner_id = w_owner_id waiter, owner_session_id = w_session_id waiter,
                           fencing_token = queued_token waiter, expiry = t, acquired_at = utc_now_text E s, renewals = 0\<rparr>
                 in (Some (waiter, Some st), s\<lparr>leases := btree_insert key st (leases s)\<rparr>))"

definition announce_grant :: "lease_env \<Rightarrow> lease_key \<Rightarrow> pending_acquire \<Rightarrow> sink_lease_state \<Rightarrow> lease_state
    \<Rightarrow> (bool \<times> lease_state) option" where
  "announce_grant E key waiter st s =
     map_option (send_waiter_response E waiter (Acquired (queued_token waiter)))
       (notify_lease_change E key
         (upsert_admin_lease E key st
           (track_session_lease (w_session_id waiter) key
             (untrack_session_waiter (w_session_id waiter) key (queued_token waiter) s))))"

text \<open>The removal of a lease that is repeated in the sink: index, admin projection and notification.\<close>

definition forget_lease :: "lease_env \<Rightarrow> u64 \<Rightarrow> lease_key \<Rightarrow> lease_state \<Rightarrow> lease_state option" where
  "forget_lease E sess key s = notify_lease_change E key (remove_admin_lease key (untrack_session_lease sess key s))"

definition drop_lease :: "lease_key \<Rightarrow> lease_state \<Rightarrow> lease_state" where
  "drop_lease key s = s\<lparr>leases := AList.delete key (leases s)\<rparr>"

subsection \<open>What leaves a queue alone\<close>

lemma pending_untrack_waiter [simp]: "pending_acquires (untrack_session_waiter sess key t s) = pending_acquires s"
  by (simp add: untrack_session_waiter_def)

lemma pending_send [simp]: "pending_acquires (snd (send_waiter_response E w r s)) = pending_acquires s"
  by (simp add: send_waiter_response_def router_route_def record_dropped_delivery_def counter_inc_def Let_def)

lemma pending_fold:
  "(\<And>x s. pending_acquires (f x s) = pending_acquires s) \<Longrightarrow> pending_acquires (fold f xs s) = pending_acquires s"
  by (induction xs arbitrary: s) simp_all

lemma pending_notify: "notify_lease_change E key s = Some s' \<Longrightarrow> pending_acquires s' = pending_acquires s"
  by (auto simp: notify_lease_change_def handle_domain_publish_def notify_target_def router_route_def
        record_dropped_delivery_def counter_inc_def Let_def intro!: pending_fold split: if_splits option.splits)

lemma pending_announce: "announce_grant E key w st s = Some (d, s') \<Longrightarrow> pending_acquires s' = pending_acquires s"
  by (auto simp: announce_grant_def upsert_admin_lease_def lease_info_from_state_def instant_now_def
        track_session_lease_def Let_def dest!: pending_notify) (metis pending_send snd_conv)

lemma pending_forget: "forget_lease E sess key s = Some s' \<Longrightarrow> pending_acquires s' = pending_acquires s"
  by (auto simp: forget_lease_def remove_admin_lease_def untrack_session_lease_def dest!: pending_notify)

subsection \<open>Advancing a queue\<close>

lemma drain_loop_filter:
  "drain_loop now i ex q = (ex @ filter (\<lambda>w. expires_at w \<le> now) (drop i q),
     take i q @ filter (\<lambda>w. \<not> expires_at w \<le> now) (drop i q))"
proof (induction now i ex q rule: drain_loop.induct)
  case (1 now i ex q)
  show ?case
  proof (cases "i < length q")
    case True
    then have d: "drop i q = q ! i # drop (Suc i) q" and t: "take (Suc i) q = take i q @ [q ! i]"
      by (simp_all add: Cons_nth_drop_Suc take_Suc_conv_app_nth)
    have r: "drop i (remove_at i q) = drop (Suc i) q" "take i (remove_at i q) = take i q"
      using True by (simp_all add: remove_at_def)
    show ?thesis using 1 True by (subst drain_loop.simps) (simp add: d t r)
  next
    case False
    then show ?thesis by (subst drain_loop.simps) simp
  qed
qed

lemma drain_expired_waiters_filter:
  "drain_expired_waiters q now = (filter (\<lambda>w. expires_at w \<le> now) q, filter (\<lambda>w. \<not> expires_at w \<le> now) q)"
  by (simp add: drain_expired_waiters_def drain_loop_filter)

lemma pending_waiter_count_set_queue [simp]: "pending_waiter_count key (set_queue key q s) = length q"
  by (simp add: pending_waiter_count_def set_queue_def delete_conv' update_conv')

lemma pending_expire:
  "expire_timed_out_waiters_for_key E key now s = (n, s') \<Longrightarrow> pending_waiter_count key s' \<le> pending_waiter_count key s"
proof -
  assume e: "expire_timed_out_waiters_for_key E key now s = (n, s')"
  show ?thesis
  proof (cases "map_of (pending_acquires s) key")
    case None
    then show ?thesis using e by (simp add: expire_timed_out_waiters_for_key_def)
  next
    case (Some q)
    have "pending_acquires s' = pending_acquires (set_queue key (snd (drain_expired_waiters q now)) s)"
      using e Some by (auto simp: expire_timed_out_waiters_for_key_def Let_def counter_inc_def split: prod.splits
          intro!: pending_fold)
    then have "pending_waiter_count key s' = length (snd (drain_expired_waiters q now))"
      using pending_waiter_count_set_queue [of key] by (simp add: pending_waiter_count_def)
    then show ?thesis using Some by (simp add: pending_waiter_count_def drain_expired_waiters_filter)
  qed
qed

lemma pending_grant:
  "grant_front E key now s = (Some g, s') \<Longrightarrow> pending_waiter_count key s' < pending_waiter_count key s"
  by (auto simp: grant_front_def Let_def pending_waiter_count_def set_queue_def delete_conv' update_conv'
      split: if_splits option.splits list.splits sum.splits)

lemma pending_waiter_count_cong: "pending_acquires s' = pending_acquires s \<Longrightarrow> pending_waiter_count key s' = pending_waiter_count key s"
  by (simp add: pending_waiter_count_def)

lemma pending_drop_lease [simp]: "pending_acquires (drop_lease key s) = pending_acquires s"
  by (simp add: drop_lease_def)

function advance_waiter_queue :: "lease_env \<Rightarrow> lease_key \<Rightarrow> instant \<Rightarrow> lease_state
    \<Rightarrow> (waiter_progress \<times> lease_state) option" where
  "advance_waiter_queue E key now s =
     (let (expired_waiter_count, s1) = expire_timed_out_waiters_for_key E key now s;
          (granted, s2) = grant_front E key now s1
      in case granted of
           None \<Rightarrow> Some (if expired_waiter_count > 0 then ExpiredWaiters else Unchanged, s2)
         | Some (waiter, None) \<Rightarrow>
             Some (Consumed,
               snd (send_waiter_response E waiter (LeaseError ''queued ttl_secs exceeds the supported lease duration'')
                 (untrack_session_waiter (w_session_id waiter) key (queued_token waiter) s2)))
         | Some (waiter, Some st) \<Rightarrow>
             announce_grant E key waiter st s2 \<bind> (\<lambda>(delivered, s3).
               if delivered then Some (Consumed, counter_inc ''fitz_lease_ownership_churn_total'' s3)
               else forget_lease E (w_session_id waiter) key (drop_lease key s3) \<bind> (\<lambda>s4.
                      map_option (\<lambda>(_, s5). (Consumed, s5)) (advance_waiter_queue E key now s4))))"
  by pat_completeness auto

termination
proof (relation "measure (\<lambda>(E, key, now, s). pending_waiter_count key s)", goal_cases)
  case (2 E key now s x n s1 y granted s2 g waiter o st z delivered s3 s4)
  then show ?case
    using pending_expire [of E key now s n s1] pending_grant [of E key now s1 "(waiter, Some st)" s2]
      pending_waiter_count_cong [of s4 s2 key]
    by (auto dest!: pending_announce pending_forget)
qed simp

declare advance_waiter_queue.simps [simp del]

subsection \<open>The sweep\<close>

definition drain_all :: "instant \<Rightarrow> (lease_key \<times> pending_acquire list) list
    \<Rightarrow> (lease_key \<times> pending_acquire) list \<times> (lease_key \<times> pending_acquire list) list" where
  "drain_all now pending =
     (concat (map (\<lambda>(key, queue). map (Pair key) (fst (drain_expired_waiters queue now))) pending),
      filter (\<lambda>(key, queue). queue \<noteq> []) (map (\<lambda>(key, queue). (key, snd (drain_expired_waiters queue now))) pending))"

definition expired_entries :: "instant \<Rightarrow> (lease_key \<times> sink_lease_state) list \<Rightarrow> (lease_key \<times> sink_lease_state) list" where
  "expired_entries now m = filter (\<lambda>(key, st). expiry st \<le> now) m"

fun force_release_each :: "lease_env \<Rightarrow> instant \<Rightarrow> (lease_key \<times> sink_lease_state) list \<Rightarrow> lease_state \<Rightarrow> lease_state option" where
  "force_release_each E now [] s = Some s"
| "force_release_each E now ((key, st) # rest) s = do {
     s \<leftarrow> forget_lease E (owner_session_id st) key (counter_inc ''fitz_lease_forced_releases_total'' s);
     (_, s) \<leftarrow> advance_waiter_queue E key now s;
     force_release_each E now rest s
   }"

fun advance_each :: "lease_env \<Rightarrow> instant \<Rightarrow> lease_key list \<Rightarrow> lease_state \<Rightarrow> lease_state option" where
  "advance_each E now [] s = Some s"
| "advance_each E now (key # rest) s = do {
     (_, s) \<leftarrow> advance_waiter_queue E key now s;
     advance_each E now rest s
   }"

definition sweep_idle_list_snapshots :: "lease_env \<Rightarrow> lease_state \<Rightarrow> lease_state" where
  "sweep_idle_list_snapshots E s =
     (let (now, s) = instant_now E s
      in s\<lparr>list_snapshots := filter (\<lambda>(_, snapshot).
             now - last_touched_at snapshot < LEASE_LIST_SNAPSHOT_IDLE_TTL_SECS * NANOS) (list_snapshots s)\<rparr>)"

definition sweep_expired_state :: "lease_env \<Rightarrow> lease_state \<Rightarrow> lease_state option" where
  "sweep_expired_state E s =
     (let (now, s) = instant_now E s;
          (expired_waiters, pending) = drain_all now (pending_acquires s);
          s = fold (\<lambda>(key, waiter). timeout_waiter E key waiter) expired_waiters (s\<lparr>pending_acquires := pending\<rparr>);
          expired_leases = expired_entries now (leases s);
          s = s\<lparr>leases := filter (\<lambda>(key, st). \<not> expiry st \<le> now) (leases s)\<rparr>
      in do {
        s \<leftarrow> force_release_each E now expired_leases s;
        s \<leftarrow> advance_each E now (map fst (pending_acquires s)) s;
        Some (refresh_metrics_gauges (sweep_idle_list_snapshots E s))
      })"

section \<open>Requests\<close>

datatype lease_authorization = Missing | AuthExpired | NotOwner | AuthFenced u64 | Authorized

definition authorize_owned_lease :: "sink_lease_state option \<Rightarrow> string \<Rightarrow> u64 \<Rightarrow> instant \<Rightarrow> lease_authorization" where
  "authorize_owned_lease lease owner token now =
     (case lease of
        None \<Rightarrow> Missing
      | Some st \<Rightarrow>
          if expiry st \<le> now then AuthExpired
          else if owner_id st \<noteq> owner then NotOwner
          else if fencing_token st \<noteq> token then AuthFenced (fencing_token st)
          else Authorized)"

definition rollback_undeliverable_acquire :: "lease_env \<Rightarrow> lease_key \<Rightarrow> u64 \<Rightarrow> lease_response \<Rightarrow> lease_state \<Rightarrow> lease_state option" where
  "rollback_undeliverable_acquire E key sess response s =
     (case response of
        Acquired token \<Rightarrow>
          (case map_of (leases s) key of
             None \<Rightarrow> Some s
           | Some st \<Rightarrow>
               if owner_session_id st = sess \<and> fencing_token st = token then do {
                 s \<leftarrow> forget_lease E sess key (drop_lease key s);
                 let (now, s) = instant_now E s;
                 (_, s) \<leftarrow> advance_waiter_queue E key now s;
                 Some (refresh_metrics_gauges s)
               }
               else Some s)
      | Queued token \<Rightarrow>
          (case map_of (pending_acquires s) key of
             None \<Rightarrow> Some s
           | Some waiters \<Rightarrow>
               (case position (\<lambda>waiter. w_session_id waiter = sess \<and> queued_token waiter = token) waiters of
                  None \<Rightarrow> Some (set_queue key waiters s)
                | Some i \<Rightarrow>
                    Some (refresh_metrics_gauges
                      (untrack_session_waiter sess key token (set_queue key (remove_at i waiters) s)))))
      | _ \<Rightarrow> Some s)"

record lease_effects =
  eff_updated :: "sink_lease_state option"
  eff_removed :: "sink_lease_state option"

definition apply_lease_effects :: "lease_env \<Rightarrow> lease_key \<Rightarrow> instant \<Rightarrow> lease_effects \<Rightarrow> lease_state \<Rightarrow> lease_state option" where
  "apply_lease_effects E key now effects s =
     (let s = (case eff_updated effects of None \<Rightarrow> s | Some st \<Rightarrow> upsert_admin_lease E key st s)
      in case eff_removed effects of
           None \<Rightarrow> Some s
         | Some st \<Rightarrow> do {
             s \<leftarrow> forget_lease E (owner_session_id st) key s;
             (_, s) \<leftarrow> advance_waiter_queue E key now s;
             Some (refresh_metrics_gauges s)
           })"

definition prepare_acquire_key :: "lease_env \<Rightarrow> lease_key \<Rightarrow> instant \<Rightarrow> lease_state \<Rightarrow> (bool \<times> lease_state) option" where
  "prepare_acquire_key E key now s =
     (case map_of (leases s) key of
        Some st \<Rightarrow>
          if expiry st \<le> now then do {
            s \<leftarrow> forget_lease E (owner_session_id st) key (drop_lease key s);
            (_, s) \<leftarrow> advance_waiter_queue E key now s;
            Some (True, s)
          }
          else Some (False, s)
      | None \<Rightarrow>
          if pending_waiter_count key s > 0
          then map_option (\<lambda>(p, s). (changed p, s)) (advance_waiter_queue E key now s)
          else Some (False, s))"

definition queue_acquire_waiter :: "lease_key \<Rightarrow> queued_acquire_request \<Rightarrow> lease_state \<Rightarrow> (lease_response \<times> lease_state) option" where
  "queue_acquire_waiter key request s =
     (case q_reply_destination request of
        None \<Rightarrow> Some (HeldByOther (q_current_owner request), s)
      | Some destination \<Rightarrow>
          let queue = entry_or [] (pending_acquires s) key
          in case find (\<lambda>waiter. w_owner_id waiter = q_owner_id request) queue of
               Some existing \<Rightarrow> Some (AlreadyQueued (queued_token existing), s)
             | None \<Rightarrow>
                 if length queue \<ge> LEASE_MAX_QUEUE_DEPTH then Some (QueueFull (length queue), s)
                 else case next_fencing_token s of
                        None \<Rightarrow> Some (LeaseError ''fencing token space exhausted'', s)
                      | Some (token, s) \<Rightarrow> do {
                          deadline \<leftarrow> checked_add_secs (q_now request) (unat (q_wait_seconds request));
                          let waiter = \<lparr>w_correlation = q_correlation request, w_session_id = q_session_id request,
                            w_owner_id = q_owner_id request, w_reply_destination = destination,
                            w_reply_source = q_reply_source request, w_channel = q_channel request,
                            w_route_family = q_route_family request, queued_token = token,
                            w_ttl_secs = q_ttl_secs request, expires_at = deadline\<rparr>;
                          let s = s\<lparr>pending_acquires := AList.update key (queue @ [waiter]) (pending_acquires s)\<rparr>;
                          Some (Queued token, track_session_waiter (q_session_id request) key token s)
                        })"

text \<open>The decision of \<^verbatim>\<open>handle_acquire\<close> on a prepared key: \<open>None\<close> for the early return when the
  token space is exhausted, else the response or the request to queue, with the lease it created.\<close>

datatype acquire_decision = Respond lease_response | Enqueue queued_acquire_request

definition decide_acquire :: "lease_env \<Rightarrow> lease_acquire_request \<Rightarrow> instant \<Rightarrow> instant \<Rightarrow> lease_state
    \<Rightarrow> (acquire_decision \<times> sink_lease_state option \<times> lease_state) option" where
  "decide_acquire E request now t s =
     (case map_of (leases s) (req_key request) of
        None \<Rightarrow>
          map_option (\<lambda>(token, s).
            let st = \<lparr>owner_id = req_owner_id request, owner_session_id = req_session_id request,
                      fencing_token = token, expiry = t, acquired_at = utc_now_text E s, renewals = 0\<rparr>
            in (Respond (Acquired token), Some st, s\<lparr>leases := btree_insert (req_key request) st (leases s)\<rparr>))
            (next_fencing_token s)
      | Some st \<Rightarrow>
          if owner_id st = req_owner_id request then Some (Respond (AlreadyHeld (fencing_token st)), None, s)
          else if req_wait_seconds request = 0 then Some (Respond (HeldByOther (owner_id st)), None, s)
          else Some (Enqueue \<lparr>q_correlation = req_correlation request, q_current_owner = owner_id st,
                 q_session_id = req_session_id request, q_owner_id = req_owner_id request,
                 q_ttl_secs = req_ttl_secs request, q_wait_seconds = req_wait_seconds request,
                 q_reply_source = req_reply_source request, q_reply_destination = req_reply_destination request,
                 q_channel = req_channel request, q_route_family = req_route_family request, q_now = now\<rparr>, None, s))"

definition is_queued :: "lease_response \<Rightarrow> bool" where
  "is_queued response \<longleftrightarrow> (case response of Queued _ \<Rightarrow> True | _ \<Rightarrow> False)"

definition handle_acquire :: "lease_env \<Rightarrow> lease_acquire_request \<Rightarrow> lease_state \<Rightarrow> (lease_response \<times> lease_state) option" where
  "handle_acquire E request s =
     (let (now, s) = instant_now E s; key = req_key request
      in case lease_expiry now (req_ttl_secs request) of
           Inl response \<Rightarrow> Some (response, s)
         | Inr t \<Rightarrow>
             if req_wait_seconds request > LEASE_MAX_WAIT_SECONDS
             then Some (LeaseError (''wait_seconds must not exceed '' @ decimal (unat LEASE_MAX_WAIT_SECONDS)), s)
             else do {
               (prepared_count_changed, s) \<leftarrow> prepare_acquire_key E key now s;
               case decide_acquire E request now t s of
                 None \<Rightarrow> Some (LeaseError ''fencing token space exhausted'', s)
               | Some (decision, acquired_state, s) \<Rightarrow> do {
                   (response, s) \<leftarrow> (case decision of
                       Respond response \<Rightarrow> Some (response, s)
                     | Enqueue queued \<Rightarrow> queue_acquire_waiter key queued s);
                   s \<leftarrow> (case acquired_state of
                       None \<Rightarrow> Some s
                     | Some st \<Rightarrow> notify_lease_change E key
                         (upsert_admin_lease E key st (track_session_lease (req_session_id request) key s)));
                   Some (response,
                     if prepared_count_changed \<or> acquired_state \<noteq> None \<or> is_queued response
                     then refresh_metrics_gauges s else s)
                 }
             })"

definition handle_extend :: "lease_env \<Rightarrow> lease_key \<Rightarrow> string \<Rightarrow> u64 \<Rightarrow> u64 \<Rightarrow> lease_state \<Rightarrow> (lease_response \<times> lease_state) option" where
  "handle_extend E key owner token ttl_secs s =
     (let (now, s) = instant_now E s
      in case lease_expiry now ttl_secs of
           Inl response \<Rightarrow> Some (response, s)
         | Inr t \<Rightarrow>
             let (response, effects, s) =
               (case authorize_owned_lease (map_of (leases s) key) owner token now of
                  Missing \<Rightarrow> (NotHeld, \<lparr>eff_updated = None, eff_removed = None\<rparr>, s)
                | NotOwner \<Rightarrow> (NotHeld, \<lparr>eff_updated = None, eff_removed = None\<rparr>, s)
                | AuthExpired \<Rightarrow>
                    (LeaseExpired, \<lparr>eff_updated = None, eff_removed = map_of (leases s) key\<rparr>, drop_lease key s)
                | AuthFenced current_token \<Rightarrow>
                    (Fenced current_token, \<lparr>eff_updated = None, eff_removed = None\<rparr>,
                     counter_inc ''fitz_lease_invalid_token_rejects_total'' s)
                | Authorized \<Rightarrow>
                    (case map_of (leases s) key of
                       None \<Rightarrow> (Extended token, \<lparr>eff_updated = None, eff_removed = None\<rparr>, s)
                     | Some st \<Rightarrow>
                         let st = st\<lparr>expiry := t, renewals := saturating_inc (renewals st)\<rparr>
                         in (Extended (fencing_token st), \<lparr>eff_updated = Some st, eff_removed = None\<rparr>,
                             s\<lparr>leases := AList.update key st (leases s)\<rparr>)))
             in map_option (Pair response) (apply_lease_effects E key now effects s))"

definition handle_release :: "lease_env \<Rightarrow> lease_key \<Rightarrow> string \<Rightarrow> u64 \<Rightarrow> lease_state \<Rightarrow> (lease_response \<times> lease_state) option" where
  "handle_release E key owner token s =
     (let (now, s) = instant_now E s;
          (response, effects, s) =
            (case authorize_owned_lease (map_of (leases s) key) owner token now of
               Missing \<Rightarrow> (Released, \<lparr>eff_updated = None, eff_removed = None\<rparr>, s)
             | AuthExpired \<Rightarrow>
                 (Released, \<lparr>eff_updated = None, eff_removed = map_of (leases s) key\<rparr>, drop_lease key s)
             | Authorized \<Rightarrow>
                 (Released, \<lparr>eff_updated = None, eff_removed = map_of (leases s) key\<rparr>, drop_lease key s)
             | NotOwner \<Rightarrow> (NotHeld, \<lparr>eff_updated = None, eff_removed = None\<rparr>, s)
             | AuthFenced current_token \<Rightarrow>
                 (Fenced current_token, \<lparr>eff_updated = None, eff_removed = None\<rparr>,
                  counter_inc ''fitz_lease_invalid_token_rejects_total'' s))
      in map_option (Pair response) (apply_lease_effects E key now effects s))"

definition handle_query :: "lease_env \<Rightarrow> lease_key \<Rightarrow> lease_state \<Rightarrow> lease_response \<times> lease_state" where
  "handle_query E key s =
     (let (now, s) = instant_now E s
      in (case map_of (leases s) key of
            None \<Rightarrow> NotFound
          | Some st \<Rightarrow>
              if expiry st \<le> now then LeaseExpired
              else Status (owner_id st) (fencing_token st) (of_nat (secs_until (expiry st) now)) (pending_waiter_count key s), s))"

section \<open>Releasing a session\<close>

text \<open>One waiter reference: the queue loses the waiter; an empty queue's key is remembered.\<close>

definition remove_waiter_ref :: "pending_acquire_ref \<Rightarrow> (lease_key \<times> pending_acquire list) list \<times> lease_key list \<times> nat
    \<Rightarrow> (lease_key \<times> pending_acquire list) list \<times> lease_key list \<times> nat" where
  "remove_waiter_ref waiter_ref acc =
     (case acc of (pending, empty_keys, removed) \<Rightarrow>
        (case waiter_ref of (key, token) \<Rightarrow>
           (case map_of pending key of
              None \<Rightarrow> (pending, empty_keys, removed)
            | Some queue \<Rightarrow>
                let (queue, removed) =
                  (case position (\<lambda>waiter. queued_token waiter = token) queue of
                     None \<Rightarrow> (queue, removed)
                   | Some i \<Rightarrow> (remove_at i queue, removed + 1))
                in (AList.update key queue pending, if queue = [] then empty_keys @ [key] else empty_keys, removed))))"

definition remove_session_waiters :: "u64 \<Rightarrow> lease_state \<Rightarrow> nat \<times> lease_state" where
  "remove_session_waiters sess s =
     (let waiter_refs = entry_or [] (session_waiters s) sess;
          s = s\<lparr>session_waiters := AList.delete sess (session_waiters s)\<rparr>
      in if waiter_refs = [] then (0, s)
         else
           let (pending, empty_keys, removed) = fold remove_waiter_ref waiter_refs (pending_acquires s, [], 0)
           in (removed, s\<lparr>pending_acquires := fold AList.delete empty_keys pending\<rparr>))"

fun unsubscribe_each :: "(u64 \<times> lease_subscriptions) list \<Rightarrow> registration_world \<Rightarrow> u64
    \<Rightarrow> (nat \<times> (u64 \<times> lease_subscriptions) list \<times> registration_world) option" where
  "unsubscribe_each [] w sess = Some (0, [], w)"
| "unsubscribe_each ((fid, state) # rest) w sess = do {
     fam \<leftarrow> route_family_try_from fid;
     (n, state, w) \<leftarrow> remove_session ''lease'' state w fam sess;
     (m, rest, w) \<leftarrow> unsubscribe_each rest w sess;
     Some (n + m, (fid, state) # rest, w)
   }"

definition unsubscribe_all :: "u64 \<Rightarrow> lease_state \<Rightarrow> (nat \<times> lease_state) option" where
  "unsubscribe_all sess s =
     map_option (\<lambda>(removed, fams, w).
         (removed, s\<lparr>families := filter (\<lambda>(_, state). \<not> set_is_empty state) fams, registrations := w\<rparr>))
       (unsubscribe_each (families s) (registrations s) sess)"

definition remove_list_snapshots_for_session :: "u64 \<Rightarrow> lease_state \<Rightarrow> lease_state" where
  "remove_list_snapshots_for_session sess s =
     s\<lparr>list_snapshots := filter (\<lambda>(_, snapshot). snap_session_id snapshot \<noteq> sess) (list_snapshots s)\<rparr>"

fun announce_removed :: "lease_env \<Rightarrow> lease_key list \<Rightarrow> lease_state \<Rightarrow> lease_state option" where
  "announce_removed E [] s = Some s"
| "announce_removed E (key # rest) s = notify_lease_change E key (remove_admin_lease key s) \<bind> announce_removed E rest"

definition release_session_resources :: "lease_env \<Rightarrow> u64 \<Rightarrow> lease_state \<Rightarrow> lease_state option" where
  "release_session_resources E sess s =
     (let (now, s) = instant_now E s;
          tracked_keys = entry_or [] (session_leases s) sess;
          s = s\<lparr>session_leases := AList.delete sess (session_leases s)\<rparr>;
          (removed_waiters, s) = remove_session_waiters sess s;
          removed_keys = filter (\<lambda>key. map_of (leases s) key \<noteq> None) tracked_keys;
          s = fold drop_lease tracked_keys s
      in do {
        (_, s) \<leftarrow> unsubscribe_all sess s;
        let s = remove_list_snapshots_for_session sess s;
        s \<leftarrow> announce_removed E removed_keys s;
        s \<leftarrow> advance_each E now removed_keys s;
        Some (refresh_metrics_gauges s)
      })"

definition cleanup_session :: "lease_env \<Rightarrow> u64 \<Rightarrow> lease_state \<Rightarrow> lease_state option" where
  "cleanup_session E sess s = release_session_resources E sess (s\<lparr>cleaned_up := mark sess (cleaned_up s)\<rparr>)"

end
