(* ===== verification/Lease_List.thy ===== *)
theory Lease_List
  imports Lease_Sink Payload_Codec
begin

text \<open>
  The lease domain, part three: the paginated \<^verbatim>\<open>LIST\<close> (\<^verbatim>\<open>src/domains/lease/sink/list.rs\<close>). A
  wildcard scan captures the matching leases of the family in key order, serves a first page bounded by
  item count and encoded bytes, and keeps the rest as a snapshot under global and per-session ceilings;
  a continuation must present the exact cursor. The snapshot map is shared by the families behind one
  lock; each operation here runs under it.
\<close>

section \<open>Definitions\<close>

text \<open>\<^verbatim>\<open>usize::saturating_add\<close>.\<close>

definition usize_add :: "nat \<Rightarrow> nat \<Rightarrow> nat" where
  "usize_add a b = min (a + b) (2 ^ 64 - 1)"

text \<open>\<^verbatim>\<open>u32::saturating_add\<close>.\<close>

definition u32_add :: "u32 \<Rightarrow> u32 \<Rightarrow> u32" where
  "u32_add a b = (if unat a + unat b < 2 ^ 32 then a + b else - 1)"

definition encoded_item_bytes :: "lease_list_item \<Rightarrow> nat" where
  "encoded_item_bytes item =
     4 + length (item_route item) + 4 + length (item_owner_id item) + 8 + 4 + length (item_acquired_at item) + 8 + 4"

definition items_bytes :: "lease_list_item list \<Rightarrow> nat" where
  "items_bytes items = sum_list (map encoded_item_bytes items)"

definition family_upper_bound :: "route_family \<Rightarrow> lease_key option" where
  "family_upper_bound fam = (if fam = - 1 then None else Some (LeaseKey (fam + 1) [] [] []))"

definition family_lower_bound :: "route_family \<Rightarrow> lease_key" where
  "family_lower_bound fam = LeaseKey fam [] [] []"

text \<open>\<^verbatim>\<open>BTreeMap::range\<close> on the entries in key order.\<close>

definition btree_range :: "'k::linorder \<Rightarrow> 'k option \<Rightarrow> ('k \<times> 'v) list \<Rightarrow> ('k \<times> 'v) list" where
  "btree_range lower upper m =
     filter (\<lambda>(key, _). lower \<le> key \<and> (case upper of None \<Rightarrow> True | Some u \<Rightarrow> key < u)) m"

definition to_list_item :: "lease_env \<Rightarrow> lease_key \<Rightarrow> sink_lease_state \<Rightarrow> instant \<Rightarrow> lease_list_item" where
  "to_list_item E key st now =
     \<lparr>item_route = to_route key, item_owner_id = logical_owner_id (owner_id st),
      item_holder_incarnation = hash_session E (owner_session_id st), item_acquired_at = acquired_at st,
      item_expires_in_secs = of_nat (secs_until (expiry st) now), item_renewals = usize_to_u32_saturating (renewals st)\<rparr>"

function page_end_loop :: "lease_list_item list \<Rightarrow> nat \<Rightarrow> nat \<Rightarrow> nat \<Rightarrow> nat" where
  "page_end_loop items capped end_index used =
     (if end_index < capped then
        let item_bytes = encoded_item_bytes (items ! end_index)
        in if end_index > 0 \<and> usize_add used item_bytes > LEASE_LIST_PAGE_BYTE_BUDGET then end_index
           else page_end_loop items capped (end_index + 1) (usize_add used item_bytes)
      else end_index)"
  by pat_completeness auto

termination
  by (relation "measure (\<lambda>(items, capped, end_index, used). capped - end_index)") auto

declare page_end_loop.simps [simp del]

definition budgeted_page_end :: "lease_list_item list \<Rightarrow> nat \<Rightarrow> nat" where
  "budgeted_page_end items page_size = page_end_loop items (min page_size (length items)) 0 0"

subsection \<open>Admission\<close>

text \<open>\<^verbatim>\<open>Iterator::min_by_key\<close>: the first of the least.\<close>

fun min_by_key :: "('a \<Rightarrow> 'b::linorder) \<Rightarrow> 'a list \<Rightarrow> 'a option" where
  "min_by_key f [] = None"
| "min_by_key f (x # xs) =
     (case min_by_key f xs of None \<Rightarrow> Some x | Some y \<Rightarrow> if f y < f x then Some y else Some x)"

type_synonym snapshots = "(u64 \<times> lease_list_snapshot) list"

definition total_items :: "snapshots \<Rightarrow> nat" where
  "total_items m = sum_list (map (\<lambda>(_, snapshot). length (snap_items snapshot)) m)"

definition total_bytes :: "snapshots \<Rightarrow> nat" where
  "total_bytes m = sum_list (map (\<lambda>(_, snapshot). retained_bytes snapshot) m)"

definition session_bytes :: "u64 \<Rightarrow> snapshots \<Rightarrow> nat" where
  "session_bytes sess m = total_bytes (filter (\<lambda>(_, snapshot). snap_session_id snapshot = sess) m)"

definition snapshot_fits :: "snapshots \<Rightarrow> u64 \<Rightarrow> nat \<Rightarrow> nat \<Rightarrow> bool" where
  "snapshot_fits m sess incoming_items incoming_bytes \<longleftrightarrow>
     length m < LEASE_LIST_MAX_SNAPSHOTS
     \<and> usize_add (total_items m) incoming_items \<le> LEASE_LIST_MAX_RETAINED_ITEMS_TOTAL
     \<and> usize_add (total_bytes m) incoming_bytes \<le> LEASE_LIST_MAX_RETAINED_BYTES_TOTAL
     \<and> usize_add (session_bytes sess m) incoming_bytes \<le> LEASE_LIST_MAX_RETAINED_BYTES_PER_SESSION"

lemma min_by_key_in: "min_by_key f xs = Some x \<Longrightarrow> x \<in> set xs"
  by (induction xs arbitrary: x) (auto split: option.splits if_splits)

lemma length_delete_less: "k \<in> fst ` set m \<Longrightarrow> length (AList.delete k m) < length m"
  by (induction m) (auto simp: AList.delete_eq intro: le_imp_less_Suc)

text \<open>The admission loop: whether the incoming snapshot is admitted, what is left, and how many
  snapshots were evicted.\<close>

function admit_loop :: "snapshots \<Rightarrow> u64 \<Rightarrow> nat \<Rightarrow> nat \<Rightarrow> bool \<times> snapshots \<times> nat" where
  "admit_loop m sess incoming_items incoming_bytes =
     (if snapshot_fits m sess incoming_items incoming_bytes then (True, m, 0)
      else case min_by_key (\<lambda>(_, snapshot). last_touched_at snapshot) m of
             None \<Rightarrow> (False, m, 0)
           | Some (oldest_id, _) \<Rightarrow>
               let (admitted, m, evicted) = admit_loop (AList.delete oldest_id m) sess incoming_items incoming_bytes
               in (admitted, m, evicted + 1))"
  by pat_completeness auto

termination
  by (relation "measure (\<lambda>(m, sess, incoming_items, incoming_bytes). length m)")
    (auto intro!: length_delete_less dest!: min_by_key_in intro: rev_image_eqI)

declare admit_loop.simps [simp del]

definition admit_snapshot :: "snapshots \<Rightarrow> u64 \<Rightarrow> nat \<Rightarrow> nat \<Rightarrow> bool \<times> snapshots \<times> nat" where
  "admit_snapshot m sess incoming_items incoming_bytes =
     (if incoming_bytes > LEASE_LIST_MAX_RETAINED_BYTES_PER_SESSION
         \<or> incoming_bytes > LEASE_LIST_MAX_RETAINED_BYTES_TOTAL
         \<or> incoming_items > LEASE_LIST_MAX_RETAINED_ITEMS_TOTAL
      then (False, m, 0)
      else admit_loop m sess incoming_items incoming_bytes)"

subsection \<open>Scans\<close>

definition store_and_serve :: "lease_env \<Rightarrow> route_family \<Rightarrow> string \<Rightarrow> lease_list_item list \<Rightarrow> nat \<Rightarrow> u64 \<Rightarrow> lease_state
    \<Rightarrow> lease_response \<times> lease_state" where
  "store_and_serve E fam pattern items page_size sess s =
     (let end_index = budgeted_page_end items page_size
      in if end_index \<ge> length items then (ListPage items None, s)
         else
           let remainder = drop end_index items;
               page = take end_index items;
               served = usize_to_u32_saturating (length page);
               bytes = items_bytes remainder
           in case next_id (next_list_snapshot_id s) of
                None \<Rightarrow> (ListPage page None, s)
              | Some (sid, succ) \<Rightarrow>
                  let s = s\<lparr>next_list_snapshot_id := succ\<rparr>;
                      (admitted, m, evicted) = admit_snapshot (list_snapshots s) sess (length remainder) bytes;
                      s = (counter_inc ''fitz_lease_list_snapshot_evictions_total'' ^^ evicted) (s\<lparr>list_snapshots := m\<rparr>)
                  in if \<not> admitted
                     then (LeaseError ''too many concurrent LIST scans in progress; retry later'', s)
                     else
                       let (now, s) = instant_now E s
                       in (ListPage page (Some \<lparr>snapshot_id = sid, cursor_offset = served\<rparr>),
                           s\<lparr>list_snapshots := AList.update sid
                               \<lparr>snap_session_id = sess, snap_family_id = fam, pattern_route = pattern, snap_items = remainder,
                                retained_bytes = bytes, served_count = served, last_touched_at = now\<rparr> (list_snapshots s)\<rparr>))"

fun scan_range :: "lease_env \<Rightarrow> pattern \<Rightarrow> instant \<Rightarrow> nat \<Rightarrow> nat \<Rightarrow> lease_list_item list
    \<Rightarrow> (lease_key \<times> sink_lease_state) list \<Rightarrow> lease_response + lease_list_item list" where
  "scan_range E p now examined captured items [] = Inr items"
| "scan_range E p now examined captured items ((key, st) # rest) =
     (if examined \<ge> LEASE_LIST_MAX_CANDIDATES_PER_SCAN
      then Inl (LeaseError (''selector matched too many candidates (over '' @ decimal LEASE_LIST_MAX_CANDIDATES_PER_SCAN @
             '') to scan in one pass; narrow the selector''))
      else if expiry st > now \<and> matches_str p (to_route key) then
        let item = to_list_item E key st now;
            captured = usize_add captured (encoded_item_bytes item)
        in if captured > usize_add LEASE_LIST_MAX_RETAINED_BYTES_PER_SESSION LEASE_LIST_PAGE_BYTE_BUDGET
           then Inl (LeaseError ''selector matched too much inventory to snapshot; narrow the selector'')
           else scan_range E p now (examined + 1) captured (items @ [item]) rest
      else scan_range E p now (examined + 1) captured items rest)"

definition start_list_scan :: "lease_env \<Rightarrow> route_family \<Rightarrow> route \<Rightarrow> nat \<Rightarrow> u64 \<Rightarrow> lease_state \<Rightarrow> lease_response \<times> lease_state" where
  "start_list_scan E fam pattern page_size sess s =
     (case from_route fam pattern of
        Some key \<Rightarrow>
          let (now, s) = instant_now E s
          in (ListPage (case map_of (leases s) key of
                          None \<Rightarrow> []
                        | Some st \<Rightarrow> if expiry st > now then [to_list_item E key st now] else []) None, s)
      | None \<Rightarrow>
          (case descriptor_compile_registration_pattern (descriptor Lease) pattern of
             Inl e \<Rightarrow> (InvalidListPattern e, s)
           | Inr p \<Rightarrow>
               let (now, s) = instant_now E s
               in case scan_range E p now 0 0 [] (btree_range (family_lower_bound fam) (family_upper_bound fam) (leases s)) of
                    Inl response \<Rightarrow> (response, s)
                  | Inr items \<Rightarrow> store_and_serve E fam pattern items page_size sess s))"

definition continue_list_scan :: "lease_env \<Rightarrow> route_family \<Rightarrow> route \<Rightarrow> lease_list_cursor \<Rightarrow> nat \<Rightarrow> u64 \<Rightarrow> lease_state
    \<Rightarrow> lease_response \<times> lease_state" where
  "continue_list_scan E fam pattern cursor page_size sess s =
     (case map_of (list_snapshots s) (snapshot_id cursor) of
        None \<Rightarrow> (InvalidListCursor, s)
      | Some snapshot \<Rightarrow>
          if \<not> (snap_session_id snapshot = sess \<and> snap_family_id snapshot = fam \<and> pattern_route snapshot = pattern
                 \<and> cursor_offset cursor = served_count snapshot)
          then (InvalidListCursor, s)
          else
            let (now, s) = instant_now E s;
                end_index = budgeted_page_end (snap_items snapshot) page_size;
                page = take end_index (snap_items snapshot);
                snapshot = snapshot\<lparr>last_touched_at := now, snap_items := drop end_index (snap_items snapshot),
                  retained_bytes := retained_bytes snapshot - items_bytes page,
                  served_count := u32_add (served_count snapshot) (usize_to_u32_saturating end_index)\<rparr>
            in (ListPage page (if snap_items snapshot = [] then None
                               else Some \<lparr>snapshot_id = snapshot_id cursor, cursor_offset = served_count snapshot\<rparr>),
                s\<lparr>list_snapshots := AList.update (snapshot_id cursor) snapshot (list_snapshots s)\<rparr>))"

text \<open>\<^verbatim>\<open>Ord::clamp\<close>.\<close>

definition clamp :: "u32 \<Rightarrow> u32 \<Rightarrow> u32 \<Rightarrow> u32" where
  "clamp lo hi x = (if x < lo then lo else if hi < x then hi else x)"

definition handle_list :: "lease_env \<Rightarrow> route_family \<Rightarrow> route \<Rightarrow> lease_list_cursor option \<Rightarrow> u32 option \<Rightarrow> u64
    \<Rightarrow> lease_state \<Rightarrow> lease_response \<times> lease_state" where
  "handle_list E fam pattern cursor limit sess s =
     (let page_size = unat (clamp 1 LEASE_LIST_MAX_PAGE_SIZE
            (case limit of None \<Rightarrow> LEASE_LIST_DEFAULT_PAGE_SIZE | Some n \<Rightarrow> n))
      in case cursor of
           Some c \<Rightarrow> continue_list_scan E fam pattern c page_size sess s
         | None \<Rightarrow> start_list_scan E fam pattern page_size sess s)"

definition snapshot_of :: "u64 \<Rightarrow> route_family \<Rightarrow> string \<Rightarrow> lease_list_snapshot \<Rightarrow> bool" where
  "snapshot_of sess fam pattern snapshot \<longleftrightarrow>
     snap_session_id snapshot = sess \<and> snap_family_id snapshot = fam \<and> pattern_route snapshot = pattern"

definition finish_list_response_delivery :: "lease_env \<Rightarrow> route_family \<Rightarrow> string \<Rightarrow> lease_list_cursor option \<Rightarrow> u64
    \<Rightarrow> lease_response \<Rightarrow> bool \<Rightarrow> lease_state \<Rightarrow> lease_state" where
  "finish_list_response_delivery E fam pattern cursor sess response delivered s =
     (case response of
        ListPage items next_cursor \<Rightarrow>
          (case cursor of
             Some c \<Rightarrow>
               (case map_of (list_snapshots s) (snapshot_id c) of
                  None \<Rightarrow> s
                | Some snapshot \<Rightarrow>
                    if \<not> delivered then
                      if snapshot_of sess fam pattern snapshot
                         \<and> served_count snapshot = u32_add (cursor_offset c) (usize_to_u32_saturating (length items))
                      then
                        let (now, s) = instant_now E s
                        in s\<lparr>list_snapshots := AList.update (snapshot_id c)
                             (snapshot\<lparr>snap_items := items @ snap_items snapshot,
                                retained_bytes := usize_add (retained_bytes snapshot) (items_bytes items),
                                served_count := cursor_offset c, last_touched_at := now\<rparr>) (list_snapshots s)\<rparr>
                      else s
                    else if next_cursor = None \<and> snapshot_of sess fam pattern snapshot
                         then s\<lparr>list_snapshots := AList.delete (snapshot_id c) (list_snapshots s)\<rparr>
                         else s)
           | None \<Rightarrow>
               if delivered then s
               else case next_cursor of
                      None \<Rightarrow> s
                    | Some c \<Rightarrow>
                        (case map_of (list_snapshots s) (snapshot_id c) of
                           None \<Rightarrow> s
                         | Some snapshot \<Rightarrow>
                             if snapshot_of sess fam pattern snapshot
                             then s\<lparr>list_snapshots := AList.delete (snapshot_id c) (list_snapshots s)\<rparr>
                             else s))
      | _ \<Rightarrow> s)"

end
