(* ===== verification/Lease_Ingress.thy ===== *)
theory Lease_Ingress
  imports Lease_List
begin

text \<open>
  The lease domain, part four: how an envelope reaches the operations
  (\<^verbatim>\<open>src/domains/lease/sink/ingress.rs\<close>, \<^verbatim>\<open>subscriptions.rs\<close>, \<^verbatim>\<open>responses.rs\<close>,
  \<^verbatim>\<open>mailbox.rs\<close>): validation of families, rejection of work from a session already cleaned up,
  dispatch, the reply, and the rollback of what the requester was never told. The payload of an envelope
  is the sum of the types the sink looks for; \<open>env_closed\<close> is the envelope's disconnect flag.
\<close>

section \<open>Envelopes\<close>

datatype lease_payload =
    SessionCleanup u64
  | DomainPublish domain_publish_event
  | PreparedRequest client_frame_meta "string + prepared_lease_operation"
  | ClientRequest client_frame_meta "string + lease_client_frame"
  | OtherPayload

record lease_envelope =
  env_source :: "route_address option"
  env_destination :: route_address
  env_closed :: "u64 \<Rightarrow> bool"
  env_payload :: lease_payload

section \<open>Responses\<close>

definition record_request_start :: "lease_env \<Rightarrow> lease_state \<Rightarrow> bool \<times> lease_state" where
  "record_request_start E s =
     (if with_metrics E then (True, counter_inc ''fitz_lease_requests_total'' s) else (False, s))"

definition send_reply :: "lease_env \<Rightarrow> lease_envelope \<Rightarrow> client_frame_meta \<Rightarrow> lease_response \<Rightarrow> lease_state \<Rightarrow> bool \<times> lease_state" where
  "send_reply E env meta response s =
     (case env_source env of
        None \<Rightarrow> (False, s)
      | Some src \<Rightarrow>
          let out = OutResponse (env_destination env) src meta response
          in if sink_resolved E (length (routed s)) src then
               let (r, s) = router_route E out s
               in case r of
                    Delivered \<Rightarrow> (True, s)
                  | ActorStopped \<Rightarrow>
                      let (r, s) = router_route E out s
                      in if r = Delivered then (True, s) else (False, record_dropped_delivery Response s)
                  | RouteFailed \<Rightarrow> (False, record_dropped_delivery Response s)
             else
               let (r, s) = router_route E out s
               in if r = Delivered then (True, s) else (False, record_dropped_delivery Response s))"

definition route_lease_response :: "lease_env \<Rightarrow> lease_envelope \<Rightarrow> client_frame_meta \<Rightarrow> lease_response \<Rightarrow> bool
    \<Rightarrow> lease_state \<Rightarrow> bool \<times> lease_state" where
  "route_lease_response E env meta response started s =
     (let (delivered, s) = send_reply E env (meta\<lparr>response_final := \<not> is_queued response\<rparr>) response s
      in (delivered,
          if with_metrics E \<and> started
          then counter_inc (if lease_response_is_failure response then ''fitz_lease_failure_total''
                            else ''fitz_lease_success_total'') s
          else s))"

section \<open>Watches\<close>

definition compile_lease_subscription_route :: "route \<Rightarrow> lease_response + pattern" where
  "compile_lease_subscription_route route =
     (case descriptor_compile_registration_pattern (descriptor Lease) route of
        Inl e \<Rightarrow> Inl (InvalidSubscriptionRoute e) | Inr p \<Rightarrow> Inr p)"

definition valid_subscription_request :: "lease_envelope \<Rightarrow> client_frame_meta \<Rightarrow> route_family \<Rightarrow> u64 \<Rightarrow> route_address \<Rightarrow> bool" where
  "valid_subscription_request env meta fam sess subscriber \<longleftrightarrow>
     fam = meta_route_family meta \<and> family subscriber = fam \<and> sess = meta_session_id meta
     \<and> (case env_source env of None \<Rightarrow> True | Some src \<Rightarrow> src = subscriber)"

definition handle_lease_subscribe :: "lease_envelope \<Rightarrow> client_frame_meta \<Rightarrow> route_family \<Rightarrow> route \<Rightarrow> u64 \<Rightarrow> route_address
    \<Rightarrow> lease_state \<Rightarrow> (lease_response \<times> lease_state) option" where
  "handle_lease_subscribe env meta fam route sess subscriber s =
     (if valid_subscription_request env meta fam sess subscriber then
        case compile_lease_subscription_route route of
          Inl response \<Rightarrow> Some (response, s)
        | Inr compiled \<Rightarrow>
            let state = entry_or subscription_set_new (families s) (ucast fam);
                s = s\<lparr>families := AList.update (ucast fam) state (families s)\<rparr>
            in case find_existing_id state sess route of
                 Some sid \<Rightarrow> Some (SubscribeOk sid, s)
               | None \<Rightarrow>
                   (case registration_limit_for_session state sess compiled of
                      Some limit \<Rightarrow>
                        Some (LeaseError ''subscription registration limit exceeded'',
                          counter_inc (case limit of
                              Total \<Rightarrow> ''fitz_lease_registration_limit_rejects_total''
                            | Wildcard \<Rightarrow> ''fitz_lease_wildcard_limit_rejects_total'') s)
                    | None \<Rightarrow>
                        (case next_id (next_sub_id s) of
                           Some (sid, succ) \<Rightarrow> do {
                             (state, w) \<leftarrow> set_insert ''lease'' state (registrations s) fam
                               \<lparr>sub_pattern = compiled, session_id = sess, subscription_id_of = sid, sub_address = subscriber\<rparr>;
                             Some (SubscribeOk sid, s\<lparr>next_sub_id := succ, registrations := w,
                               families := AList.update (ucast fam) state (families s)\<rparr>)
                           }
                         | None \<Rightarrow>
                             Some (LeaseError ''subscription ID space exhausted'',
                               if set_is_empty state
                               then s\<lparr>families := AList.delete (ucast fam) (families s)\<rparr> else s)))
      else Some (LeaseError ''route family mismatch'', s))"

text \<open>A family whose last watch is gone is removed.\<close>

definition put_family :: "u64 \<Rightarrow> lease_subscriptions \<Rightarrow> lease_state \<Rightarrow> lease_state" where
  "put_family fid state s =
     s\<lparr>families := if set_is_empty state then AList.delete fid (families s) else AList.update fid state (families s)\<rparr>"

definition handle_lease_unsubscribe :: "lease_envelope \<Rightarrow> client_frame_meta \<Rightarrow> route_family \<Rightarrow> route \<Rightarrow> u64 \<Rightarrow> route_address
    \<Rightarrow> lease_state \<Rightarrow> (lease_response \<times> lease_state) option" where
  "handle_lease_unsubscribe env meta fam route sess subscriber s =
     (if valid_subscription_request env meta fam sess subscriber then
        case compile_lease_subscription_route route of
          Inl response \<Rightarrow> Some (response, s)
        | Inr _ \<Rightarrow>
            (case map_of (families s) (ucast fam) of
               None \<Rightarrow> Some (UnsubscribeOk, s)
             | Some state \<Rightarrow> do {
                 (_, state, w) \<leftarrow> remove_session_pattern ''lease'' state (registrations s) fam sess route;
                 Some (UnsubscribeOk, put_family (ucast fam) state (s\<lparr>registrations := w\<rparr>))
               })
      else Some (LeaseError ''route family mismatch'', s))"

definition rollback_undeliverable_subscription :: "route_family \<Rightarrow> u64 \<Rightarrow> u64 \<Rightarrow> lease_state \<Rightarrow> lease_state option" where
  "rollback_undeliverable_subscription fam sess sid s =
     (case map_of (families s) (ucast fam) of
        None \<Rightarrow> Some (refresh_metrics_gauges s)
      | Some state \<Rightarrow> do {
          (_, state, w) \<leftarrow> remove_subscription_for_session ''lease'' state (registrations s) fam sess sid;
          Some (refresh_metrics_gauges (put_family (ucast fam) state (s\<lparr>registrations := w\<rparr>)))
        })"

definition new_subscription :: "lease_subscription_message \<Rightarrow> lease_state \<Rightarrow> (route_family \<times> u64) option" where
  "new_subscription msg s =
     (case msg of
        Subscribe fam route sess _ \<Rightarrow>
          if map_of (families s) (ucast fam) \<bind> (\<lambda>state. find_existing_id state sess route) \<noteq> None
          then None else Some (fam, sess)
      | Unsubscribe _ _ _ _ \<Rightarrow> None)"

definition handle_subscription_frame :: "lease_env \<Rightarrow> lease_envelope \<Rightarrow> client_frame_meta \<Rightarrow> bool \<Rightarrow> lease_subscription_message
    \<Rightarrow> lease_state \<Rightarrow> lease_state option" where
  "handle_subscription_frame E env meta started msg s = do {
     let fresh = new_subscription msg s;
     (response, s) \<leftarrow> (case msg of
         Subscribe fam route sess subscriber \<Rightarrow> handle_lease_subscribe env meta fam route sess subscriber s
       | Unsubscribe fam route sess subscriber \<Rightarrow> handle_lease_unsubscribe env meta fam route sess subscriber s);
     let (delivered, s) = route_lease_response E env meta response started (refresh_metrics_gauges s);
     if delivered then Some s
     else case (response, fresh) of
            (SubscribeOk sid, Some (fam, sess)) \<Rightarrow> rollback_undeliverable_subscription fam sess sid s
          | _ \<Rightarrow> Some s
   }"

section \<open>Operations\<close>

definition valid_request_envelope :: "lease_envelope \<Rightarrow> client_frame_meta \<Rightarrow> bool" where
  "valid_request_envelope env meta \<longleftrightarrow>
     meta_route_family meta = family (env_destination env)
     \<and> (case env_source env of None \<Rightarrow> True | Some src \<Rightarrow> family src = meta_route_family meta)"

definition response_meta_for_source :: "lease_envelope \<Rightarrow> client_frame_meta \<Rightarrow> client_frame_meta" where
  "response_meta_for_source env meta =
     (case env_source env of None \<Rightarrow> meta | Some src \<Rightarrow> meta\<lparr>meta_route_family := family src\<rparr>)"

fun valid_lease_message :: "lease_envelope \<Rightarrow> client_frame_meta \<Rightarrow> lease_message \<Rightarrow> bool" where
  "valid_lease_message env meta (MsgAcquire fam _ _ _ _) = (fam = meta_route_family meta)"
| "valid_lease_message env meta (MsgExtend fam _ _ _ _) = (fam = meta_route_family meta)"
| "valid_lease_message env meta (MsgRelease fam _ _ _) = (fam = meta_route_family meta)"
| "valid_lease_message env meta (MsgQuery fam _) = (fam = meta_route_family meta)"
| "valid_lease_message env meta (MsgList fam _ _ _) = (fam = meta_route_family meta)"
| "valid_lease_message env meta Tick = (meta_channel meta = ChInternal \<and> env_source env = None)"

fun prepared_operation_family :: "prepared_lease_operation \<Rightarrow> route_family" where
  "prepared_operation_family (PrepAcquire key _ _ _) = key_family key"
| "prepared_operation_family (PrepExtend key _ _ _) = key_family key"
| "prepared_operation_family (PrepRelease key _ _) = key_family key"
| "prepared_operation_family (PrepQuery key) = key_family key"

definition acquire_request :: "lease_envelope \<Rightarrow> client_frame_meta \<Rightarrow> lease_key \<Rightarrow> string \<Rightarrow> u64 \<Rightarrow> u32 \<Rightarrow> lease_acquire_request" where
  "acquire_request env meta key owner ttl_secs wait_seconds =
     \<lparr>req_key = key, req_session_id = meta_session_id meta, req_owner_id = owner, req_ttl_secs = ttl_secs,
      req_wait_seconds = wait_seconds, req_reply_source = env_destination env, req_reply_destination = env_source env,
      req_channel = meta_channel meta, req_route_family = meta_route_family meta, req_correlation = meta_correlation meta\<rparr>"

definition owner_id_too_long :: lease_response where
  "owner_id_too_long = LeaseError (''owner_id exceeds maximum length of '' @ decimal LEASE_MAX_OWNER_ID_BYTES @ '' bytes'')"

definition invalid_lease_route :: lease_response where
  "invalid_lease_route = LeaseError ''invalid lease route''"

text \<open>\<^verbatim>\<open>dispatch_actor_operation\<close> with the owner scoped as \<^verbatim>\<open>scope_operation_owner\<close> does. \<open>Tick\<close>
  is handled before, so dispatching it panics.\<close>

definition dispatch_actor_operation :: "lease_env \<Rightarrow> lease_envelope \<Rightarrow> client_frame_meta \<Rightarrow> lease_message \<Rightarrow> lease_state
    \<Rightarrow> (lease_response \<times> lease_state) option" where
  "dispatch_actor_operation E env meta msg s =
     (case msg of
        MsgAcquire fam route owner ttl_secs wait_seconds \<Rightarrow>
          if length owner > LEASE_MAX_OWNER_ID_BYTES then Some (owner_id_too_long, s)
          else (case from_route fam route of
                  Some key \<Rightarrow> handle_acquire E (acquire_request env meta key
                    (session_scoped_owner_id (meta_session_id meta) owner) ttl_secs wait_seconds) s
                | None \<Rightarrow> Some (invalid_lease_route, s))
      | MsgExtend fam route owner token ttl_secs \<Rightarrow>
          (case from_route fam route of
             Some key \<Rightarrow> handle_extend E key (session_scoped_owner_id (meta_session_id meta) owner) token ttl_secs s
           | None \<Rightarrow> Some (invalid_lease_route, s))
      | MsgRelease fam route owner token \<Rightarrow>
          (case from_route fam route of
             Some key \<Rightarrow> handle_release E key (session_scoped_owner_id (meta_session_id meta) owner) token s
           | None \<Rightarrow> Some (invalid_lease_route, s))
      | MsgQuery fam route \<Rightarrow>
          (case from_route fam route of
             Some key \<Rightarrow> Some (handle_query E key s)
           | None \<Rightarrow> Some (invalid_lease_route, s))
      | MsgList fam pattern cursor limit \<Rightarrow> Some (handle_list E fam pattern cursor limit (meta_session_id meta) s)
      | Tick \<Rightarrow> None)"

definition acquire_key :: "lease_message \<Rightarrow> lease_key option" where
  "acquire_key msg = (case msg of MsgAcquire fam route _ _ _ \<Rightarrow> from_route fam route | _ \<Rightarrow> None)"

definition handle_actor_operation_frame :: "lease_env \<Rightarrow> lease_envelope \<Rightarrow> client_frame_meta \<Rightarrow> bool \<Rightarrow> lease_message
    \<Rightarrow> lease_state \<Rightarrow> lease_state option" where
  "handle_actor_operation_frame E env meta started msg s =
     (if \<not> valid_lease_message env meta msg
      then Some (snd (route_lease_response E env meta (LeaseError ''route family mismatch'') started s))
      else if msg = Tick then
        map_option (\<lambda>s. if with_metrics E \<and> started then counter_inc ''fitz_lease_success_total'' s else s)
          (sweep_expired_state E s)
      else do {
        (response, s) \<leftarrow> dispatch_actor_operation E env meta msg s;
        let (delivered, s) = route_lease_response E env meta response started s;
        let s = (case msg of
            MsgList fam pattern cursor _ \<Rightarrow>
              finish_list_response_delivery E fam pattern cursor (meta_session_id meta) response delivered s
          | _ \<Rightarrow> s);
        if delivered then Some s
        else case acquire_key msg of
               Some key \<Rightarrow> rollback_undeliverable_acquire E key (meta_session_id meta) response s
             | None \<Rightarrow> Some s
      })"

definition dispatch_prepared_operation :: "lease_env \<Rightarrow> lease_envelope \<Rightarrow> client_frame_meta \<Rightarrow> prepared_lease_operation
    \<Rightarrow> lease_state \<Rightarrow> (lease_response \<times> lease_state) option" where
  "dispatch_prepared_operation E env meta oper s =
     (case oper of
        PrepAcquire key owner ttl_secs wait_seconds \<Rightarrow>
          if length owner > LEASE_MAX_OWNER_ID_BYTES + 32 then Some (owner_id_too_long, s)
          else handle_acquire E (acquire_request env meta key owner ttl_secs wait_seconds) s
      | PrepExtend key owner token ttl_secs \<Rightarrow> handle_extend E key owner token ttl_secs s
      | PrepRelease key owner token \<Rightarrow> handle_release E key owner token s
      | PrepQuery key \<Rightarrow> Some (handle_query E key s))"

definition handle_prepared_operation_frame :: "lease_env \<Rightarrow> lease_envelope \<Rightarrow> client_frame_meta \<Rightarrow> bool
    \<Rightarrow> prepared_lease_operation \<Rightarrow> lease_state \<Rightarrow> lease_state option" where
  "handle_prepared_operation_frame E env meta started oper s =
     (if prepared_operation_family oper \<noteq> meta_route_family meta
      then Some (snd (route_lease_response E env meta (LeaseError ''route family mismatch'') started s))
      else do {
        (response, s) \<leftarrow> dispatch_prepared_operation E env meta oper s;
        let (delivered, s) = route_lease_response E env meta response started s;
        if delivered then Some s
        else case oper of
               PrepAcquire key _ _ _ \<Rightarrow> rollback_undeliverable_acquire E key (meta_session_id meta) response s
             | _ \<Rightarrow> Some s
      })"

section \<open>Delivery\<close>

definition is_cleaned_up_request :: "u64 \<Rightarrow> lease_envelope \<Rightarrow> lease_state \<Rightarrow> bool" where
  "is_cleaned_up_request sess env s \<longleftrightarrow> env_closed env sess \<or> contains (cleaned_up s) sess"

definition handle_prepared_request :: "lease_env \<Rightarrow> lease_envelope \<Rightarrow> client_frame_meta \<Rightarrow> string + prepared_lease_operation
    \<Rightarrow> lease_state \<Rightarrow> lease_state option" where
  "handle_prepared_request E env meta frame s =
     (let (started, s) = record_request_start E s
      in if is_cleaned_up_request (meta_session_id meta) env s
         then Some (snd (route_lease_response E env meta (LeaseError ''session already closed'') started s))
         else case frame of
                Inl e \<Rightarrow> Some (snd (route_lease_response E env (response_meta_for_source env meta) (LeaseError e) started s))
              | Inr oper \<Rightarrow>
                  if prepared_operation_family oper \<noteq> meta_route_family meta
                  then Some (snd (route_lease_response E env meta (LeaseError ''route family mismatch'') started s))
                  else handle_prepared_operation_frame E env meta started oper s)"

definition handle_client_request :: "lease_env \<Rightarrow> lease_envelope \<Rightarrow> client_frame_meta \<Rightarrow> string + lease_client_frame
    \<Rightarrow> lease_state \<Rightarrow> lease_state option" where
  "handle_client_request E env meta frame s =
     (let (started, s) = record_request_start E s;
          reject = (\<lambda>reason. Some (snd (route_lease_response E env (response_meta_for_source env meta) (LeaseError reason) started s)))
      in if \<not> valid_request_envelope env meta then reject ''route family mismatch''
         else if is_cleaned_up_request (meta_session_id meta) env s then reject ''session already closed''
         else case frame of
                Inl e \<Rightarrow> reject e
              | Inr (Sub msg) \<Rightarrow> handle_subscription_frame E env meta started msg s
              | Inr (Op msg) \<Rightarrow> handle_actor_operation_frame E env meta started msg s)"

datatype delivery_error = DeliveryActorStopped

text \<open>\<^verbatim>\<open>deliver_envelope\<close> after the cleanup and activity checks; \<open>active\<close> is the actor's flag.\<close>

definition deliver_active :: "lease_env \<Rightarrow> lease_envelope \<Rightarrow> lease_state \<Rightarrow> ((delivery_error + unit) \<times> lease_state) option" where
  "deliver_active E env s =
     (case env_payload env of
        DomainPublish event \<Rightarrow>
          if family (env_destination env) \<noteq> event_family event
          then Some (Inr (), counter_inc ''fitz_lease_publish_family_mismatch_total'' s)
          else map_option (Pair (Inr ())) (handle_domain_publish E event s)
      | PreparedRequest meta frame \<Rightarrow>
          if \<not> valid_request_envelope env meta
          then Some (Inr (), snd (route_lease_response E env (response_meta_for_source env meta)
                 (LeaseError ''route family mismatch'') False s))
          else map_option (Pair (Inr ())) (handle_prepared_request E env meta frame s)
      | ClientRequest meta frame \<Rightarrow> map_option (Pair (Inr ())) (handle_client_request E env meta frame s)
      | _ \<Rightarrow> Some (Inl DeliveryActorStopped, s))"

definition deliver_envelope :: "lease_env \<Rightarrow> bool \<Rightarrow> lease_envelope \<Rightarrow> lease_state \<Rightarrow> ((delivery_error + unit) \<times> lease_state) option" where
  "deliver_envelope E active env s =
     (case env_payload env of
        SessionCleanup sess \<Rightarrow> map_option (Pair (Inr ())) (cleanup_session E sess s)
      | _ \<Rightarrow> if active then deliver_active E env s else Some (Inl DeliveryActorStopped, s))"

datatype lease_domain_command = Deliver lease_envelope | CleanupSession u64 | ReadLiveCounts | SweepExpiredState

text \<open>\<^verbatim>\<open>receive\<close>: the state after one command of the mailbox; a failed delivery is only logged.\<close>

definition receive :: "lease_env \<Rightarrow> bool \<Rightarrow> lease_domain_command \<Rightarrow> lease_state \<Rightarrow> lease_state option" where
  "receive E active msg s =
     (case msg of
        Deliver env \<Rightarrow> map_option snd (deliver_envelope E active env s)
      | CleanupSession sess \<Rightarrow> cleanup_session E sess s
      | ReadLiveCounts \<Rightarrow> Some s
      | SweepExpiredState \<Rightarrow> sweep_expired_state E s)"

end
