(* ===== verification/Lease_Book.thy ===== *)
theory Lease_Book
  imports Lease_Ingress
begin

text \<open>
  The invariant of the lease book: who holds what, who waits for what, and the per-session indexes,
  tokens and admin projection derived from it. The first part is about the parts of the state alone, one
  lemma per way an operation changes them.
\<close>

section \<open>Ordered maps and indexes\<close>

lemma map_of_btree_insert [simp]: "map_of (btree_insert k v m) = (map_of m)(k \<mapsto> v)"
  by (induction k v m rule: btree_insert.induct) auto

lemma fst_set_btree_insert: "fst ` set (btree_insert k v m) = insert k (fst ` set m)"
  by (induction k v m rule: btree_insert.induct) auto

lemma sorted_btree_insert: "sorted_wrt (<) (map fst m) \<Longrightarrow> sorted_wrt (<) (map fst (btree_insert k v m))"
proof (induction k v m rule: btree_insert.induct)
  case (2 k v k' v' m)
  have "k' < x" if "\<not> k < k'" "k \<noteq> k'" "x \<in> fst ` set (btree_insert k v m)" for x
    using that 2(2) by (auto simp: fst_set_btree_insert)
  with 2 show ?case by (auto intro: less_trans)
qed simp

lemma sorted_delete: "sorted_wrt (<) (map fst m) \<Longrightarrow> sorted_wrt (<) (map fst (AList.delete k m))"
  unfolding AList.delete_eq by (induction m) auto

lemma sorted_update: "sorted_wrt (<) (map fst m) \<Longrightarrow> map_of m k \<noteq> None \<Longrightarrow> sorted_wrt (<) (map fst (AList.update k v m))"
  by (auto simp: update_keys map_of_eq_None_iff)

lemma sorted_distinct: "sorted_wrt (<) xs \<Longrightarrow> distinct (xs :: 'a::linorder list)"
  by (induction xs) auto

text \<open>Tracking keeps an index grouped by session.\<close>

lemma grouped_track:
  assumes "\<forall>j. grouped (map_of m) D key j" "D i = None" "key s = Some k"
  shows "\<forall>j. grouped (map_of (track k i m)) (D(i \<mapsto> s)) key j"
proof
  fix j
  have "i \<notin> set (entry_or [] m k)" using assms(1,2) not_owned [of D i key k]
    by (auto simp: entry_or_def grouped_def split: option.splits dest: spec [of _ k])
  then have "map_of (track k i m) = (map_of m)(k \<mapsto> (case map_of m k of Some is \<Rightarrow> is | None \<Rightarrow> []) @ [i])"
    by (cases "map_of m k") (simp_all add: track_def set_insert_key_def update_conv' entry_or_def)
  with grouped_push [of D i "map_of m" key j s k] assms show "grouped (map_of (track k i m)) (D(i \<mapsto> s)) key j" by simp
qed

lemma grouped_untrack:
  assumes "\<forall>j. grouped (map_of m) D key j" "D i = Some s" "key s = Some k"
  shows "\<forall>j. grouped (map_of (untrack k i m)) (D(i := None)) key j"
proof
  fix j
  obtain xs where m: "map_of m k = Some xs" using grouped_Some [of "map_of m" D key k i s] assms by auto
  then have "map_of (untrack k i m) = (map_of m)(k := if filter (\<lambda>x. x \<noteq> i) xs = [] then None else Some (filter (\<lambda>x. x \<noteq> i) xs))"
    by (simp add: untrack_def Let_def update_conv' delete_conv')
  with grouped_drop [of D i s "map_of m" key j k xs] assms m
  show "grouped (map_of (untrack k i m)) (D(i := None)) key j" by simp
qed

lemma grouped_cong: "owned D' key j = owned D key j \<Longrightarrow> m' j = m j \<Longrightarrow> grouped m' D' key j = grouped m D key j"
  by (cases "m j") (simp_all add: grouped_def)

lemma grouped_delete:
  assumes "\<forall>j. grouped (map_of m) D key j"
  shows "\<forall>j. grouped (map_of (AList.delete k m)) (\<lambda>i. if i \<in> owned D key k then None else D i) key j"
proof
  fix j
  let ?D = "\<lambda>i. if i \<in> owned D key k then None else D i"
  have o: "owned ?D key j = (if j = k then {} else owned D key j)"
    by (auto simp: owned_def split: if_splits)
  show "grouped (map_of (AList.delete k m)) ?D key j"
  proof (cases "j = k")
    case True
    with o show ?thesis by (simp add: grouped_def delete_conv')
  next
    case False
    with o grouped_cong [of ?D key j D "map_of (AList.delete k m)" "map_of m"] assms show ?thesis
      by (simp add: delete_conv')
  qed
qed

lemma grouped_entry:
  "grouped (map_of m) D key k \<Longrightarrow> distinct (entry_or [] m k) \<and> set (entry_or [] m k) = owned D key k"
  by (auto simp: grouped_def entry_or_def split: option.splits)

section \<open>The invariant\<close>

definition by_holder :: "sink_lease_state \<Rightarrow> u64 option" where "by_holder st = Some (owner_session_id st)"
definition by_waiter :: "pending_acquire \<Rightarrow> u64 option" where "by_waiter w = Some (w_session_id w)"

type_synonym holders = "lease_key \<rightharpoonup> sink_lease_state"

definition holders_ok :: "holders \<Rightarrow> (u64 \<times> lease_key list) list \<Rightarrow> bool" where
  "holders_ok M SL \<longleftrightarrow> (\<forall>sess. grouped (map_of SL) M by_holder sess)"

text \<open>The waiter a reference denotes.\<close>

definition queue_in :: "(lease_key \<times> pending_acquire list) list \<Rightarrow> lease_key \<Rightarrow> pending_acquire list" where
  "queue_in P k = entry_or [] P k"

definition waiting :: "(lease_key \<times> pending_acquire list) list \<Rightarrow> pending_acquire_ref \<rightharpoonup> pending_acquire" where
  "waiting P = (\<lambda>(k, t). find (\<lambda>w. queued_token w = t) (queue_in P k))"

definition queue_ok :: "pending_acquire list \<Rightarrow> bool" where
  "queue_ok q \<longleftrightarrow> length q \<le> LEASE_MAX_QUEUE_DEPTH \<and> sorted_wrt (<) (map queued_token q) \<and> distinct (map w_owner_id q)"

definition waiters_ok :: "(lease_key \<times> pending_acquire list) list \<Rightarrow> (u64 \<times> pending_acquire_ref list) list \<Rightarrow> bool" where
  "waiters_ok P SW \<longleftrightarrow> distinct (map fst P) \<and> [] \<notin> snd ` set P \<and> (\<forall>k. queue_ok (queue_in P k))
     \<and> (\<forall>sess. grouped (map_of SW) (waiting P) by_waiter sess)"

text \<open>A token belongs to one lease or one waiter of one key, and was issued.\<close>

definition has_token :: "holders \<Rightarrow> (lease_key \<times> pending_acquire list) list \<Rightarrow> lease_key \<Rightarrow> u64 \<Rightarrow> bool" where
  "has_token M P k t \<longleftrightarrow>
     (\<exists>st. M k = Some st \<and> fencing_token st = t) \<or> (\<exists>w \<in> set (queue_in P k). queued_token w = t)"

definition tokens_ok :: "u64 \<Rightarrow> holders \<Rightarrow> (lease_key \<times> pending_acquire list) list \<Rightarrow> bool" where
  "tokens_ok n M P \<longleftrightarrow>
     (\<forall>k t. has_token M P k t \<longrightarrow> t < n) \<and> (\<forall>k k' t. has_token M P k t \<longrightarrow> has_token M P k' t \<longrightarrow> k = k')
     \<and> (\<forall>k st. \<forall>w \<in> set (queue_in P k). M k = Some st \<longrightarrow> fencing_token st \<noteq> queued_token w)"

definition key_identity :: "lease_key \<Rightarrow> lease_identity" where
  "key_identity k = lease_identity_key (ucast (key_family k)) (key_realm k) (key_area k) (key_resource k)"

definition shows_lease :: "lease_info \<Rightarrow> lease_key \<Rightarrow> sink_lease_state \<Rightarrow> bool" where
  "shows_lease info k st \<longleftrightarrow> lease_identity_for info = key_identity k \<and> info_owner info = owner_id st
     \<and> info_acquired_at info = acquired_at st \<and> info_renewals info = renewals st \<and> info_fencing_token info = fencing_token st"

definition mirrored :: "holders \<Rightarrow> (lease_identity \<times> lease_info) list \<Rightarrow> lease_key \<Rightarrow> bool" where
  "mirrored M A k \<longleftrightarrow>
     (case M k of
        None \<Rightarrow> map_of A (key_identity k) = None
      | Some st \<Rightarrow> (\<exists>info. map_of A (key_identity k) = Some info \<and> shows_lease info k st))"

definition mirror_ok :: "route_family \<Rightarrow> holders \<Rightarrow> (lease_identity \<times> lease_info) list \<Rightarrow> bool" where
  "mirror_ok fam M A \<longleftrightarrow> (\<forall>k. key_family k = fam \<longrightarrow> mirrored M A k)"

definition keys_ok :: "route_family \<Rightarrow> holders \<Rightarrow> (lease_key \<times> pending_acquire list) list \<Rightarrow> bool" where
  "keys_ok fam M P \<longleftrightarrow> (\<forall>k. M k \<noteq> None \<or> queue_in P k \<noteq> [] \<longrightarrow> key_family k = fam)"

definition watch_ok :: "route_family \<Rightarrow> lease_subscriptions \<Rightarrow> bool" where
  "watch_ok fam S \<longleftrightarrow> (\<exists>k. set_ok k fam S) \<and> (\<forall>i s. map_of (subscriptions S) i = Some s \<longrightarrow> wild s \<longrightarrow>
     double_star_free (parse_pattern_segments (sub_route s)))"

definition families_ok :: "(u64 \<times> lease_subscriptions) list \<Rightarrow> bool" where
  "families_ok F \<longleftrightarrow> distinct (map fst F) \<and> (\<forall>(fid, S) \<in> set F. \<exists>fam. fid = ucast fam \<and> watch_ok fam S)"

text \<open>The book with the given holders; between two steps the holders are the leases. A sweep removes all
  expired leases first and forgets them one by one, so there the holders are the leases and those still
  to be forgotten.\<close>

definition book_on :: "holders \<Rightarrow> lease_state \<Rightarrow> bool" where
  "book_on M s \<longleftrightarrow> sorted_wrt (<) (map fst (leases s)) \<and> holders_ok M (session_leases s)
     \<and> waiters_ok (pending_acquires s) (session_waiters s) \<and> tokens_ok (next_token s) M (pending_acquires s)
     \<and> mirror_ok (own_family s) M (admin_leases (admin s)) \<and> keys_ok (own_family s) M (pending_acquires s)
     \<and> families_ok (families s)"

abbreviation book_ok :: "lease_state \<Rightarrow> bool" where
  "book_ok s \<equiv> book_on (map_of (leases s)) s"

lemma book_onD:
  assumes "book_on M s"
  shows "sorted_wrt (<) (map fst (leases s))" "holders_ok M (session_leases s)"
    "waiters_ok (pending_acquires s) (session_waiters s)" "tokens_ok (next_token s) M (pending_acquires s)"
    "mirror_ok (own_family s) M (admin_leases (admin s))" "keys_ok (own_family s) M (pending_acquires s)"
    "families_ok (families s)"
  using assms by (simp_all add: book_on_def)

lemma keys_ok_queue:
  "keys_ok fam M P \<Longrightarrow> (\<And>k. set (queue_in P' k) \<subseteq> set (queue_in P k)) \<Longrightarrow> keys_ok fam M P'"
  unfolding keys_ok_def by (metis set_empty subset_empty)

section \<open>Holders\<close>

lemma holders_ok_insert:
  assumes "holders_ok M SL" "M k = None"
  shows "holders_ok (M(k \<mapsto> st)) (track (owner_session_id st) k SL)"
  using assms grouped_track [of SL M by_holder k st "owner_session_id st"] by (simp add: holders_ok_def by_holder_def)

lemma holders_ok_remove:
  assumes "holders_ok M SL" "M k = Some st"
  shows "holders_ok (M(k := None)) (untrack (owner_session_id st) k SL)"
  using assms grouped_untrack [of SL M by_holder k st "owner_session_id st"] by (simp add: holders_ok_def by_holder_def)

lemma holders_ok_update:
  assumes "holders_ok M SL" "M k = Some st" "owner_session_id st' = owner_session_id st"
  shows "holders_ok (M(k \<mapsto> st')) SL"
proof -
  have "owned (M(k \<mapsto> st')) by_holder sess = owned M by_holder sess" for sess
    using assms(2,3) by (auto simp: owned_def by_holder_def)
  with assms grouped_cong [of "M(k \<mapsto> st')" by_holder _ M "map_of SL" "map_of SL"] show ?thesis by (simp add: holders_ok_def)
qed

section \<open>Queues\<close>

text \<open>\<open>set_queue\<close> on the map alone.\<close>

definition put_queue :: "lease_key \<Rightarrow> pending_acquire list \<Rightarrow> (lease_key \<times> pending_acquire list) list \<Rightarrow> (lease_key \<times> pending_acquire list) list" where
  "put_queue k q P = (if q = [] then AList.delete k P else AList.update k q P)"

lemma set_queue_put: "set_queue k q s = s\<lparr>pending_acquires := put_queue k q (pending_acquires s)\<rparr>"
  by (simp add: set_queue_def put_queue_def)

lemma queue_in_put [simp]: "queue_in (put_queue k q P) j = (if j = k then q else queue_in P j)"
  by (simp add: queue_in_def put_queue_def entry_or_def delete_conv' update_conv')

lemma put_queue_shape:
  "distinct (map fst P) \<Longrightarrow> [] \<notin> snd ` set P \<Longrightarrow> distinct (map fst (put_queue k q P)) \<and> [] \<notin> snd ` set (put_queue k q P)"
proof -
  assume d: "distinct (map fst P)" and n: "[] \<notin> snd ` set P"
  have "[] \<notin> snd ` set (AList.update k q P)" if "q \<noteq> []"
    using n that by (induction P) auto
  moreover have "distinct (map fst (AList.delete k P))" "[] \<notin> snd ` set (AList.delete k P)"
    using d n by (auto simp: AList.delete_eq distinct_map_filter)
  ultimately show ?thesis using d by (auto simp: put_queue_def distinct_update)
qed

lemma find_token_iff:
  "sorted_wrt (<) (map queued_token q) \<Longrightarrow> find (\<lambda>w. queued_token w = t) q = Some w \<longleftrightarrow> w \<in> set q \<and> queued_token w = t"
proof (induction q)
  case (Cons v q)
  then show ?case by (auto dest: less_imp_neq)
qed simp

lemma waiting_iff:
  "queue_ok (queue_in P k) \<Longrightarrow> waiting P (k, t) = Some w \<longleftrightarrow> w \<in> set (queue_in P k) \<and> queued_token w = t"
  by (simp add: waiting_def queue_ok_def find_token_iff)

lemma queue_ok_filter: "queue_ok q \<Longrightarrow> queue_ok (filter P q)"
proof -
  assume q: "queue_ok q"
  have "sorted_wrt (<) (map queued_token (filter P q))"
    using q by (auto simp: queue_ok_def sorted_wrt_map intro: sorted_wrt_filter)
  with q show ?thesis by (auto simp: queue_ok_def distinct_map_filter intro: le_trans [OF length_filter_le])
qed

lemma option_eqI: "(\<And>w. x = Some w \<longleftrightarrow> y = Some w) \<Longrightarrow> x = y"
  by (cases x; cases y) auto

lemma waiting_filter:
  assumes "queue_ok (queue_in P k)"
  shows "waiting (put_queue k (filter K (queue_in P k)) P) =
    (\<lambda>r. if r \<in> (\<lambda>w. (k, queued_token w)) ` {w \<in> set (queue_in P k). \<not> K w} then None else waiting P r)"
proof
  fix r :: pending_acquire_ref
  obtain j t where r: "r = (j, t)" by (cases r)
  let ?P = "put_queue k (filter K (queue_in P k)) P"
  let ?gone = "(\<lambda>w. (k, queued_token w)) ` {w \<in> set (queue_in P k). \<not> K w}"
  show "waiting ?P r = (if r \<in> ?gone then None else waiting P r)"
  proof (cases "j = k")
    case True
    have s: "sorted_wrt (<) (map queued_token (queue_in P k))" using assms by (simp add: queue_ok_def)
    have u: "w = w'" if "w \<in> set (queue_in P k)" "w' \<in> set (queue_in P k)" "queued_token w = queued_token w'" for w w'
      using that find_token_iff [OF s, of "queued_token w"] by (metis option.inject)
    have f: "find (\<lambda>w. queued_token w = t) (filter K (queue_in P k)) = Some w \<longleftrightarrow>
        w \<in> set (queue_in P k) \<and> K w \<and> queued_token w = t" for w
      using find_token_iff [of "filter K (queue_in P k)" t w] queue_ok_filter [OF assms, of K] by (auto simp: queue_ok_def)
    have "find (\<lambda>w. queued_token w = t) (filter K (queue_in P k)) =
        (if r \<in> ?gone then None else find (\<lambda>w. queued_token w = t) (queue_in P k))"
      using True r u by (intro option_eqI) (auto simp: f find_token_iff [OF s])
    with True r show ?thesis by (simp add: waiting_def)
  next
    case False
    with r show ?thesis by (auto simp: waiting_def)
  qed
qed

text \<open>Untracking a list of waiters, and removing some waiters of one queue.\<close>

definition untrack_all :: "(lease_key \<times> pending_acquire) list \<Rightarrow> (u64 \<times> pending_acquire_ref list) list \<Rightarrow> (u64 \<times> pending_acquire_ref list) list" where
  "untrack_all ws SW = fold (\<lambda>(k, w). untrack (w_session_id w) (k, queued_token w)) ws SW"

abbreviation refs :: "(lease_key \<times> pending_acquire) list \<Rightarrow> pending_acquire_ref set" where
  "refs ws \<equiv> (\<lambda>(k, w). (k, queued_token w)) ` set ws"

lemma grouped_untrack_all:
  assumes "\<forall>j. grouped (map_of SW) D by_waiter j" "\<forall>(k, w) \<in> set ws. D (k, queued_token w) = Some w"
    "distinct (map (\<lambda>(k, w). (k, queued_token w)) ws)"
  shows "\<forall>j. grouped (map_of (untrack_all ws SW)) (\<lambda>r. if r \<in> refs ws then None else D r) by_waiter j"
  using assms
proof (induction ws arbitrary: SW D)
  case (Cons x ws)
  obtain k w where x: "x = (k, w)" by (cases x)
  let ?r = "(k, queued_token w)"
  have "\<forall>j. grouped (map_of (untrack (w_session_id w) ?r SW)) (D(?r := None)) by_waiter j"
    using grouped_untrack [of SW D by_waiter ?r w "w_session_id w"] Cons.prems x by (simp add: by_waiter_def)
  moreover have "\<forall>(j, v) \<in> set ws. (D(?r := None)) (j, queued_token v) = Some v"
  proof (intro ballI, clarify)
    fix j v assume v: "(j, v) \<in> set ws"
    then have "?r \<noteq> (j, queued_token v)" using Cons.prems(3) by (force simp: x)
    with v Cons.prems(2) show "(D(?r := None)) (j, queued_token v) = Some v" by auto
  qed
  moreover have "distinct (map (\<lambda>(k, w). (k, queued_token w)) ws)" using Cons.prems(3) by simp
  ultimately have "\<forall>j. grouped (map_of (untrack_all ws (untrack (w_session_id w) ?r SW)))
      (\<lambda>r. if r \<in> refs ws then None else (D(?r := None)) r) by_waiter j"
    by (rule Cons.IH)
  moreover have "(\<lambda>r. if r \<in> refs ws then None else (D(?r := None)) r) = (\<lambda>r. if r \<in> refs (x # ws) then None else D r)"
    using x by (auto simp: fun_eq_iff)
  ultimately show ?case using x by (simp add: untrack_all_def)
qed (simp add: untrack_all_def)

lemma queue_ok_distinct: "queue_ok q \<Longrightarrow> distinct (map queued_token q)"
  by (simp add: queue_ok_def sorted_distinct)

lemma waiters_ok_filter:
  assumes ok: "waiters_ok P SW"
  shows "waiters_ok (put_queue k (filter K (queue_in P k)) P)
    (untrack_all (map (Pair k) (filter (\<lambda>w. \<not> K w) (queue_in P k))) SW)"
proof -
  let ?ws = "map (Pair k) (filter (\<lambda>w. \<not> K w) (queue_in P k))"
  have q: "queue_ok (queue_in P k)" using ok by (simp add: waiters_ok_def)
  have "\<forall>(j, w) \<in> set ?ws. waiting P (j, queued_token w) = Some w" using waiting_iff [OF q] by auto
  moreover have "map (\<lambda>(k, w). (k, queued_token w)) ?ws = map (Pair k) (map queued_token (filter (\<lambda>w. \<not> K w) (queue_in P k)))" by simp
  then have "distinct (map (\<lambda>(k, w). (k, queued_token w)) ?ws)"
    using queue_ok_distinct [OF queue_ok_filter [OF q, of "\<lambda>w. \<not> K w"]] by (simp add: distinct_map inj_on_def)
  ultimately have "\<forall>j. grouped (map_of (untrack_all ?ws SW)) (\<lambda>r. if r \<in> refs ?ws then None else waiting P r) by_waiter j"
    using ok by (intro grouped_untrack_all) (auto simp: waiters_ok_def)
  moreover have "refs ?ws = (\<lambda>w. (k, queued_token w)) ` {w \<in> set (queue_in P k). \<not> K w}" by (auto simp: image_iff)
  ultimately have "\<forall>j. grouped (map_of (untrack_all ?ws SW)) (waiting (put_queue k (filter K (queue_in P k)) P)) by_waiter j"
    unfolding waiting_filter [OF q] by simp
  with ok queue_ok_filter [OF q, of K] put_queue_shape [of P k] show ?thesis by (simp add: waiters_ok_def)
qed

lemma filter_other:
  assumes "distinct (map f (xs @ x # ys))"
  shows "filter (\<lambda>v. f v \<noteq> f x) (xs @ x # ys) = xs @ ys" "filter (\<lambda>v. \<not> f v \<noteq> f x) (xs @ x # ys) = [x]"
proof -
  have "filter (\<lambda>v. f v \<noteq> f x) xs = xs" "filter (\<lambda>v. f v \<noteq> f x) ys = ys" "filter (\<lambda>v. f v = f x) xs = []"
    "filter (\<lambda>v. f v = f x) ys = []"
    using assms by (auto simp: filter_id_conv filter_empty_conv image_iff)
  then show "filter (\<lambda>v. f v \<noteq> f x) (xs @ x # ys) = xs @ ys" "filter (\<lambda>v. \<not> f v \<noteq> f x) (xs @ x # ys) = [x]" by simp_all
qed

lemma filter_other_tokens:
  assumes "distinct (map f q)" "i < length q"
  shows "filter (\<lambda>v. f v \<noteq> f (q ! i)) q = remove_at i q" "filter (\<lambda>v. \<not> f v \<noteq> f (q ! i)) q = [q ! i]"
  using filter_other [of f "take i q" "q ! i" "drop (Suc i) q"] assms
  by (simp_all only: id_take_nth_drop [OF assms(2), symmetric] remove_at_def)

lemma waiters_ok_remove_at:
  assumes ok: "waiters_ok P SW" and i: "i < length (queue_in P k)"
  shows "waiters_ok (put_queue k (remove_at i (queue_in P k)) P)
    (untrack (w_session_id (queue_in P k ! i)) (k, queued_token (queue_in P k ! i)) SW)"
proof -
  have q: "queue_ok (queue_in P k)" using ok by (simp add: waiters_ok_def)
  show ?thesis
    using waiters_ok_filter [OF ok, of k "\<lambda>v. queued_token v \<noteq> queued_token (queue_in P k ! i)"]
    by (simp only: filter_other_tokens [OF queue_ok_distinct [OF q] i]) (simp add: untrack_all_def)
qed

lemma waiters_ok_pop:
  "waiters_ok P SW \<Longrightarrow> queue_in P k = w # q \<Longrightarrow> waiters_ok (put_queue k q P) (untrack (w_session_id w) (k, queued_token w) SW)"
  using waiters_ok_remove_at [of P SW 0 k] by (simp add: remove_at_def)

lemma waiters_ok_push:
  assumes ok: "waiters_ok P SW" and len: "length (queue_in P k) < LEASE_MAX_QUEUE_DEPTH"
    and owner: "w_owner_id w \<notin> w_owner_id ` set (queue_in P k)"
    and new: "\<And>v. v \<in> set (queue_in P k) \<Longrightarrow> queued_token v < queued_token w"
  shows "waiters_ok (put_queue k (queue_in P k @ [w]) P) (track (w_session_id w) (k, queued_token w) SW)"
proof -
  let ?P = "put_queue k (queue_in P k @ [w]) P"
  have q: "queue_ok (queue_in P k)" using ok by (simp add: waiters_ok_def)
  have q': "queue_ok (queue_in P k @ [w])"
    using q len owner new by (auto simp: queue_ok_def sorted_wrt_append)
  have none: "waiting P (k, queued_token w) = None"
    using waiting_iff [OF q, of "queued_token w"] new by (metis less_irrefl not_None_eq)
  have "waiting ?P = (waiting P)((k, queued_token w) \<mapsto> w)"
  proof
    fix r :: pending_acquire_ref
    obtain j t where r: "r = (j, t)" by (cases r)
    show "waiting ?P r = ((waiting P)((k, queued_token w) \<mapsto> w)) r"
    proof (cases "j = k")
      case True
      have "waiting ?P (k, t) = Some v \<longleftrightarrow> ((waiting P)((k, queued_token w) \<mapsto> w)) (k, t) = Some v" for v
        using waiting_iff [OF q, of t v] waiting_iff [of ?P k t v] q' new [of v] by (cases "t = queued_token w") auto
      then have "waiting ?P (k, t) = ((waiting P)((k, queued_token w) \<mapsto> w)) (k, t)" by (rule option_eqI)
      with True r show ?thesis by (simp only:)
    next
      case False
      with r show ?thesis by (simp add: waiting_def)
    qed
  qed
  with ok q' none put_queue_shape [of P k] grouped_track [of SW "waiting P" by_waiter "(k, queued_token w)" w "w_session_id w"]
  show ?thesis by (simp add: waiters_ok_def by_waiter_def)
qed

section \<open>Tokens\<close>

lemma tokens_ok_shrink:
  assumes "tokens_ok n M P" "\<And>k t. has_token M' P' k t \<Longrightarrow> has_token M P k t"
    "\<And>k st w. w \<in> set (queue_in P' k) \<Longrightarrow> M' k = Some st \<Longrightarrow> fencing_token st \<noteq> queued_token w"
  shows "tokens_ok n M' P'"
  using assms unfolding tokens_ok_def by blast

lemma tokens_apart:
  "tokens_ok n M P \<Longrightarrow> M k = Some st \<Longrightarrow> w \<in> set (queue_in P k) \<Longrightarrow> fencing_token st \<noteq> queued_token w"
  by (simp add: tokens_ok_def)

lemma tokens_ok_remove:
  assumes ok: "tokens_ok n M P" shows "tokens_ok n (M(k := None)) P"
  by (rule tokens_ok_shrink [OF ok]) (auto simp: has_token_def dest: tokens_apart [OF ok] split: if_splits)

lemma tokens_ok_update:
  assumes ok: "tokens_ok n M P" and st: "M k = Some st" "fencing_token st' = fencing_token st"
  shows "tokens_ok n (M(k \<mapsto> st')) P"
  by (rule tokens_ok_shrink [OF ok]) (use st in \<open>auto simp: has_token_def dest: tokens_apart [OF ok] split: if_splits\<close>)

lemma tokens_ok_queue:
  assumes ok: "tokens_ok n M P" and sub: "\<And>k. set (queue_in P' k) \<subseteq> set (queue_in P k)"
  shows "tokens_ok n M P'"
  by (rule tokens_ok_shrink [OF ok]) (use sub in \<open>auto simp: has_token_def dest: tokens_apart [OF ok]\<close>)

lemma tokens_ok_grant:
  assumes ok: "tokens_ok n M P" and q: "queue_in P k = w # q" "queue_ok (w # q)" and t: "fencing_token st = queued_token w"
  shows "tokens_ok n (M(k \<mapsto> st)) (put_queue k q P)"
proof (rule tokens_ok_shrink [OF ok])
  show "has_token M P j t" if "has_token (M(k \<mapsto> st)) (put_queue k q P) j t" for j t
    using that assms by (auto simp: has_token_def split: if_splits)
  show "fencing_token st' \<noteq> queued_token v"
    if "v \<in> set (queue_in (put_queue k q P) j)" "(M(k \<mapsto> st)) j = Some st'" for j st' v
    using that assms by (cases "j = k") (auto simp: tokens_ok_def queue_ok_def)
qed

lemma tokens_ok_fresh:
  assumes ok: "tokens_ok n M P" and n: "n < n'" and sub: "\<And>j t. has_token M' P' j t \<Longrightarrow> has_token M P j t \<or> j = k \<and> t = n"
    and apart: "\<And>j st w. w \<in> set (queue_in P' j) \<Longrightarrow> M' j = Some st \<Longrightarrow> fencing_token st \<noteq> queued_token w"
  shows "tokens_ok n' M' P'"
proof -
  have "t < n'" if "has_token M' P' j t" for j t
    using sub [OF that] ok n unfolding tokens_ok_def by (metis less_trans)
  moreover have "j = j'" if "has_token M' P' j t" "has_token M' P' j' t" for j j' t
    using sub [OF that(1)] sub [OF that(2)] ok unfolding tokens_ok_def by (metis less_irrefl)
  ultimately show ?thesis using apart unfolding tokens_ok_def by blast
qed

lemma next_id_SomeD: "next_id n = Some (t, n') \<Longrightarrow> t = n \<and> n < n'"
proof -
  assume "next_id n = Some (t, n')"
  then have n: "n + 1 \<noteq> 0" "t = n" "n' = n + 1" using max_word_wrap [of n] by (auto simp: next_id_def split: if_splits)
  then have "unat (n + 1) = Suc (unat n)" by (simp add: unatSuc add.commute)
  with n show ?thesis by (simp add: word_less_nat_alt)
qed

lemma queued_lt: "tokens_ok n M P \<Longrightarrow> w \<in> set (queue_in P k) \<Longrightarrow> queued_token w < n"
  unfolding tokens_ok_def has_token_def by blast

lemma held_lt: "tokens_ok n M P \<Longrightarrow> M k = Some st \<Longrightarrow> fencing_token st < n"
  unfolding tokens_ok_def has_token_def by blast

lemma tokens_ok_acquire:
  assumes ok: "tokens_ok n M P" and n: "n < n'" and st: "fencing_token st = n"
  shows "tokens_ok n' (M(k \<mapsto> st)) P"
proof (rule tokens_ok_fresh [OF ok n, of _ _ k])
  show "has_token M P j t \<or> j = k \<and> t = n" if "has_token (M(k \<mapsto> st)) P j t" for j t
    using that st by (auto simp: has_token_def split: if_splits)
  show "fencing_token st' \<noteq> queued_token w" if "w \<in> set (queue_in P j)" "(M(k \<mapsto> st)) j = Some st'" for j st' w
    using that st queued_lt [OF ok that(1)] tokens_apart [OF ok, of j st' w] by (auto split: if_splits)
qed

lemma tokens_ok_push:
  assumes ok: "tokens_ok n M P" and n: "n < n'" and w: "queued_token w = n"
  shows "tokens_ok n' M (put_queue k (queue_in P k @ [w]) P)"
proof (rule tokens_ok_fresh [OF ok n, of _ _ k])
  show "has_token M P j t \<or> j = k \<and> t = n" if "has_token M (put_queue k (queue_in P k @ [w]) P) j t" for j t
    using that w by (auto simp: has_token_def split: if_splits)
  show "fencing_token st \<noteq> queued_token v"
    if "v \<in> set (queue_in (put_queue k (queue_in P k @ [w]) P) j)" "M j = Some st" for j st v
    using that w held_lt [OF ok that(2)] tokens_apart [OF ok that(2), of v] by (auto split: if_splits)
qed

section \<open>The admin projection\<close>

lemma ucast_family_inject [simp]: "(ucast a :: u64) = ucast b \<longleftrightarrow> a = b" for a b :: route_family
proof
  assume "(ucast a :: u64) = ucast b"
  then have "unat (ucast a :: u64) = unat (ucast b :: u64)" by simp
  moreover have "unat (ucast x :: u64) = unat x" for x :: route_family
    using unsigned_less [of x, where 'a = nat] by (simp add: unsigned_ucast_eq take_bit_nat_eq_self)
  ultimately show "a = b" by (simp add: word_unat_eq_iff)
qed simp

lemma key_identity_inject [simp]: "key_identity a = key_identity b \<longleftrightarrow> a = b"
  by (cases a; cases b) (simp add: key_identity_def lease_identity_key_def)

lemma mirrored_cong:
  "M' k = M k \<Longrightarrow> map_of A' (key_identity k) = map_of A (key_identity k) \<Longrightarrow> mirrored M' A' k = mirrored M A k"
  by (cases "M k") (simp_all add: mirrored_def)

lemma mirror_ok_remove:
  assumes "mirror_ok fam M A"
  shows "mirror_ok fam (M(k := None)) (AList.delete (key_identity k) A)"
proof -
  have "mirrored (M(k := None)) (AList.delete (key_identity k) A) j" if "key_family j = fam" for j
  proof (cases "j = k")
    case True
    then show ?thesis by (simp add: mirrored_def delete_conv')
  next
    case False
    then show ?thesis using assms that mirrored_cong [of "M(k := None)" j M "AList.delete (key_identity k) A" A]
      by (simp add: mirror_ok_def delete_conv')
  qed
  then show ?thesis by (simp add: mirror_ok_def)
qed

lemma mirror_ok_upsert:
  assumes "mirror_ok fam M A" "M' = M(k \<mapsto> st)" "shows_lease info k st"
  shows "mirror_ok fam M' (AList.update (lease_identity_for info) info A)"
proof -
  have i: "lease_identity_for info = key_identity k" using assms(3) by (simp add: shows_lease_def)
  have "mirrored M' (AList.update (key_identity k) info A) j" if "key_family j = fam" for j
  proof (cases "j = k")
    case True
    then show ?thesis using assms by (simp add: mirrored_def update_conv')
  next
    case False
    then show ?thesis using assms that mirrored_cong [of M' j M "AList.update (key_identity k) info A" A]
      by (simp add: mirror_ok_def update_conv')
  qed
  then show ?thesis by (simp add: mirror_ok_def i)
qed

section \<open>Watches\<close>

lemma publish_ok:
  assumes "watch_ok fam S"
  shows "\<exists>targets. for_each_matching_route S fam route = Some targets \<and>
    set targets = {sub. \<exists>i. map_of (subscriptions S) i = Some sub \<and> registration_matches sub route}"
proof -
  obtain k where k: "set_ok k fam S" using assms by (auto simp: watch_ok_def)
  obtain sids where sids: "matching_ids S fam route = Some sids"
    "set sids = {i. \<exists>s. map_of (subscriptions S) i = Some s \<and> registration_matches s route}"
    using matching_ids_ok [OF k, of route] assms by (auto simp: watch_ok_def)
  from sids(2) have "for_each_matching_route S fam route = Some (map (\<lambda>i. the (map_of (subscriptions S) i)) sids)"
    by (intro for_each_matching_route_ok [OF k sids(1)]) auto
  with sids(2) show ?thesis by (force simp: image_iff)
qed

text \<open>What an operation may change without touching the book: clock readings, routed envelopes, counters.\<close>

definition io_erased :: "lease_state \<Rightarrow> lease_state" where
  "io_erased s = s\<lparr>readings := 0, routed := [], counters := []\<rparr>"

definition same_book :: "lease_state \<Rightarrow> lease_state \<Rightarrow> bool" where
  "same_book s s' \<longleftrightarrow> io_erased s' = io_erased s"

lemma same_bookI [simp]:
  "same_book s s" "same_book s (s\<lparr>routed := r\<rparr>)" "same_book s (s\<lparr>counters := c\<rparr>)" "same_book s (s\<lparr>readings := n\<rparr>)"
  by (simp_all add: same_book_def io_erased_def)

lemma same_book_trans [trans]: "same_book s s' \<Longrightarrow> same_book s' s'' \<Longrightarrow> same_book s s''"
  by (simp add: same_book_def)

lemma same_book_fields:
  assumes "same_book s s'"
  shows "own_family s' = own_family s" "leases s' = leases s" "session_leases s' = session_leases s"
    "pending_acquires s' = pending_acquires s" "session_waiters s' = session_waiters s" "cleaned_up s' = cleaned_up s"
    "next_token s' = next_token s" "families s' = families s" "next_sub_id s' = next_sub_id s"
    "list_snapshots s' = list_snapshots s" "next_list_snapshot_id s' = next_list_snapshot_id s" "admin s' = admin s"
    "registrations s' = registrations s" "active_gauge s' = active_gauge s" "waiters_gauge s' = waiters_gauge s"
  using assms unfolding same_book_def io_erased_def by (cases s; cases s'; simp)+

lemma same_book_fold: "(\<And>x s. same_book s (f x s)) \<Longrightarrow> same_book s (fold f xs s)"
  by (induction xs arbitrary: s) (auto intro: same_book_trans)

lemma same_book_counter [simp]: "same_book s (counter_inc name s)"
  by (simp add: counter_inc_def)

lemma same_book_route [simp]: "same_book s (snd (router_route E out s))"
  by (simp add: router_route_def Let_def)

lemma same_book_send [simp]: "same_book s (snd (send_waiter_response E w r s))"
  by (simp add: send_waiter_response_def record_dropped_delivery_def router_route_def counter_inc_def Let_def
      same_book_def io_erased_def)

lemma same_book_target: "same_book s (notify_target E event sub s)"
  by (simp add: notify_target_def record_dropped_delivery_def router_route_def counter_inc_def Let_def
      same_book_def io_erased_def)

lemma notify_ok:
  assumes "families_ok (families s)"
  shows "\<exists>s'. notify_lease_change E key s = Some s' \<and> same_book s s'"
proof (cases "map_of (families s) (ucast (key_family key))")
  case None
  then show ?thesis by (simp add: notify_lease_change_def)
next
  case (Some S)
  then have "\<exists>fam. ucast (key_family key) = (ucast fam :: u64) \<and> watch_ok fam S"
    using assms map_of_SomeD [OF Some] by (auto simp: families_ok_def)
  then have "watch_ok (key_family key) S" by auto
  from publish_ok [OF this, of "to_route key"] Some show ?thesis
    by (auto simp: notify_lease_change_def handle_domain_publish_def intro!: same_book_fold same_book_target)
qed

lemma book_on_cong: "same_book s s' \<Longrightarrow> book_on M s' = book_on M s"
  by (simp add: book_on_def same_book_fields)

end
