(* ===== verification/Lease_Advance.thy ===== *)
theory Lease_Advance
  imports Lease_Book
begin

text \<open>
  The two routines that hand leases on: \<open>advance_waiter_queue\<close> serves the waiters of a free key in
  order until one grant is delivered, and \<open>sweep_expired_state\<close> does so for every key after removing
  what has expired. Both never panic on a good book, keep it good, and the outcome of a queue is given
  by \<open>fifo_outcome\<close>.
\<close>

section \<open>Frames\<close>

definition frame :: "lease_state \<Rightarrow> lease_state \<Rightarrow> bool" where
  "frame s s' \<longleftrightarrow> own_family s' = own_family s \<and> cleaned_up s' = cleaned_up s \<and> next_token s' = next_token s
     \<and> families s' = families s \<and> next_sub_id s' = next_sub_id s \<and> list_snapshots s' = list_snapshots s
     \<and> next_list_snapshot_id s' = next_list_snapshot_id s \<and> registrations s' = registrations s
     \<and> set (routed s) \<subseteq> set (routed s')"

lemma frame_refl [simp]: "frame s s"
  by (simp add: frame_def)

lemma frame_trans [trans]: "frame s s' \<Longrightarrow> frame s' s'' \<Longrightarrow> frame s s''"
  by (auto simp: frame_def)

text \<open>Routed envelopes are only ever appended.\<close>

definition appends :: "lease_state \<Rightarrow> lease_state \<Rightarrow> bool" where
  "appends s s' \<longleftrightarrow> same_book s s' \<and> set (routed s) \<subseteq> set (routed s')"

lemma appends_refl [simp]: "appends s s"
  by (simp add: appends_def)

lemma appends_trans: "appends s s' \<Longrightarrow> appends s' s'' \<Longrightarrow> appends s s''"
  by (auto simp: appends_def intro: same_book_trans)

lemma appends_fold: "(\<And>x s. appends s (f x s)) \<Longrightarrow> appends s (fold f xs s)"
  by (induction xs arbitrary: s) (auto intro: appends_trans)

lemma appends_counter [simp]: "appends s (counter_inc name s)"
  by (simp add: appends_def) (simp add: counter_inc_def)

lemma appends_send: "appends s (snd (send_waiter_response E w r s))"
  by (simp add: appends_def)
    (auto simp: send_waiter_response_def record_dropped_delivery_def router_route_def counter_inc_def Let_def)

lemma appends_target: "appends s (notify_target E event sub s)"
  by (simp add: appends_def same_book_target)
    (auto simp: notify_target_def record_dropped_delivery_def router_route_def counter_inc_def Let_def)

lemma notify_appends: "notify_lease_change E key s = Some s' \<Longrightarrow> appends s s'"
  by (auto simp: notify_lease_change_def handle_domain_publish_def intro!: appends_fold appends_target
      split: if_splits option.splits)

lemma notify_total: "families_ok (families s) \<Longrightarrow> \<exists>s'. notify_lease_change E key s = Some s' \<and> appends s s'"
  using notify_ok [of s E key] notify_appends [of E key s] by auto

lemma appends_frame: "appends s s' \<Longrightarrow> frame s s'"
  by (auto simp: appends_def frame_def same_book_fields)

lemma appends_fields:
  assumes "appends s s'"
  shows "leases s' = leases s" "session_leases s' = session_leases s" "pending_acquires s' = pending_acquires s"
    "session_waiters s' = session_waiters s" "admin s' = admin s" "own_family s' = own_family s"
    "next_token s' = next_token s" "families s' = families s"
  using assms by (simp_all add: appends_def same_book_fields)

lemma appends_book: "appends s s' \<Longrightarrow> book_on M s' = book_on M s"
  by (simp add: appends_def book_on_cong)

section \<open>Forgetting and granting\<close>

lemma forget_ok:
  assumes ok: "book_on M s" and st: "M key = Some st"
  shows "\<exists>s'. forget_lease E (owner_session_id st) key s = Some s' \<and> book_on (M(key := None)) s' \<and> leases s' = leases s
    \<and> pending_acquires s' = pending_acquires s \<and> frame s s'"
proof -
  let ?s = "remove_admin_lease key (untrack_session_lease (owner_session_id st) key s)"
  have f: "frame s ?s" "leases ?s = leases s" "pending_acquires ?s = pending_acquires s" "families ?s = families s"
    by (simp_all add: frame_def remove_admin_lease_def untrack_session_lease_def)
  have "tokens_ok (next_token s) (M(key := None)) (pending_acquires s)" using ok by (intro tokens_ok_remove) (simp add: book_on_def)
  moreover have "mirror_ok (own_family s) (M(key := None)) (AList.delete (key_identity key) (admin_leases (admin s)))"
    using ok by (intro mirror_ok_remove) (simp add: book_on_def)
  moreover have "holders_ok (M(key := None)) (untrack (owner_session_id st) key (session_leases s))"
    using ok st by (intro holders_ok_remove) (simp_all add: book_on_def)
  ultimately have b: "book_on (M(key := None)) ?s"
    using ok by (simp add: book_on_def remove_admin_lease_def untrack_session_lease_def remove_lease_def key_identity_def keys_ok_def)
  obtain s' where s': "notify_lease_change E key ?s = Some s'" "appends ?s s'"
    using notify_total [of ?s E key] ok f(4) by (auto simp: book_on_def)
  show ?thesis
    using s' b f(1) appends_frame [OF s'(2)] by (simp add: forget_lease_def appends_book appends_fields f(2,3)) (rule frame_trans)
qed

lemma upsert_ok:
  assumes ok: "book_on M s0" and s: "s = s0\<lparr>leases := L, session_leases := SL, pending_acquires := P, session_waiters := SW, next_token := n\<rparr>"
    and parts: "sorted_wrt (<) (map fst L)" "holders_ok (M(key \<mapsto> st)) SL" "waiters_ok P SW" "tokens_ok n (M(key \<mapsto> st)) P"
      "keys_ok (own_family s0) (M(key \<mapsto> st)) P"
  shows "book_on (M(key \<mapsto> st)) (upsert_admin_lease E key st s)" "leases (upsert_admin_lease E key st s) = L"
    "pending_acquires (upsert_admin_lease E key st s) = P" "routed (upsert_admin_lease E key st s) = routed s0"
    "next_token (upsert_admin_lease E key st s) = n"
proof -
  let ?info = "fst (lease_info_from_state E key st s)"
  have u: "upsert_admin_lease E key st s = s\<lparr>readings := readings s + 1, admin := upsert_lease ?info (admin s)\<rparr>"
    by (simp add: upsert_admin_lease_def lease_info_from_state_def instant_now_def Let_def)
  have "shows_lease ?info key st"
    by (simp add: lease_info_from_state_def instant_now_def shows_lease_def lease_identity_for_def key_identity_def Let_def)
  then have "mirror_ok (own_family s0) (M(key \<mapsto> st)) (AList.update (lease_identity_for ?info) ?info (admin_leases (admin s0)))"
    using ok by (intro mirror_ok_upsert [of _ M]) (simp_all add: book_on_def)
  with ok parts s u show "book_on (M(key \<mapsto> st)) (upsert_admin_lease E key st s)" "leases (upsert_admin_lease E key st s) = L"
    "pending_acquires (upsert_admin_lease E key st s) = P" "routed (upsert_admin_lease E key st s) = routed s0"
    "next_token (upsert_admin_lease E key st s) = n"
    by (simp_all add: book_on_def upsert_lease_def)
qed

text \<open>The response that tells a waiter it holds the lease.\<close>

definition grant_message :: "pending_acquire \<Rightarrow> lease_outbound" where
  "grant_message w = OutResponse (w_reply_source w) (w_reply_destination w)
     ((client_frame_meta_new (w_session_id w) (w_channel w) MSG_TYPE_ACQUIRE (w_route_family w))\<lparr>meta_correlation := w_correlation w\<rparr>)
     (Acquired (queued_token w))"

lemma send_grant:
  "send_waiter_response E w (Acquired (queued_token w)) s = (d, s') \<Longrightarrow>
    \<exists>r. (grant_message w, r) \<in> set (routed s') \<and> (d \<longleftrightarrow> r = Delivered)"
  by (auto simp: send_waiter_response_def grant_message_def router_route_def record_dropped_delivery_def counter_inc_def
      Let_def split: if_splits)

definition lease_for :: "pending_acquire \<Rightarrow> instant \<Rightarrow> sink_lease_state \<Rightarrow> bool" where
  "lease_for w t st \<longleftrightarrow> owner_id st = w_owner_id w \<and> owner_session_id st = w_session_id w
     \<and> fencing_token st = queued_token w \<and> expiry st = t \<and> renewals st = 0"

lemma announce_ok:
  assumes ok: "book_on M s" and free: "M key = None" and q: "queue_in (pending_acquires s) key = w # q" and st: "lease_for w t st"
    and s2: "s2 = (set_queue key q s)\<lparr>leases := btree_insert key st (leases s)\<rparr>"
  shows "\<exists>d s'. announce_grant E key w st s2 = Some (d, s') \<and> book_on (M(key \<mapsto> st)) s' \<and> leases s' = btree_insert key st (leases s)
    \<and> pending_acquires s' = put_queue key q (pending_acquires s) \<and> frame s s'
    \<and> (\<exists>r. (grant_message w, r) \<in> set (routed s') \<and> (d \<longleftrightarrow> r = Delivered))"
proof -
  let ?SL = "track (w_session_id w) key (session_leases s)" and ?P = "put_queue key q (pending_acquires s)"
  let ?SW = "untrack (w_session_id w) (key, queued_token w) (session_waiters s)"
  let ?s3 = "track_session_lease (w_session_id w) key (untrack_session_waiter (w_session_id w) key (queued_token w) s2)"
  let ?s4 = "upsert_admin_lease E key st ?s3"
  have s3: "?s3 = s\<lparr>leases := btree_insert key st (leases s), session_leases := ?SL, pending_acquires := ?P,
      session_waiters := ?SW, next_token := next_token s\<rparr>"
    by (simp add: s2 set_queue_put track_session_lease_def untrack_session_waiter_def)
  have qok: "queue_ok (w # q)" using ok q by (simp add: book_on_def waiters_ok_def) metis
  have 1: "sorted_wrt (<) (map fst (btree_insert key st (leases s)))" using ok by (simp add: book_on_def sorted_btree_insert)
  have 2: "holders_ok (M(key \<mapsto> st)) ?SL" using ok free st holders_ok_insert [of M "session_leases s" key st] by (simp add: book_on_def lease_for_def)
  have 3: "waiters_ok ?P ?SW" using ok q by (intro waiters_ok_pop) (simp_all add: book_on_def)
  have 4: "tokens_ok (next_token s) (M(key \<mapsto> st)) ?P" using ok q qok st by (intro tokens_ok_grant) (simp_all add: book_on_def lease_for_def)
  have 5: "keys_ok (own_family s) (M(key \<mapsto> st)) ?P" using ok q by (auto simp: book_on_def keys_ok_def)
  note up = upsert_ok [OF ok s3 1 2 3 4 5, of E]
  have f: "frame s ?s4"
    by (simp add: frame_def s3 upsert_admin_lease_def lease_info_from_state_def instant_now_def Let_def)
  have "families_ok (families ?s4)" using up(1) by (simp add: book_on_def)
  then obtain s5 where s5: "notify_lease_change E key ?s4 = Some s5" "appends ?s4 s5" using notify_total by blast
  obtain d s6 where s6: "send_waiter_response E w (Acquired (queued_token w)) s5 = (d, s6)" by fastforce
  then have "appends s5 s6" using appends_send [of s5 E w "Acquired (queued_token w)"] by simp
  with s5 have a: "appends ?s4 s6" by (blast intro: appends_trans)
  have "announce_grant E key w st s2 = Some (d, s6)" by (simp add: announce_grant_def s5 s6)
  then show ?thesis
    using up a send_grant [OF s6] frame_trans [OF f appends_frame [OF a]] by (simp add: appends_book appends_fields)
qed

section \<open>Expired waiters\<close>

lemma appends_waiters:
  "appends s s' \<Longrightarrow> appends (s\<lparr>session_waiters := x\<rparr>) (s'\<lparr>session_waiters := x\<rparr>)"
  unfolding appends_def same_book_def io_erased_def by (cases s; cases s'; simp)

lemma timeouts_appends:
  assumes f: "\<And>k w s. appends (untrack_session_waiter (w_session_id w) k (queued_token w) s) (f (k, w) s)"
  shows "appends (s\<lparr>session_waiters := untrack_all ws (session_waiters s)\<rparr>) (fold f ws s)"
proof (induction ws arbitrary: s)
  case Nil
  then show ?case by (simp add: untrack_all_def)
next
  case (Cons x ws)
  obtain k w where x: "x = (k, w)" by (cases x)
  let ?s = "untrack_session_waiter (w_session_id w) k (queued_token w) s"
  let ?SW = "untrack_all ws (session_waiters ?s)"
  have sw: "session_waiters (f x s) = session_waiters ?s" using appends_fields(4) [OF f [of w k s]] x by simp
  have "appends (?s\<lparr>session_waiters := ?SW\<rparr>) (f x s\<lparr>session_waiters := ?SW\<rparr>)"
    using appends_waiters [OF f [of w k s]] x by simp
  moreover have "appends (f x s\<lparr>session_waiters := ?SW\<rparr>) (fold f ws (f x s))" using Cons [of "f x s"] sw by simp
  ultimately have "appends (?s\<lparr>session_waiters := ?SW\<rparr>) (fold f (x # ws) s)" by (simp add: appends_trans)
  then show ?case by (simp add: x untrack_all_def untrack_session_waiter_def)
qed

lemma fold_Pair: "fold (\<lambda>w. f (k, w)) ws s = fold f (map (Pair k) ws) s"
  by (induction ws arbitrary: s) simp_all

lemma map_of_queue: "map_of P k = Some q \<Longrightarrow> queue_in P k = q" "map_of P k = None \<Longrightarrow> queue_in P k = []"
  by (simp_all add: queue_in_def entry_or_def)

definition alive :: "instant \<Rightarrow> pending_acquire list \<Rightarrow> pending_acquire list" where
  "alive now q = filter (\<lambda>w. \<not> expires_at w \<le> now) q"

lemma expire_ok:
  assumes ok: "book_on M s" and e: "expire_timed_out_waiters_for_key E key now s = (n, s')"
  shows "book_on M s' \<and> leases s' = leases s \<and> frame s s' \<and>
    (\<forall>k. queue_in (pending_acquires s') k = (if k = key then alive now (queue_in (pending_acquires s) key) else queue_in (pending_acquires s) k))"
proof (cases "map_of (pending_acquires s) key")
  case None
  then show ?thesis using ok e by (auto simp: expire_timed_out_waiters_for_key_def map_of_queue alive_def)
next
  case (Some q)
  let ?K = "\<lambda>w. \<not> expires_at w \<le> now"
  let ?ws = "map (Pair key) (filter (\<lambda>w. \<not> ?K w) q)"
  let ?P = "put_queue key (filter ?K q) (pending_acquires s)"
  define f where "f = (\<lambda>(k, w) s. snd (send_waiter_response E w Timeout (counter_inc ''fitz_lease_acquire_timeouts_total''
      (untrack_session_waiter (w_session_id w) k (queued_token w) s))))"
  let ?s = "s\<lparr>pending_acquires := ?P, session_waiters := untrack_all ?ws (session_waiters s)\<rparr>"
  have "appends (untrack_session_waiter (w_session_id w) k (queued_token w) s) (f (k, w) s)" for k w s
    by (simp add: f_def appends_trans [OF appends_counter appends_send])
  then have "appends ((set_queue key (filter ?K q) s)\<lparr>session_waiters := untrack_all ?ws (session_waiters (set_queue key (filter ?K q) s))\<rparr>)
      (fold f ?ws (set_queue key (filter ?K q) s))" by (rule timeouts_appends)
  moreover have "s' = fold f ?ws (set_queue key (filter ?K q) s)"
    using e Some fold_Pair [of f key] by (auto simp: expire_timed_out_waiters_for_key_def drain_expired_waiters_filter f_def)
  ultimately have a: "appends ?s s'" by (simp add: set_queue_put)
  have q: "queue_in (pending_acquires s) key = q" by (simp add: map_of_queue Some)
  have "waiters_ok ?P (untrack_all ?ws (session_waiters s))"
    using waiters_ok_filter [of "pending_acquires s" "session_waiters s" key ?K] ok q by (simp add: book_on_def)
  moreover have "tokens_ok (next_token s) M ?P" by (rule tokens_ok_queue [OF book_onD(4) [OF ok]]) (auto simp: q)
  moreover have "keys_ok (own_family s) M ?P" by (rule keys_ok_queue [OF book_onD(6) [OF ok]]) (auto simp: q)
  ultimately have "book_on M ?s" using ok by (simp add: book_on_def)
  moreover have "frame s ?s" by (simp add: frame_def)
  ultimately show ?thesis using a frame_trans [OF _ appends_frame [OF a], of s] q
    by (simp add: appends_book appends_fields alive_def)
qed

section \<open>Advancing a queue\<close>

text \<open>
  What serving the waiters \<open>q\<close> of a free key comes to: those skipped were granted but could not be told;
  then nobody is left, or the next one holds the lease and was told, or its time to live can no longer be
  represented and it is dropped.
\<close>

definition undelivered :: "(lease_outbound \<times> route_result) set \<Rightarrow> pending_acquire \<Rightarrow> bool" where
  "undelivered R w \<longleftrightarrow> (\<exists>r. (grant_message w, r) \<in> R \<and> r \<noteq> Delivered)"

definition fifo_outcome :: "instant \<Rightarrow> pending_acquire list \<Rightarrow> sink_lease_state option \<Rightarrow> pending_acquire list
    \<Rightarrow> (lease_outbound \<times> route_result) set \<Rightarrow> bool" where
  "fifo_outcome now q h q' R \<longleftrightarrow>
     (\<exists>skipped. (\<forall>w \<in> set skipped. undelivered R w) \<and>
        (q = skipped \<and> h = None \<and> q' = []
         \<or> (\<exists>w t st. q = skipped @ w # q' \<and> lease_expiry now (w_ttl_secs w) = Inr t \<and> h = Some st \<and> lease_for w t st
              \<and> (grant_message w, Delivered) \<in> R)
         \<or> (\<exists>w e. q = skipped @ w # q' \<and> lease_expiry now (w_ttl_secs w) = Inl e \<and> h = None)))"

lemma fifo_skip:
  assumes "fifo_outcome now q h q' R" "undelivered R w"
  shows "fifo_outcome now (w # q) h q' R"
proof -
  from assms(1) obtain skipped where sk: "\<forall>w \<in> set skipped. undelivered R w" and
    c: "q = skipped \<and> h = None \<and> q' = []
         \<or> (\<exists>w t st. q = skipped @ w # q' \<and> lease_expiry now (w_ttl_secs w) = Inr t \<and> h = Some st \<and> lease_for w t st
              \<and> (grant_message w, Delivered) \<in> R)
         \<or> (\<exists>w e. q = skipped @ w # q' \<and> lease_expiry now (w_ttl_secs w) = Inl e \<and> h = None)"
    unfolding fifo_outcome_def by blast
  from sk assms(2) have "\<forall>w \<in> set (w # skipped). undelivered R w" by simp
  moreover from c have "w # q = w # skipped \<and> h = None \<and> q' = []
         \<or> (\<exists>v t st. w # q = (w # skipped) @ v # q' \<and> lease_expiry now (w_ttl_secs v) = Inr t \<and> h = Some st \<and> lease_for v t st
              \<and> (grant_message v, Delivered) \<in> R)
         \<or> (\<exists>v e. w # q = (w # skipped) @ v # q' \<and> lease_expiry now (w_ttl_secs v) = Inl e \<and> h = None)" by simp
  ultimately show ?thesis unfolding fifo_outcome_def by blast
qed

text \<open>The result of advancing \<open>key\<close>: only its holder and its queue change, and as above.\<close>

definition advanced :: "lease_key \<Rightarrow> instant \<Rightarrow> holders \<Rightarrow> lease_state \<Rightarrow> lease_state \<Rightarrow> bool" where
  "advanced key now M s s' \<longleftrightarrow>
     (\<exists>h. book_on (M(key := h)) s' \<and> map_of (leases s') = (map_of (leases s))(key := h) \<and> frame s s' \<and>
        (\<forall>k. k \<noteq> key \<longrightarrow> queue_in (pending_acquires s') k = queue_in (pending_acquires s) k) \<and>
        (if M key = None
         then fifo_outcome now (alive now (queue_in (pending_acquires s) key)) h (queue_in (pending_acquires s') key) (set (routed s'))
         else h = M key \<and> queue_in (pending_acquires s') key = alive now (queue_in (pending_acquires s) key)))"

text \<open>The front of a free key's queue.\<close>

lemma grant_cases:
  assumes ok: "book_on M s" and free: "map_of (leases s) key = None"
  obtains "queue_in (pending_acquires s) key = []" "grant_front E key now s = (None, s)"
  | w q e where "queue_in (pending_acquires s) key = w # q" "lease_expiry now (w_ttl_secs w) = Inl e"
      "grant_front E key now s = (Some (w, None), set_queue key q s)"
  | w q t st where "queue_in (pending_acquires s) key = w # q" "lease_expiry now (w_ttl_secs w) = Inr t" "lease_for w t st"
      "grant_front E key now s = (Some (w, Some st), (set_queue key q s)\<lparr>leases := btree_insert key st (leases s)\<rparr>)"
proof (cases "map_of (pending_acquires s) key")
  case None
  then show thesis using that(1) free by (simp add: grant_front_def map_of_queue)
next
  case (Some ws)
  have "[] \<notin> snd ` set (pending_acquires s)" using book_onD(3) [OF ok] by (simp add: waiters_ok_def)
  then have "ws \<noteq> []" using map_of_SomeD [OF Some] by force
  then obtain w q where ws: "ws = w # q" by (cases ws) auto
  then have qk: "queue_in (pending_acquires s) key = w # q" using Some by (simp add: map_of_queue)
  show thesis
  proof (cases "lease_expiry now (w_ttl_secs w)")
    case (Inl e)
    then show thesis using that(2) [OF qk Inl] Some ws free by (simp add: grant_front_def)
  next
    case (Inr t)
    then show thesis using that(3) [OF qk Inr] Some ws free by (simp add: grant_front_def lease_for_def set_queue_put Let_def)
  qed
qed

lemma drop_waiter_ok:
  assumes ok: "book_on M s" and q: "queue_in (pending_acquires s) key = w # q"
  shows "book_on M (untrack_session_waiter (w_session_id w) key (queued_token w) (set_queue key q s))"
proof -
  let ?P = "put_queue key q (pending_acquires s)"
  have "waiters_ok ?P (untrack (w_session_id w) (key, queued_token w) (session_waiters s))"
    using waiters_ok_pop [OF book_onD(3) [OF ok] q] .
  moreover have "tokens_ok (next_token s) M ?P" by (rule tokens_ok_queue [OF book_onD(4) [OF ok]]) (auto simp: q)
  moreover have "keys_ok (own_family s) M ?P" by (rule keys_ok_queue [OF book_onD(6) [OF ok]]) (auto simp: q)
  ultimately show ?thesis using ok by (simp add: book_on_def untrack_session_waiter_def set_queue_put)
qed

lemma advancedI:
  assumes "book_on (M(key := h)) s'" "map_of (leases s') = (map_of (leases s))(key := h)" "frame s s'"
    "\<And>k. k \<noteq> key \<Longrightarrow> queue_in (pending_acquires s') k = queue_in (pending_acquires s) k" "M key = None"
    "fifo_outcome now (alive now (queue_in (pending_acquires s) key)) h (queue_in (pending_acquires s') key) (set (routed s'))"
  shows "advanced key now M s s'"
  unfolding advanced_def using assms by (intro exI [of _ h]) simp

text \<open>The cases of one call, after the expired waiters of the key are gone.\<close>

definition reaped :: "lease_key \<Rightarrow> instant \<Rightarrow> holders \<Rightarrow> lease_state \<Rightarrow> lease_state \<Rightarrow> bool" where
  "reaped key now M s s1 \<longleftrightarrow> book_on M s1 \<and> leases s1 = leases s \<and> frame s s1 \<and>
    (\<forall>k. queue_in (pending_acquires s1) k = (if k = key then alive now (queue_in (pending_acquires s) key) else queue_in (pending_acquires s) k))"

lemma reapedD:
  assumes "reaped key now M s s1"
  shows "book_on M s1" "leases s1 = leases s" "frame s s1"
    "queue_in (pending_acquires s1) key = alive now (queue_in (pending_acquires s) key)"
    "\<And>k. k \<noteq> key \<Longrightarrow> queue_in (pending_acquires s1) k = queue_in (pending_acquires s) k"
  using assms by (simp_all add: reaped_def)

lemma advanced_held:
  assumes r: "reaped key now M s s1" and st: "M key = Some st" "map_of (leases s) key = M key"
  shows "advanced key now M s s1"
  unfolding advanced_def using st reapedD [OF r] by (intro exI [of _ "Some st"]) (simp add: fun_upd_idem)

lemma advanced_idle:
  assumes r: "reaped key now M s s1" and M: "M key = None" "map_of (leases s) key = M key" and q: "queue_in (pending_acquires s1) key = []"
  shows "advanced key now M s s1"
  by (rule advancedI [of _ _ None]) (use M reapedD [OF r] q in \<open>simp_all add: fun_upd_idem fifo_outcome_def\<close>)

lemma advanced_overflow:
  assumes r: "reaped key now M s s1" and M: "M key = None" "map_of (leases s) key = M key"
    and q: "queue_in (pending_acquires s1) key = w # q" and e: "lease_expiry now (w_ttl_secs w) = Inl e"
    and s3: "s3 = snd (send_waiter_response E w m (untrack_session_waiter (w_session_id w) key (queued_token w) (set_queue key q s1)))"
  shows "advanced key now M s s3"
proof (rule advancedI [of _ _ None])
  let ?s2 = "untrack_session_waiter (w_session_id w) key (queued_token w) (set_queue key q s1)"
  note r = reapedD [OF r]
  have a: "appends ?s2 s3" unfolding s3 by (rule appends_send)
  have f: "frame s1 ?s2" by (simp add: frame_def untrack_session_waiter_def set_queue_put)
  have p: "queue_in (pending_acquires s3) k = (if k = key then q else queue_in (pending_acquires s1) k)" for k
    using a by (simp add: appends_fields set_queue_put)
  show "fifo_outcome now (alive now (queue_in (pending_acquires s) key)) None (queue_in (pending_acquires s3) key) (set (routed s3))"
    unfolding fifo_outcome_def by (rule exI [of _ "[]"]) (use q e r(4) p in simp)
  show "frame s s3" using r(3) f a by (blast intro: frame_trans appends_frame)
  show "book_on (M(key := None)) s3" using drop_waiter_ok [OF r(1) q] a M by (simp add: appends_book fun_upd_idem)
  show "map_of (leases s3) = (map_of (leases s))(key := None)"
    using a r(2) M by (simp add: appends_fields set_queue_put untrack_session_waiter_def fun_upd_idem)
  show "queue_in (pending_acquires s3) k = queue_in (pending_acquires s) k" if "k \<noteq> key" for k using that p r(5) by simp
qed (rule M(1))

lemma advanced_granted:
  assumes r: "reaped key now M s s1" and M: "M key = None" and q: "queue_in (pending_acquires s1) key = w # q"
    and t: "lease_expiry now (w_ttl_secs w) = Inr t" "lease_for w t st"
    and s3: "book_on (M(key \<mapsto> st)) s3" "leases s3 = btree_insert key st (leases s1)"
      "pending_acquires s3 = put_queue key q (pending_acquires s1)" "frame s1 s3" "(grant_message w, Delivered) \<in> set (routed s3)"
    and a: "appends s3 s4"
  shows "advanced key now M s s4"
proof (rule advancedI [of _ _ "Some st"])
  note r = reapedD [OF r]
  have "(grant_message w, Delivered) \<in> set (routed s4)" using s3(5) a by (auto simp: appends_def)
  then show "fifo_outcome now (alive now (queue_in (pending_acquires s) key)) (Some st) (queue_in (pending_acquires s4) key) (set (routed s4))"
    unfolding fifo_outcome_def by (intro exI [of _ "[]"]) (use q t r(4) s3(3) appends_fields(3) [OF a] in simp)
  show "frame s s4" using r(3) s3(4) a by (blast intro: frame_trans appends_frame)
  show "book_on (M(key := Some st)) s4" using s3(1) appends_book [OF a] by simp
  show "map_of (leases s4) = (map_of (leases s))(key := Some st)" using s3(2) r(2) appends_fields(1) [OF a] by simp
  show "queue_in (pending_acquires s4) k = queue_in (pending_acquires s) k" if "k \<noteq> key" for k
    using that s3(3) r(5) appends_fields(3) [OF a] by simp
qed (rule M)

lemma advanced_skipped:
  assumes r: "reaped key now M s s1" and M: "M key = None" and q: "queue_in (pending_acquires s1) key = w # q"
    and s4: "map_of (leases s4) = (map_of (leases s1))(key := None)"
      "pending_acquires s4 = put_queue key q (pending_acquires s1)" "frame s1 s4" "undelivered (set (routed s4)) w"
    and s5: "advanced key now M s4 s5"
  shows "advanced key now M s s5"
proof -
  note r = reapedD [OF r]
  obtain h where h: "book_on (M(key := h)) s5" "map_of (leases s5) = (map_of (leases s4))(key := h)" "frame s4 s5"
    "\<And>k. k \<noteq> key \<Longrightarrow> queue_in (pending_acquires s5) k = queue_in (pending_acquires s4) k"
    "fifo_outcome now (alive now q) h (queue_in (pending_acquires s5) key) (set (routed s5))"
    using s5 M s4(2) by (auto simp: advanced_def)
  have "\<forall>v \<in> set (w # q). \<not> expires_at v \<le> now" unfolding q [symmetric] r(4) by (simp add: alive_def)
  then have lq: "alive now (w # q) = w # q" "alive now q = q" by (simp_all add: alive_def filter_id_conv)
  have u: "undelivered (set (routed s5)) w" using s4(4) h(3) by (auto simp: undelivered_def frame_def)
  show ?thesis
  proof (rule advancedI [of _ _ h, OF h(1)])
    show "map_of (leases s5) = (map_of (leases s))(key := h)" using h(2) s4(1) r(2) by simp
    show "frame s s5" by (rule frame_trans [OF r(3) frame_trans [OF s4(3) h(3)]])
    show "queue_in (pending_acquires s5) k = queue_in (pending_acquires s) k" if "k \<noteq> key" for k
      using h(4) [OF that] r(5) [OF that] that by (simp add: s4(2))
    show "fifo_outcome now (alive now (queue_in (pending_acquires s) key)) h (queue_in (pending_acquires s5) key) (set (routed s5))"
      using fifo_skip [OF h(5) u] by (simp only: r(4) [symmetric] q lq(2))
  qed (rule M)
qed

lemma revoke_ok:
  assumes s3: "book_on (M(key \<mapsto> st)) s3" and M: "M key = None"
  shows "\<exists>s4. forget_lease E (owner_session_id st) key (drop_lease key s3) = Some s4 \<and> book_on M s4
    \<and> leases s4 = AList.delete key (leases s3) \<and> pending_acquires s4 = pending_acquires s3 \<and> frame s3 s4"
proof -
  have b: "book_on (M(key \<mapsto> st)) (drop_lease key s3)" using s3 by (simp add: book_on_def drop_lease_def sorted_delete)
  have "frame s3 (drop_lease key s3)" by (simp add: frame_def drop_lease_def)
  with forget_ok [OF b, of key st E] M show ?thesis by (auto simp: drop_lease_def fun_upd_idem intro: frame_trans)
qed

lemma advance_ok:
  assumes "book_on M s" "map_of (leases s) key = M key"
  shows "\<exists>p s'. advance_waiter_queue E key now s = Some (p, s') \<and> advanced key now M s s'"
  using assms
proof (induction "pending_waiter_count key s" arbitrary: s rule: less_induct)
  case less
  obtain n s1 where s1: "expire_timed_out_waiters_for_key E key now s = (n, s1)" by fastforce
  have r: "reaped key now M s s1" using expire_ok [OF less.prems(1) s1] by (simp add: reaped_def)
  have L1: "map_of (leases s1) key = M key" using less.prems(2) reapedD(2) [OF r] by simp
  show ?case
  proof (cases "M key")
    case (Some st)
    then have "grant_front E key now s1 = (None, s1)" using L1 by (simp add: grant_front_def)
    with advanced_held [OF r Some less.prems(2)] s1 show ?thesis by (subst advance_waiter_queue.simps) simp
  next
    case None
    then have free: "map_of (leases s1) key = None" using L1 by simp
    from reapedD(1) [OF r] free show ?thesis
    proof (cases rule: grant_cases [of M s1 key E now])
      case 1
      with advanced_idle [OF r None less.prems(2)] s1 show ?thesis by (subst advance_waiter_queue.simps) simp
    next
      case (2 w q e)
      with advanced_overflow [OF r None less.prems(2) 2(1,2) refl] s1 show ?thesis by (subst advance_waiter_queue.simps) simp
    next
      case (3 w q t st)
      let ?s2 = "(set_queue key q s1)\<lparr>leases := btree_insert key st (leases s1)\<rparr>"
      obtain d s3 r' where s3: "announce_grant E key w st ?s2 = Some (d, s3)" "book_on (M(key \<mapsto> st)) s3"
        "leases s3 = btree_insert key st (leases s1)" "pending_acquires s3 = put_queue key q (pending_acquires s1)" "frame s1 s3"
        "(grant_message w, r') \<in> set (routed s3)" "d \<longleftrightarrow> r' = Delivered"
        using announce_ok [OF reapedD(1) [OF r] None 3(1,3) refl, of E] by blast
      show ?thesis
      proof (cases d)
        case True
        with s3(6,7) have "(grant_message w, Delivered) \<in> set (routed s3)" by simp
        from advanced_granted [OF r None 3(1-3) s3(2-5) this appends_counter] s1 3(4) s3(1) True
        show ?thesis by (subst advance_waiter_queue.simps) simp
      next
        case False
        have st: "owner_session_id st = w_session_id w" using 3(3) by (simp add: lease_for_def)
        obtain s4 where s4: "forget_lease E (w_session_id w) key (drop_lease key s3) = Some s4" "book_on M s4"
          "leases s4 = AList.delete key (leases s3)" "pending_acquires s4 = pending_acquires s3" "frame s3 s4"
          using revoke_ok [OF s3(2) None, of E] st by auto
        have less4: "pending_waiter_count key s4 < pending_waiter_count key s"
          using pending_expire [OF s1] pending_grant [OF 3(4)] pending_waiter_count_cong [of s4 ?s2 key] s4(4) s3(4)
          by (simp add: set_queue_put)
        have L4: "map_of (leases s4) = (map_of (leases s1))(key := None)" using s4(3) s3(3) by (simp add: delete_conv')
        from less.hyps [OF less4 s4(2)] L4 None obtain p s5 where s5: "advance_waiter_queue E key now s4 = Some (p, s5)"
          "advanced key now M s4 s5" by auto
        have f: "frame s1 s4" using s3(5) s4(5) by (rule frame_trans)
        have "undelivered (set (routed s4)) w" using s3(6,7) False s4(5) by (auto simp: undelivered_def frame_def)
        with advanced_skipped [OF r None 3(1) L4 _ f _ s5(2)] s3(4) s4(4) have "advanced key now M s s5" by simp
        with s1 3(4) s3(1) s4(1) s5(1) False show ?thesis by (subst advance_waiter_queue.simps) simp
      qed
    qed
  qed
qed

section \<open>After an advance\<close>

definition unexpired :: "instant \<Rightarrow> lease_state \<Rightarrow> lease_key \<Rightarrow> bool" where
  "unexpired now s k \<longleftrightarrow> (\<forall>st. map_of (leases s) k = Some st \<longrightarrow> now < expiry st)"

text \<open>A key is settled when nothing expired is left on it and it is held, or nobody waits for it, or a
  waiter was dropped because its time to live could no longer be represented.\<close>

definition settled :: "instant \<Rightarrow> pending_acquire set \<Rightarrow> lease_state \<Rightarrow> lease_key \<Rightarrow> bool" where
  "settled now Q s k \<longleftrightarrow> unexpired now s k \<and> (\<forall>w \<in> set (queue_in (pending_acquires s) k). now < expires_at w)
     \<and> (map_of (leases s) k = None \<longrightarrow> queue_in (pending_acquires s) k = [] \<or> (\<exists>w \<in> Q. \<exists>e. lease_expiry now (w_ttl_secs w) = Inl e))"

lemma settled_mono: "settled now Q s k \<Longrightarrow> Q \<subseteq> Q' \<Longrightarrow> settled now Q' s k"
  unfolding settled_def by blast

lemma lease_expiry_later: "lease_expiry now ttl = Inr t \<Longrightarrow> now < t"
  by (auto simp: lease_expiry_def checked_add_secs_def NANOS_def unat_gt_0 split: if_splits)

lemma fifo_settled:
  assumes "fifo_outcome now q h q' R"
  shows "set q' \<subseteq> set q" "\<And>st. h = Some st \<Longrightarrow> now < expiry st"
    "h = None \<Longrightarrow> q' = [] \<or> (\<exists>w \<in> set q. \<exists>e. lease_expiry now (w_ttl_secs w) = Inl e)"
proof -
  from assms obtain skipped where
    "q = skipped \<and> h = None \<and> q' = []
     \<or> (\<exists>w t st. q = skipped @ w # q' \<and> lease_expiry now (w_ttl_secs w) = Inr t \<and> h = Some st \<and> lease_for w t st
          \<and> (grant_message w, Delivered) \<in> R)
     \<or> (\<exists>w e. q = skipped @ w # q' \<and> lease_expiry now (w_ttl_secs w) = Inl e \<and> h = None)"
    unfolding fifo_outcome_def by blast
  then show "set q' \<subseteq> set q" "\<And>st. h = Some st \<Longrightarrow> now < expiry st"
    "h = None \<Longrightarrow> q' = [] \<or> (\<exists>w \<in> set q. \<exists>e. lease_expiry now (w_ttl_secs w) = Inl e)"
    by (elim disjE exE conjE; auto simp: lease_for_def dest: lease_expiry_later)+
qed

lemma advanced_settled:
  assumes a: "advanced key now M s s'" and M: "\<And>st. M key = Some st \<Longrightarrow> now < expiry st"
  shows "set (queue_in (pending_acquires s') key) \<subseteq> set (queue_in (pending_acquires s) key)"
    "settled now (set (queue_in (pending_acquires s) key)) s' key"
proof -
  let ?q = "queue_in (pending_acquires s) key" and ?q' = "queue_in (pending_acquires s') key"
  obtain h where h: "map_of (leases s') = (map_of (leases s))(key := h)"
    "if M key = None then fifo_outcome now (alive now ?q) h ?q' (set (routed s')) else h = M key \<and> ?q' = alive now ?q"
    using a by (auto simp: advanced_def)
  have "set ?q' \<subseteq> set (alive now ?q) \<and> (\<forall>st. h = Some st \<longrightarrow> now < expiry st)
      \<and> (h = None \<longrightarrow> ?q' = [] \<or> (\<exists>w \<in> set (alive now ?q). \<exists>e. lease_expiry now (w_ttl_secs w) = Inl e))"
    using h(2) M fifo_settled [of now "alive now ?q" h ?q' "set (routed s')"] by (auto split: if_splits)
  then show "set ?q' \<subseteq> set ?q" "settled now (set ?q) s' key"
    using h(1) by (auto simp: settled_def unexpired_def alive_def not_le)
qed

lemma advanced_other:
  "advanced key now M s s' \<Longrightarrow> k \<noteq> key \<Longrightarrow> map_of (leases s') k = map_of (leases s) k \<and>
    queue_in (pending_acquires s') k = queue_in (pending_acquires s) k"
  by (auto simp: advanced_def)

lemma advanced_frame: "advanced key now M s s' \<Longrightarrow> frame s s'"
  by (auto simp: advanced_def)

lemma advanced_book: "advanced key now M s s' \<Longrightarrow> book_on (M(key := map_of (leases s') key)) s'"
  by (auto simp: advanced_def)

text \<open>Keys whose lease and queue are the same in two states.\<close>

definition untouched :: "lease_state \<Rightarrow> lease_state \<Rightarrow> lease_key \<Rightarrow> bool" where
  "untouched s s' k \<longleftrightarrow> map_of (leases s') k = map_of (leases s) k \<and> queue_in (pending_acquires s') k = queue_in (pending_acquires s) k"

lemma untouched_settled: "untouched s s' k \<Longrightarrow> settled now Q s' k = settled now Q s k"
  by (simp add: untouched_def settled_def unexpired_def)

text \<open>The holder of a key got its token before those who wait for it.\<close>

definition ordered :: "lease_state \<Rightarrow> lease_key \<Rightarrow> bool" where
  "ordered s k \<longleftrightarrow> (\<forall>st w. map_of (leases s) k = Some st \<longrightarrow> w \<in> set (queue_in (pending_acquires s) k) \<longrightarrow> fencing_token st < queued_token w)"

text \<open>Nobody joins a queue, who holds a lease held it before or was waiting for it, and the order of
  tokens is kept.\<close>

definition shrinks :: "lease_state \<Rightarrow> lease_state \<Rightarrow> bool" where
  "shrinks s s' \<longleftrightarrow> (\<forall>k. set (queue_in (pending_acquires s') k) \<subseteq> set (queue_in (pending_acquires s) k))
     \<and> (\<forall>k st. map_of (leases s') k = Some st \<longrightarrow>
          map_of (leases s) k = Some st \<or> (\<exists>w \<in> set (queue_in (pending_acquires s) k). \<exists>t. lease_for w t st))
     \<and> (\<forall>k. ordered s k \<longrightarrow> ordered s' k)"

lemma shrinks_holder:
  "shrinks s s' \<Longrightarrow> map_of (leases s') k = Some st \<Longrightarrow>
    map_of (leases s) k = Some st \<or> (\<exists>w \<in> set (queue_in (pending_acquires s) k). \<exists>t. lease_for w t st)"
  by (simp add: shrinks_def)

lemma shrinks_ordered: "shrinks s s' \<Longrightarrow> ordered s k \<Longrightarrow> ordered s' k"
  by (simp add: shrinks_def)

lemma shrinks_queue: "shrinks s s' \<Longrightarrow> set (queue_in (pending_acquires s') k) \<subseteq> set (queue_in (pending_acquires s) k)"
  by (simp add: shrinks_def)

lemma shrinks_cong:
  "leases s1 = leases s \<Longrightarrow> pending_acquires s1 = pending_acquires s \<Longrightarrow> leases s2 = leases s' \<Longrightarrow> pending_acquires s2 = pending_acquires s' \<Longrightarrow>
    shrinks s1 s2 = shrinks s s'"
  by (simp add: shrinks_def ordered_def)

lemma shrinks_refl [simp]: "shrinks s s"
  by (simp add: shrinks_def)

lemma shrinks_trans: "shrinks s s' \<Longrightarrow> shrinks s' s'' \<Longrightarrow> shrinks s s''"
  unfolding shrinks_def by (meson subset_iff)

lemma fifo_holder:
  assumes "fifo_outcome now q (Some st) q' R" "queue_ok q"
  shows "\<exists>w \<in> set q. (\<exists>t. lease_for w t st) \<and> (\<forall>v \<in> set q'. queued_token w < queued_token v)"
proof -
  obtain skipped w t where "q = skipped @ w # q'" "lease_for w t st" using assms(1) unfolding fifo_outcome_def by auto
  moreover from this have "\<forall>v \<in> set q'. queued_token w < queued_token v" using assms(2) by (simp add: queue_ok_def sorted_wrt_append)
  ultimately show ?thesis by auto
qed

lemma advanced_holder:
  assumes a: "advanced key now M s s'" and M: "map_of (leases s) key = M key" and q: "queue_ok (queue_in (pending_acquires s) key)"
    and st: "map_of (leases s') key = Some st"
  shows "map_of (leases s) key = Some st \<and> set (queue_in (pending_acquires s') key) \<subseteq> set (queue_in (pending_acquires s) key)
    \<or> (\<exists>w \<in> set (queue_in (pending_acquires s) key). (\<exists>t. lease_for w t st) \<and> (\<forall>v \<in> set (queue_in (pending_acquires s') key). queued_token w < queued_token v))"
proof -
  let ?q = "queue_in (pending_acquires s) key"
  have "if M key = None then fifo_outcome now (alive now ?q) (Some st) (queue_in (pending_acquires s') key) (set (routed s'))
    else Some st = M key \<and> queue_in (pending_acquires s') key = alive now ?q"
    using a st by (auto simp: advanced_def split: if_splits)
  moreover have "queue_ok (alive now ?q)" unfolding alive_def by (rule queue_ok_filter [OF q])
  ultimately show ?thesis using M by (auto simp: alive_def split: if_splits dest!: fifo_holder)
qed

lemma advanced_shrinks:
  assumes a: "advanced key now M s s'" and M: "map_of (leases s) key = M key" "unexpired now s key" and q: "queue_ok (queue_in (pending_acquires s) key)"
  shows "shrinks s s'"
proof -
  have "now < expiry st" if "M key = Some st" for st using M that by (simp add: unexpired_def)
  note set1 = advanced_settled(1) [OF a this] and hold = advanced_holder [OF a M(1) q]
  have "set (queue_in (pending_acquires s') k) \<subseteq> set (queue_in (pending_acquires s) k)" for k
    using set1 advanced_other [OF a, of k] by (cases "k = key") auto
  moreover have "map_of (leases s) k = Some st \<or> (\<exists>w \<in> set (queue_in (pending_acquires s) k). \<exists>t. lease_for w t st)"
    if "map_of (leases s') k = Some st" for k st
    using hold [of st] advanced_other [OF a, of k] that by (cases "k = key") auto
  moreover have "ordered s' k" if "ordered s k" for k
    using that advanced_other [OF a, of k] hold by (cases "k = key") (fastforce simp: ordered_def lease_for_def)+
  ultimately show ?thesis by (simp add: shrinks_def)
qed

text \<open>Leases that have not expired stay with their holders.\<close>

definition keeps :: "instant \<Rightarrow> lease_state \<Rightarrow> lease_state \<Rightarrow> bool" where
  "keeps now s s' \<longleftrightarrow> (\<forall>k st. map_of (leases s) k = Some st \<longrightarrow> now < expiry st \<longrightarrow> map_of (leases s') k = Some st)"

lemma keeps_trans: "keeps now s s' \<Longrightarrow> keeps now s' s'' \<Longrightarrow> keeps now s s''"
  by (simp add: keeps_def)

lemma advanced_keeps:
  assumes a: "advanced key now M s s'" and M: "map_of (leases s) key = M key"
  shows "keeps now s s'"
  unfolding keeps_def
proof (intro allI impI)
  fix k st assume "map_of (leases s) k = Some st"
  with a M show "map_of (leases s') k = Some st" by (cases "k = key") (auto simp: advanced_def split: if_splits)
qed

lemma advance_each_ok:
  assumes "book_ok s" "\<And>k. k \<in> set ks \<Longrightarrow> unexpired now s k"
  shows "\<exists>s'. advance_each E now ks s = Some s' \<and> book_ok s' \<and> frame s s' \<and> shrinks s s' \<and> keeps now s s' \<and>
    (\<forall>k. if k \<in> set ks then settled now (set (queue_in (pending_acquires s) k)) s' k else untouched s s' k)"
  using assms
proof (induction ks arbitrary: s)
  case Nil
  then show ?case by (simp add: untouched_def keeps_def)
next
  case (Cons key ks)
  obtain p s1 where s1: "advance_waiter_queue E key now s = Some (p, s1)" and a: "advanced key now (map_of (leases s)) s s1"
    using advance_ok [OF Cons.prems(1) refl, of E key now] by blast
  have un: "unexpired now s key" using Cons.prems(2) by simp
  then have key: "now < expiry st" if "map_of (leases s) key = Some st" for st using that by (auto simp: unexpired_def)
  note set1 = advanced_settled [OF a key] and other = advanced_other [OF a]
  have "(map_of (leases s))(key := map_of (leases s1) key) = map_of (leases s1)" using other by auto
  then have ok1: "book_ok s1" using advanced_book [OF a] by simp
  have un1: "unexpired now s1 k" if "k \<in> set ks" for k
    using set1(2) other [of k] Cons.prems(2) [of k] that by (cases "k = key") (auto simp: settled_def unexpired_def)
  obtain s2 where s2: "advance_each E now ks s1 = Some s2" "book_ok s2" "frame s1 s2" "shrinks s1 s2"
    "\<And>k. if k \<in> set ks then settled now (set (queue_in (pending_acquires s1) k)) s2 k else untouched s1 s2 k" "keeps now s1 s2"
    using Cons.IH [OF ok1 un1] by blast
  have sh: "shrinks s s1" by (rule advanced_shrinks [OF a refl un]) (use book_onD(3) [OF Cons.prems(1)] in \<open>simp add: waiters_ok_def\<close>)
  have "if k \<in> set (key # ks) then settled now (set (queue_in (pending_acquires s) k)) s2 k else untouched s s2 k" for k
  proof (cases "k \<in> set ks")
    case True
    with s2(5) [of k] settled_mono [OF _ shrinks_queue [OF sh]] show ?thesis by auto
  next
    case False
    with s2(5) [of k] set1(2) other [of k] untouched_settled [of s1 s2 k] show ?thesis
      by (cases "k = key") (auto simp: untouched_def)
  qed
  with s1 s2 advanced_frame [OF a] sh advanced_keeps [OF a refl] show ?case by (auto intro: frame_trans shrinks_trans keeps_trans)
qed

end
