(* ===== verification/Lease_Sweep.thy ===== *)
theory Lease_Sweep
  imports Lease_Advance
begin

text \<open>
  The two routines that release many leases at once: the periodic \<open>sweep_expired_state\<close>, after which no
  expired lease or waiter is left and no key with waiters is idle, and \<open>cleanup_session\<close>, after which the
  session owns nothing. Both never panic on a good book and keep it good.
\<close>

section \<open>Draining every queue\<close>

lemma drain_all_fst:
  "fst (drain_all now P) = concat (map (\<lambda>(k, q). map (Pair k) (filter (\<lambda>w. expires_at w \<le> now) q)) P)"
  by (simp add: drain_all_def drain_expired_waiters_filter)

lemma drain_all_snd:
  "snd (drain_all now P) = filter (\<lambda>(k, q). q \<noteq> []) (map (\<lambda>(k, q). (k, alive now q)) P)"
  by (simp add: drain_all_def drain_expired_waiters_filter alive_def)

lemma queue_in_drained: "distinct (map fst P) \<Longrightarrow> queue_in (snd (drain_all now P)) k = alive now (queue_in P k)"
proof (induction P)
  case Nil
  then show ?case by (simp add: drain_all_snd queue_in_def entry_or_def alive_def)
next
  case (Cons x P)
  obtain j q where x: "x = (j, q)" by (cases x)
  have absent: "map_of (snd (drain_all now P)) j = None" if "j \<notin> fst ` set P"
    using that by (force simp: drain_all_snd map_of_eq_None_iff)
  show ?case
    using Cons x absent by (auto simp: drain_all_snd queue_in_def entry_or_def)
qed

lemma drained_refs:
  assumes "waiters_ok P SW"
  shows "r \<in> refs (fst (drain_all now P)) \<longleftrightarrow> (\<exists>w \<in> set (queue_in P (fst r)). expires_at w \<le> now \<and> r = (fst r, queued_token w))"
    "\<forall>(k, w) \<in> set (fst (drain_all now P)). waiting P (k, queued_token w) = Some w"
proof -
  have d: "distinct (map fst P)" and q: "\<And>k. queue_ok (queue_in P k)" using assms by (simp_all add: waiters_ok_def)
  have mem: "(k, w) \<in> set (fst (drain_all now P)) \<longleftrightarrow> w \<in> set (queue_in P k) \<and> expires_at w \<le> now" for k w
  proof -
    have "(\<exists>q. (k, q) \<in> set P \<and> w \<in> set q) \<longleftrightarrow> w \<in> set (queue_in P k)"
      using d by (auto simp: queue_in_def entry_or_def split: option.splits dest: map_of_SomeD)
    then show ?thesis by (auto simp: drain_all_fst)
  qed
  show "r \<in> refs (fst (drain_all now P)) \<longleftrightarrow> (\<exists>w \<in> set (queue_in P (fst r)). expires_at w \<le> now \<and> r = (fst r, queued_token w))"
    using mem by (cases r) force
  show "\<forall>(k, w) \<in> set (fst (drain_all now P)). waiting P (k, queued_token w) = Some w"
    using mem waiting_iff [OF q] by auto
qed

lemma drained_distinct:
  "distinct (map fst P) \<Longrightarrow> (\<And>k q. (k, q) \<in> set P \<Longrightarrow> distinct (map queued_token q)) \<Longrightarrow>
    distinct (map (\<lambda>(k, w). (k, queued_token w)) (fst (drain_all now P)))"
proof (induction P)
  case (Cons x P)
  obtain k q where x: "x = (k, q)" by (cases x)
  let ?f = "\<lambda>(k, w). (k, queued_token w)"
  have "distinct (map queued_token (filter (\<lambda>w. expires_at w \<le> now) q))" using Cons.prems(2) [of k q] x by (simp add: distinct_map_filter)
  then have "distinct (map ?f (map (Pair k) (filter (\<lambda>w. expires_at w \<le> now) q)))"
    by (simp add: comp_def distinct_map inj_on_def)
  moreover have "distinct (map ?f (fst (drain_all now P)))" using Cons by (auto intro: Cons.IH)
  moreover have "?f ` set (map (Pair k) (filter (\<lambda>w. expires_at w \<le> now) q)) \<inter> ?f ` set (fst (drain_all now P)) = {}"
    using Cons.prems(1) x by (force simp: drain_all_fst)
  moreover have "fst (drain_all now (x # P)) = map (Pair k) (filter (\<lambda>w. expires_at w \<le> now) q) @ fst (drain_all now P)"
    by (simp add: x drain_all_fst)
  ultimately show ?case by (simp only: map_append distinct_append set_map)
qed (simp add: drain_all_def)

lemma drain_all_ok:
  assumes ok: "waiters_ok P SW"
  shows "waiters_ok (snd (drain_all now P)) (untrack_all (fst (drain_all now P)) SW)"
proof -
  let ?ex = "fst (drain_all now P)" and ?P = "snd (drain_all now P)"
  have d: "distinct (map fst P)" and ne: "[] \<notin> snd ` set P" and q: "\<And>k. queue_ok (queue_in P k)"
    using ok by (simp_all add: waiters_ok_def)
  have "distinct (map queued_token ws)" if "(k, ws) \<in> set P" for k ws
    using that d queue_ok_distinct [OF q [of k]] by (simp add: queue_in_def entry_or_def)
  then have "\<forall>j. grouped (map_of (untrack_all ?ex SW)) (\<lambda>r. if r \<in> refs ?ex then None else waiting P r) by_waiter j"
    using ok d drained_refs(2) [OF ok, of now] by (intro grouped_untrack_all drained_distinct) (auto simp: waiters_ok_def)
  moreover have "(\<lambda>r. if r \<in> refs ?ex then None else waiting P r) = waiting ?P"
  proof
    fix r :: pending_acquire_ref
    obtain k t where r: "r = (k, t)" by (cases r)
    have "queue_in ?P k = filter (\<lambda>w. \<not> expires_at w \<le> now) (queue_in P k)" using queue_in_drained [OF d, of now k] by (simp add: alive_def)
    then have "waiting ?P r = waiting (put_queue k (filter (\<lambda>w. \<not> expires_at w \<le> now) (queue_in P k)) P) r"
      by (simp add: waiting_def r)
    also have "\<dots> = (if r \<in> refs ?ex then None else waiting P r)"
      unfolding waiting_filter [OF q] drained_refs(1) [OF ok] using r by auto
    finally show "(if r \<in> refs ?ex then None else waiting P r) = waiting ?P r" by simp
  qed
  moreover have "distinct (map fst ?P)" using d by (auto simp: drain_all_snd comp_def split_def intro!: distinct_map_filter)
  ultimately show ?thesis
    using queue_in_drained [OF d] queue_ok_filter [OF q] by (auto simp: waiters_ok_def drain_all_snd alive_def)
qed

section \<open>Releasing the expired leases\<close>

lemma force_release_each_ok:
  assumes "book_on M s" "\<And>k st. (k, st) \<in> set xs \<Longrightarrow> M k = Some st \<and> map_of (leases s) k = None" "distinct (map fst xs)"
    "\<And>k. k \<notin> fst ` set xs \<Longrightarrow> map_of (leases s) k = M k" "\<And>k. unexpired now s k"
  shows "\<exists>s'. force_release_each E now xs s = Some s' \<and> book_ok s' \<and> frame s s' \<and> shrinks s s' \<and> keeps now s s' \<and> (\<forall>k. unexpired now s' k)"
  using assms
proof (induction xs arbitrary: s M)
  case Nil
  then have "map_of (leases s) = M" by auto
  with Nil show ?case by (auto simp: keeps_def)
next
  case (Cons x xs)
  obtain key st where x: "x = (key, st)" by (cases x)
  let ?s0 = "counter_inc ''fitz_lease_forced_releases_total'' s"
  have a0: "appends s ?s0" by simp
  have M: "M key = Some st" "map_of (leases s) key = None" using Cons.prems(2) [of key st] x by auto
  have "book_on M ?s0" using appends_book [OF a0] Cons.prems(1) by simp
  from forget_ok [OF this M(1), of E] obtain s1 where s1: "forget_lease E (owner_session_id st) key ?s0 = Some s1"
    "book_on (M(key := None)) s1" "leases s1 = leases s" "pending_acquires s1 = pending_acquires s" "frame ?s0 s1"
    using appends_fields(1,3) [OF a0] by auto
  have "map_of (leases s1) key = (M(key := None)) key" using M(2) s1(3) by simp
  from advance_ok [OF s1(2) this, of E now] obtain p s2 where s2: "advance_waiter_queue E key now s1 = Some (p, s2)"
    and a: "advanced key now (M(key := None)) s1 s2" by blast
  have sh: "shrinks s1 s2" and se: "settled now (set (queue_in (pending_acquires s1) key)) s2 key"
    using advanced_shrinks [OF a] advanced_settled(2) [OF a] M(2) s1(3) book_onD(3) [OF s1(2)] by (simp_all add: unexpired_def waiters_ok_def)
  note other = advanced_other [OF a]
  let ?M = "M(key := map_of (leases s2) key)"
  have b2: "book_on ?M s2" using advanced_book [OF a] by simp
  have keys: "key \<notin> fst ` set xs" using Cons.prems(3) x by simp
  have "\<exists>s'. force_release_each E now xs s2 = Some s' \<and> book_ok s' \<and> frame s2 s' \<and> shrinks s2 s' \<and> keeps now s2 s' \<and> (\<forall>k. unexpired now s' k)"
  proof (rule Cons.IH [OF b2])
    show "?M k = Some st' \<and> map_of (leases s2) k = None" if "(k, st') \<in> set xs" for k st'
      using that Cons.prems(2) [of k st'] keys other [of k] s1(3) by (cases "k = key") (auto simp: rev_image_eqI)
    show "map_of (leases s2) k = ?M k" if "k \<notin> fst ` set xs" for k
      using that Cons.prems(4) [of k] other [of k] s1(3) x by (cases "k = key") auto
    show "unexpired now s2 k" for k
      using se Cons.prems(5) [of k] other [of k] s1(3) by (cases "k = key") (auto simp: settled_def unexpired_def)
  qed (use Cons.prems(3) in simp)
  moreover have "frame s s2" using appends_frame [OF a0] s1(5) advanced_frame [OF a] by (blast intro: frame_trans)
  moreover have "shrinks s s2" using sh shrinks_cong [OF s1(3,4) refl refl] by simp
  moreover have "keeps now s s2" using advanced_keeps [OF a] M(2) s1(3) by (simp add: keeps_def)
  ultimately show ?case using x s1(1) s2 by (auto intro: frame_trans shrinks_trans keeps_trans)
qed

section \<open>The sweep\<close>

lemma book_refresh [simp]: "book_on M (refresh_metrics_gauges s) = book_on M s"
  by (simp add: refresh_metrics_gauges_def set_lease_family_waiter_count_def live_counts_def book_on_def Let_def)

lemma refresh_fields [simp]:
  "leases (refresh_metrics_gauges s) = leases s" "pending_acquires (refresh_metrics_gauges s) = pending_acquires s"
  "session_leases (refresh_metrics_gauges s) = session_leases s" "session_waiters (refresh_metrics_gauges s) = session_waiters s"
  "families (refresh_metrics_gauges s) = families s" "list_snapshots (refresh_metrics_gauges s) = list_snapshots s"
  "cleaned_up (refresh_metrics_gauges s) = cleaned_up s" "own_family (refresh_metrics_gauges s) = own_family s"
  "next_token (refresh_metrics_gauges s) = next_token s" "routed (refresh_metrics_gauges s) = routed s"
  by (simp_all add: refresh_metrics_gauges_def set_lease_family_waiter_count_def live_counts_def Let_def)

lemma settled_cong:
  "leases s' = leases s \<Longrightarrow> pending_acquires s' = pending_acquires s \<Longrightarrow> settled now Q s' k = settled now Q s k"
  by (simp add: settled_def unexpired_def)

lemma map_of_filter_entries:
  fixes m :: "('k::linorder \<times> 'v) list"
  shows "sorted_wrt (<) (map fst m) \<Longrightarrow> map_of (filter (\<lambda>(k, v). P v) m) k = (case map_of m k of Some v \<Rightarrow> if P v then Some v else None | None \<Rightarrow> None)"
proof (induction m)
  case (Cons x m)
  obtain j v where x: "x = (j, v)" by (cases x)
  have "map_of m j = None" using sorted_distinct [OF Cons.prems] x by (simp add: map_of_eq_None_iff)
  with Cons x show ?case by auto
qed simp

text \<open>After the waiters are reaped and the expired leases removed.\<close>

lemma sweep_reap:
  assumes ok: "book_ok s" and s1: "s1 = fold (\<lambda>(k, w). timeout_waiter E k w) (fst (drain_all now (pending_acquires s)))
      (s\<lparr>pending_acquires := snd (drain_all now (pending_acquires s))\<rparr>)"
    and s2: "s2 = s1\<lparr>leases := filter (\<lambda>(k, st). \<not> expiry st \<le> now) (leases s1)\<rparr>"
  shows "book_on (map_of (leases s)) s2" "frame s s2" "shrinks s s2" "leases s1 = leases s" "\<And>k. unexpired now s2 k"
    "\<And>k. map_of (leases s2) k = (case map_of (leases s) k of Some st \<Rightarrow> if \<not> expiry st \<le> now then Some st else None | None \<Rightarrow> None)"
proof -
  let ?P = "snd (drain_all now (pending_acquires s))" and ?ex = "fst (drain_all now (pending_acquires s))"
  let ?s0 = "s\<lparr>pending_acquires := ?P, session_waiters := untrack_all ?ex (session_waiters s)\<rparr>"
  define f where "f = (\<lambda>(k, w). timeout_waiter E k w)"
  have "appends (untrack_session_waiter (w_session_id w) k (queued_token w) s) (f (k, w) s)" for k w s
    by (simp add: f_def timeout_waiter_def appends_send)
  from timeouts_appends [of f, OF this, of ?ex "s\<lparr>pending_acquires := ?P\<rparr>"] have a: "appends ?s0 s1"
    unfolding s1 f_def by simp
  have w: "waiters_ok (pending_acquires s) (session_waiters s)" by (rule book_onD(3) [OF ok])
  then have q: "queue_in ?P k = alive now (queue_in (pending_acquires s) k)" for k by (simp add: waiters_ok_def queue_in_drained)
  have sub: "set (queue_in ?P k) \<subseteq> set (queue_in (pending_acquires s) k)" for k by (auto simp: q alive_def)
  have "tokens_ok (next_token s) (map_of (leases s)) ?P" "keys_ok (own_family s) (map_of (leases s)) ?P"
    by (rule tokens_ok_queue [OF book_onD(4) [OF ok] sub], rule keys_ok_queue [OF book_onD(6) [OF ok] sub])
  with ok drain_all_ok [OF w, of now] have "book_on (map_of (leases s)) ?s0" by (simp add: book_on_def)
  then have b1: "book_on (map_of (leases s)) s1" using appends_book [OF a] by simp
  show L: "leases s1 = leases s" using appends_fields(1) [OF a] by simp
  have sorted: "sorted_wrt (<) (map fst (leases s))" by (rule book_onD(1) [OF ok])
  then have "sorted_wrt (<) (map fst (filter (\<lambda>(k, st). \<not> expiry st \<le> now) (leases s)))"
    by (simp add: sorted_wrt_map sorted_wrt_filter)
  with b1 show "book_on (map_of (leases s)) s2" by (simp add: s2 book_on_def L)
  have "frame s s1" using appends_frame [OF a] by (simp add: frame_def)
  then show "frame s s2" by (simp add: s2 frame_def)
  show m: "map_of (leases s2) k = (case map_of (leases s) k of Some st \<Rightarrow> if \<not> expiry st \<le> now then Some st else None | None \<Rightarrow> None)" for k
    using map_of_filter_entries [OF sorted, of "\<lambda>st. \<not> expiry st \<le> now" k] by (simp add: s2 L)
  then show "unexpired now s2 k" for k by (auto simp: unexpired_def split: option.splits if_splits)
  have "map_of (leases s) k = Some st" if "map_of (leases s2) k = Some st" for k st
    using that unfolding m by (simp split: option.splits if_splits)
  moreover have "set (queue_in (pending_acquires s2) k) \<subseteq> set (queue_in (pending_acquires s) k)" for k
    using appends_fields(3) [OF a] sub by (simp add: s2)
  ultimately show "shrinks s s2" unfolding shrinks_def ordered_def by (meson subset_iff)
qed

definition clock_now :: "lease_env \<Rightarrow> lease_state \<Rightarrow> instant" where
  "clock_now E s = clock E (readings s)"

text \<open>What a sweep and a cleanup leave alone.\<close>

definition kept :: "lease_state \<Rightarrow> lease_state \<Rightarrow> bool" where
  "kept s s' \<longleftrightarrow> own_family s' = own_family s \<and> cleaned_up s' = cleaned_up s \<and> next_token s' = next_token s
     \<and> families s' = families s \<and> next_sub_id s' = next_sub_id s"

lemma frame_kept: "frame s s' \<Longrightarrow> kept s s'"
  by (simp add: frame_def kept_def)

lemma kept_trans: "kept s s' \<Longrightarrow> kept s' s'' \<Longrightarrow> kept s s''"
  by (simp add: kept_def)

lemma kept_refresh: "kept s (refresh_metrics_gauges s)"
  by (simp add: kept_def refresh_metrics_gauges_def set_lease_family_waiter_count_def live_counts_def Let_def)

lemma sweep_ok:
  assumes ok: "book_ok s"
  shows "\<exists>s'. sweep_expired_state E s = Some s' \<and> book_ok s' \<and> kept s s' \<and> shrinks s s' \<and> keeps (clock_now E s) s s' \<and>
    (\<forall>k. settled (clock_now E s) (set (queue_in (pending_acquires s) k)) s' k)"
proof -
  let ?now = "clock_now E s" and ?s = "s\<lparr>readings := readings s + 1\<rparr>"
  define s1 where "s1 = fold (\<lambda>(k, w). timeout_waiter E k w) (fst (drain_all ?now (pending_acquires ?s)))
      (?s\<lparr>pending_acquires := snd (drain_all ?now (pending_acquires ?s))\<rparr>)"
  define s2 where "s2 = s1\<lparr>leases := filter (\<lambda>(k, st). \<not> expiry st \<le> ?now) (leases s1)\<rparr>"
  have "book_on (map_of (leases s)) ?s" using appends_book [of s ?s "map_of (leases s)"] ok by (simp add: appends_def)
  then have ok': "book_ok ?s" by simp
  note r = sweep_reap [OF ok' s1_def s2_def]
  have sorted: "sorted_wrt (<) (map fst (leases s))" by (rule book_onD(1) [OF ok])
  let ?xs = "expired_entries ?now (leases s1)"
  have x: "(k, st) \<in> set ?xs \<longleftrightarrow> map_of (leases s) k = Some st \<and> expiry st \<le> ?now" for k st
    using r(4) sorted_distinct [OF sorted] by (auto simp: expired_entries_def)
  have "\<exists>s3. force_release_each E ?now ?xs s2 = Some s3 \<and> book_ok s3 \<and> frame s2 s3 \<and> shrinks s2 s3 \<and> keeps ?now s2 s3 \<and> (\<forall>k. unexpired ?now s3 k)"
  proof (rule force_release_each_ok [OF r(1)])
    show "map_of (leases ?s) k = Some st \<and> map_of (leases s2) k = None" if "(k, st) \<in> set ?xs" for k st
      using that by (simp add: x r(6))
    show "distinct (map fst ?xs)" using r(4) sorted_distinct [OF sorted] by (simp add: expired_entries_def distinct_map_filter)
    show "map_of (leases s2) k = map_of (leases ?s) k" if "k \<notin> fst ` set ?xs" for k
      using that x [of k] by (force simp: r(6) split: option.splits)
  qed (rule r(5))
  then obtain s3 where s3: "force_release_each E ?now ?xs s2 = Some s3" "book_ok s3" "frame s2 s3" "shrinks s2 s3" "\<And>k. unexpired ?now s3 k"
    and k3: "keeps ?now s2 s3"
    by blast
  obtain s4 where s4: "advance_each E ?now (map fst (pending_acquires s3)) s3 = Some s4" "book_ok s4" "frame s3 s4" "shrinks s3 s4"
    "\<And>k. if k \<in> set (map fst (pending_acquires s3)) then settled ?now (set (queue_in (pending_acquires s3) k)) s4 k else untouched s3 s4 k"
    and k4: "keeps ?now s3 s4"
    using advance_each_ok [OF s3(2,5), of E "map fst (pending_acquires s3)"] by blast
  let ?s5 = "refresh_metrics_gauges (sweep_idle_list_snapshots E s4)"
  have "sweep_expired_state E s = do {
      s \<leftarrow> force_release_each E ?now ?xs s2;
      s \<leftarrow> advance_each E ?now (map fst (pending_acquires s)) s;
      Some (refresh_metrics_gauges (sweep_idle_list_snapshots E s)) }"
    by (simp add: sweep_expired_state_def instant_now_def s1_def s2_def clock_now_def Let_def split_def)
  then have res: "sweep_expired_state E s = Some ?s5" using s3(1) s4(1) by simp
  have sh3: "shrinks s s3" using shrinks_trans [OF r(3) s3(4)] shrinks_cong [of ?s s s3 s3] by simp
  have sh: "shrinks s s4" by (rule shrinks_trans [OF sh3 s4(4)])
  have "settled ?now (set (queue_in (pending_acquires s) k)) s4 k" for k
  proof (cases "k \<in> set (map fst (pending_acquires s3))")
    case True
    have "set (queue_in (pending_acquires s3) k) \<subseteq> set (queue_in (pending_acquires s) k)" by (rule shrinks_queue [OF sh3])
    with True s4(5) [of k] show ?thesis by (auto intro: settled_mono)
  next
    case False
    then have "map_of (pending_acquires s3) k = None" by (force simp: map_of_eq_None_iff)
    with False s4(5) [of k] s3(5) [of k] show ?thesis by (simp add: settled_def untouched_def unexpired_def map_of_queue)
  qed
  moreover have i: "leases (sweep_idle_list_snapshots E s4) = leases s4" "pending_acquires (sweep_idle_list_snapshots E s4) = pending_acquires s4"
    "book_on M (sweep_idle_list_snapshots E s4) = book_on M s4" "kept s4 (sweep_idle_list_snapshots E s4)" for M
    by (simp_all add: sweep_idle_list_snapshots_def instant_now_def book_on_def kept_def Let_def)
  moreover have "keeps ?now s s4"
  proof -
    have "keeps ?now s s2" unfolding keeps_def by (simp add: r(6) split: option.splits)
    with k3 k4 show ?thesis by (blast intro: keeps_trans)
  qed
  then have "keeps ?now s ?s5" using i(1) by (simp add: keeps_def)
  moreover have "kept s s4" using r(2) s3(3) s4(3) by (simp add: kept_def frame_def)
  ultimately show ?thesis using res s4(2) sh
    by (auto simp: settled_cong [of ?s5 s4] shrinks_cong [of s s ?s5 s4] intro: kept_trans [OF _ kept_refresh] kept_trans)
qed

end
