(* ===== verification/Session_Scope.thy ===== *)
theory Session_Scope
  imports Lease_Model
begin

text \<open>
  The disconnect protocol that session-scoped domains share (\<^verbatim>\<open>src/runtime/cleanup_guard.rs\<close>): the
  bounded memory of cleaned-up sessions, and the contract of a domain that releases the resources of a
  session only after marking it.
\<close>

section \<open>The memory of cleaned-up sessions\<close>

definition cleaned_ok :: "cleaned_up_sessions \<Rightarrow> bool" where
  "cleaned_ok c \<longleftrightarrow> distinct (cleaned_order c) \<and> set (cleaned_seen c) = set (cleaned_order c)
     \<and> length (cleaned_order c) \<le> cleaned_capacity c \<and> 0 < cleaned_capacity c"

lemma cleaned_ok_new: "cleaned_ok (cleaned_up_sessions_new n)"
  by (simp add: cleaned_ok_def cleaned_up_sessions_new_def)

lemma cleaned_ok_contains: "cleaned_ok c \<Longrightarrow> contains c x \<longleftrightarrow> x \<in> set (cleaned_order c)"
  by (simp add: cleaned_ok_def contains_def)

lemma mark_cases:
  assumes ok: "cleaned_ok c"
  obtains "contains c x" "mark x c = c"
  | "\<not> contains c x" "length (cleaned_order c) < cleaned_capacity c" "cleaned_order (mark x c) = cleaned_order c @ [x]"
  | y ys where "\<not> contains c x" "cleaned_order c = y # ys" "Suc (length ys) = cleaned_capacity c" "cleaned_order (mark x c) = ys @ [x]"
proof (cases "contains c x")
  case True
  then show thesis by (intro that(1)) (simp_all add: mark_def contains_def)
next
  case False
  show thesis
  proof (cases "length (cleaned_order c) < cleaned_capacity c")
    case True
    with False show thesis by (intro that(2)) (simp_all add: mark_def contains_def)
  next
    case full: False
    then obtain y ys where "cleaned_order c = y # ys" using ok by (cases "cleaned_order c") (auto simp: cleaned_ok_def)
    with False full ok show thesis by (intro that(3) [of y ys]) (auto simp: mark_def contains_def cleaned_ok_def)
  qed
qed

lemma mark_ok:
  assumes ok: "cleaned_ok c"
  shows "cleaned_ok (mark x c)" "contains (mark x c) x" "cleaned_capacity (mark x c) = cleaned_capacity c"
proof -
  show cap: "cleaned_capacity (mark x c) = cleaned_capacity c" by (simp add: mark_def Let_def split: list.splits)
  have "cleaned_ok (mark x c) \<and> contains (mark x c) x"
  proof (cases rule: mark_cases [OF ok, of x])
    case 1
    then show ?thesis using ok by simp
  next
    case 2
    then have "cleaned_seen (mark x c) = cleaned_seen c @ [x]" by (simp add: mark_def contains_def)
    with 2 ok cap show ?thesis by (auto simp: cleaned_ok_def contains_def)
  next
    case (3 y ys)
    then have s: "cleaned_seen (mark x c) = filter (\<lambda>z. z \<noteq> y) (cleaned_seen c @ [x])" by (simp add: mark_def contains_def)
    have "y \<notin> set ys" "x \<noteq> y" "distinct ys" "x \<notin> set ys" using 3 ok by (auto simp: cleaned_ok_def contains_def)
    with 3 ok cap s show ?thesis by (auto simp: cleaned_ok_def contains_def)
  qed
  then show "cleaned_ok (mark x c)" "contains (mark x c) x" by simp_all
qed

text \<open>Behind a session only those marked later stand.\<close>

lemma remembered:
  assumes "cleaned_ok c" "cleaned_order c = ys @ x # zs" "length zs + length xs < cleaned_capacity c"
  shows "contains (fold mark xs c) x"
  using assms
proof (induction xs arbitrary: c ys zs)
  case Nil
  then show ?case by (simp add: cleaned_ok_contains)
next
  case (Cons a xs)
  note m = mark_ok [OF Cons.prems(1), of a]
  have "\<exists>ys' zs'. cleaned_order (mark a c) = ys' @ x # zs' \<and> length zs' \<le> Suc (length zs)"
  proof (cases rule: mark_cases [OF Cons.prems(1), of a])
    case 1
    then show ?thesis using Cons.prems(2) by - (rule exI [of _ ys], rule exI [of _ zs], simp)
  next
    case 2
    then show ?thesis using Cons.prems(2) by - (rule exI [of _ ys], rule exI [of _ "zs @ [a]"], simp)
  next
    case (3 b bs)
    then have "ys \<noteq> []" using Cons.prems(2,3) by (cases ys) auto
    then show ?thesis using 3 Cons.prems(2) by - (rule exI [of _ "tl ys"], rule exI [of _ "zs @ [a]"], cases ys, auto)
  qed
  then obtain ys' zs' where "cleaned_order (mark a c) = ys' @ x # zs'" "length zs' \<le> Suc (length zs)" by blast
  with Cons.IH [OF m(1) this(1)] Cons.prems(3) m(3) show ?case by simp
qed

section \<open>The contract of a session-scoped domain\<close>

text \<open>
  A domain has a state with the memory in it, an invariant, and a release step that is only called for a
  marked session. It promises that the release returns, keeps the invariant and the memory, and leaves the
  session with nothing.
\<close>

locale session_scoped =
  fixes cleaned :: "'s \<Rightarrow> cleaned_up_sessions"
    and set_cleaned :: "cleaned_up_sessions \<Rightarrow> 's \<Rightarrow> 's"
    and release :: "u64 \<Rightarrow> 's \<Rightarrow> 's option"
    and inv :: "'s \<Rightarrow> bool"
    and bare :: "u64 \<Rightarrow> 's \<Rightarrow> bool"
  assumes cleaned_set: "cleaned (set_cleaned c s) = c"
    and inv_mark: "inv s \<Longrightarrow> inv (set_cleaned (mark sess (cleaned s)) s)"
    and inv_cleaned: "inv s \<Longrightarrow> cleaned_ok (cleaned s)"
    and release_law: "inv s \<Longrightarrow> contains (cleaned s) sess \<Longrightarrow>
      \<exists>s'. release sess s = Some s' \<and> inv s' \<and> bare sess s' \<and> cleaned s' = cleaned s"
begin

lemma cleanup_law:
  assumes "inv s"
  shows "\<exists>s'. release sess (set_cleaned (mark sess (cleaned s)) s) = Some s' \<and> inv s' \<and> bare sess s' \<and>
    cleaned s' = mark sess (cleaned s) \<and> contains (cleaned s') sess"
proof -
  let ?c = "mark sess (cleaned s)"
  have c: "contains ?c sess" using mark_ok(2) inv_cleaned [OF assms] by blast
  have "inv (set_cleaned ?c s)" "contains (cleaned (set_cleaned ?c s)) sess"
    using inv_mark [OF assms] c by (simp_all add: cleaned_set)
  from release_law [OF this] c show ?thesis by (auto simp: cleaned_set)
qed

text \<open>Cleaning up a sequence of sessions.\<close>

lemma cleanups_law:
  assumes "inv s"
  shows "\<exists>s'. foldl (\<lambda>r sess. Option.bind r (\<lambda>s. release sess (set_cleaned (mark sess (cleaned s)) s))) (Some s) xs = Some s' \<and>
    inv s' \<and> cleaned s' = fold mark xs (cleaned s)"
  using assms
proof (induction xs arbitrary: s)
  case (Cons x xs)
  obtain s1 where s1: "release x (set_cleaned (mark x (cleaned s)) s) = Some s1" "inv s1" "cleaned s1 = mark x (cleaned s)"
    using cleanup_law [OF Cons.prems, of x] by blast
  from Cons.IH [OF s1(2)] s1 show ?case by simp
qed simp

end

end
