(* ===== verification/Lease_Cleanup.thy ===== *)
theory Lease_Cleanup
  imports Lease_Sweep Session_Scope
begin

text \<open>
  The release of everything a session owns (\<open>cleanup_session\<close>): its waiters leave their queues, its
  leases and subscriptions are removed, its list snapshots dropped, and the queues of the keys it held
  advance. It never panics on a good book, keeps it good, and afterwards the session owns nothing, although
  the queues were served in between.
\<close>

section \<open>The waiters of a session\<close>

lemma filter_drop_one:
  assumes "distinct (map f q)" "i < length q"
  shows "filter (\<lambda>v. f v \<notin> R) (remove_at i q) = filter (\<lambda>v. f v \<notin> insert (f (q ! i)) R) q"
proof -
  have "filter (\<lambda>v. f v \<notin> R) (filter (\<lambda>v. f v \<noteq> f (q ! i)) q) = filter (\<lambda>v. f v \<notin> insert (f (q ! i)) R) q"
    by (auto intro: filter_cong)
  then show ?thesis using filter_other_tokens(1) [OF assms] by simp
qed

lemma queue_in_update [simp]: "queue_in (AList.update k q P) j = (if j = k then q else queue_in P j)"
  by (simp add: queue_in_def entry_or_def update_conv')

text \<open>Emptied queues stay in the map until the end, their keys remembered.\<close>

definition emptied :: "(lease_key \<times> pending_acquire list) list \<Rightarrow> lease_key list \<Rightarrow> bool" where
  "emptied P ks \<longleftrightarrow> distinct (map fst P) \<and> (\<forall>k. map_of P k = Some [] \<longrightarrow> k \<in> set ks) \<and> (\<forall>k \<in> set ks. queue_in P k = [])"

lemma remove_waiter_ref_ok:
  assumes e: "emptied P ks" and d: "\<And>k. distinct (map queued_token (queue_in P k))"
  obtains P' ks' n' where "remove_waiter_ref (key, t) (P, ks, n) = (P', ks', n')" "emptied P' ks'"
    "\<And>k. queue_in P' k = filter (\<lambda>w. (k, queued_token w) \<noteq> (key, t)) (queue_in P k)"
proof (cases "map_of P key")
  case None
  then show thesis using e by (intro that [of P ks n]) (auto simp: remove_waiter_ref_def queue_in_def entry_or_def)
next
  case (Some q)
  have q: "queue_in P key = q" by (simp add: map_of_queue Some)
  define q' where "q' = filter (\<lambda>w. queued_token w \<noteq> t) q"
  let ?P = "AList.update key q' P" and ?ks = "if q' = [] then ks @ [key] else ks"
  have dq: "distinct (map queued_token q)" using d [of key] q by simp
  have r: "\<exists>m. remove_waiter_ref (key, t) (P, ks, n) = (?P, ?ks, m)"
  proof (cases "position (\<lambda>w. queued_token w = t) q")
    case None
    then have "q' = q" by (auto simp: q'_def position_None_iff filter_id_conv)
    with None Some show ?thesis by (simp add: remove_waiter_ref_def)
  next
    case p: (Some i)
    then have "i < length q" "queued_token (q ! i) = t" using position_SomeD [OF p] by auto
    with filter_other_tokens(1) [OF dq, of i] have "remove_at i q = q'" by (simp add: q'_def)
    with p Some show ?thesis by (simp add: remove_waiter_ref_def)
  qed
  have "q' = []" if "key \<in> set ks" using e q that by (simp add: emptied_def q'_def)
  then have "emptied ?P ?ks"
    using e by (auto simp: emptied_def distinct_update update_conv' split: if_splits)
  moreover have "queue_in ?P k = filter (\<lambda>w. (k, queued_token w) \<noteq> (key, t)) (queue_in P k)" for k
    by (auto simp: q q'_def)
  ultimately show thesis using r that by blast
qed

lemma remove_waiter_refs_ok:
  assumes "emptied P ks" "\<And>k. distinct (map queued_token (queue_in P k))"
  shows "\<exists>P' ks' n'. fold remove_waiter_ref rs (P, ks, n) = (P', ks', n') \<and> emptied P' ks' \<and>
    (\<forall>k. queue_in P' k = filter (\<lambda>w. (k, queued_token w) \<notin> set rs) (queue_in P k))"
  using assms
proof (induction rs arbitrary: P ks n)
  case (Cons r rs)
  obtain key t where r: "r = (key, t)" by (cases r)
  obtain P1 ks1 n1 where 1: "remove_waiter_ref (key, t) (P, ks, n) = (P1, ks1, n1)" "emptied P1 ks1"
    "\<And>k. queue_in P1 k = filter (\<lambda>w. (k, queued_token w) \<noteq> (key, t)) (queue_in P k)"
    using remove_waiter_ref_ok [OF Cons.prems] by metis
  have "distinct (map queued_token (queue_in P1 k))" for k using Cons.prems(2) [of k] by (simp add: 1(3) distinct_map_filter)
  from Cons.IH [OF 1(2) this] obtain P2 ks2 n2 where 2: "fold remove_waiter_ref rs (P1, ks1, n1) = (P2, ks2, n2)" "emptied P2 ks2"
    "\<And>k. queue_in P2 k = filter (\<lambda>w. (k, queued_token w) \<notin> set rs) (queue_in P1 k)" by metis
  have "queue_in P2 k = filter (\<lambda>w. (k, queued_token w) \<notin> set (r # rs)) (queue_in P k)" for k
    by (auto simp: 1(3) 2(3) r intro: filter_cong)
  with 1(1) 2 r show ?case by auto
qed auto

lemma delete_emptied:
  assumes "emptied P ks"
  shows "distinct (map fst (fold AList.delete ks P))" "[] \<notin> snd ` set (fold AList.delete ks P)"
    "queue_in (fold AList.delete ks P) k = queue_in P k"
proof -
  have d: "distinct (map fst P)" using assms by (simp add: emptied_def)
  have m: "map_of (fold AList.delete js Q) j = (if j \<in> set js then None else map_of Q j)" for js Q j
    by (induction js arbitrary: Q) (auto simp: delete_conv')
  show d': "distinct (map fst (fold AList.delete ks P))"
    using d by (induction ks arbitrary: P) (auto simp: distinct_delete)
  show "[] \<notin> snd ` set (fold AList.delete ks P)"
  proof
    assume "[] \<in> snd ` set (fold AList.delete ks P)"
    then obtain j where "(j, []) \<in> set (fold AList.delete ks P)" by auto
    then have "map_of (fold AList.delete ks P) j = Some []" by (rule map_of_is_SomeI [OF d'])
    then have "j \<notin> set ks" "map_of P j = Some []" by (simp_all add: m split: if_splits)
    with assms show False unfolding emptied_def by blast
  qed
  show "queue_in (fold AList.delete ks P) k = queue_in P k"
    using m [of ks P k] assms by (auto simp: emptied_def queue_in_def entry_or_def)
qed

text \<open>The queues without the session's waiters, and the index without the session.\<close>

lemma remove_session_waiters_ok:
  assumes ok: "waiters_ok (pending_acquires s) (session_waiters s)"
  obtains n P where "remove_session_waiters sess s = (n, s\<lparr>pending_acquires := P, session_waiters := AList.delete sess (session_waiters s)\<rparr>)"
    "waiters_ok P (AList.delete sess (session_waiters s))"
    "\<And>k. queue_in P k = filter (\<lambda>w. w_session_id w \<noteq> sess) (queue_in (pending_acquires s) k)"
proof -
  let ?P = "pending_acquires s" and ?SW = "session_waiters s"
  let ?rs = "entry_or [] ?SW sess"
  have d: "distinct (map fst ?P)" and ne: "[] \<notin> snd ` set ?P" and q: "\<And>k. queue_ok (queue_in ?P k)"
    and g: "\<forall>j. grouped (map_of ?SW) (waiting ?P) by_waiter j" using ok by (simp_all add: waiters_ok_def)
  have rs: "set ?rs = owned (waiting ?P) by_waiter sess" by (rule conjunct2 [OF grouped_entry [OF g [rule_format]]])
  have mine: "(k, queued_token w) \<in> set ?rs \<longleftrightarrow> w_session_id w = sess" if "w \<in> set (queue_in ?P k)" for k w
    using waiting_iff [OF q, of k "queued_token w" w] that unfolding rs by (auto simp: owned_def by_waiter_def)
  have "emptied ?P []" using d ne by (auto simp: emptied_def dest!: map_of_SomeD) force
  from remove_waiter_refs_ok [OF this queue_ok_distinct [OF q], of ?rs 0] obtain P1 ks n where
    f: "fold remove_waiter_ref ?rs (?P, [], 0) = (P1, ks, n)" and e: "emptied P1 ks" and
    "\<And>k. queue_in P1 k = filter (\<lambda>w. (k, queued_token w) \<notin> set ?rs) (queue_in ?P k)" by metis
  then have q1: "queue_in P1 k = filter (\<lambda>w. w_session_id w \<noteq> sess) (queue_in ?P k)" for k
    using mine [of _ k] by (auto intro: filter_cong)
  define P where "P = (if ?rs = [] then ?P else fold AList.delete ks P1)"
  have res: "remove_session_waiters sess s = (if ?rs = [] then 0 else n, s\<lparr>pending_acquires := P, session_waiters := AList.delete sess ?SW\<rparr>)"
    by (simp add: remove_session_waiters_def P_def f)
  have q2: "queue_in P k = filter (\<lambda>w. w_session_id w \<noteq> sess) (queue_in ?P k)" for k
    using mine [of _ k] by (auto simp: P_def delete_emptied(3) [OF e] q1)
  have "waiting P = (\<lambda>r. if r \<in> owned (waiting ?P) by_waiter sess then None else waiting ?P r)"
  proof
    fix r :: pending_acquire_ref
    obtain k t where r: "r = (k, t)" by (cases r)
    have w: "waiting P (k, t) = Some w \<longleftrightarrow> waiting ?P (k, t) = Some w \<and> w_session_id w \<noteq> sess" for w
      using waiting_iff [OF q, of k t w] waiting_iff [of P k t w] queue_ok_filter [OF q [of k]] by (auto simp: q2)
    have o: "r \<in> owned (waiting ?P) by_waiter sess \<longleftrightarrow> (\<exists>w. waiting ?P (k, t) = Some w \<and> w_session_id w = sess)"
      by (simp add: r owned_def by_waiter_def)
    show "waiting P r = (if r \<in> owned (waiting ?P) by_waiter sess then None else waiting ?P r)"
    proof (rule option_eqI)
      fix v show "waiting P r = Some v \<longleftrightarrow> (if r \<in> owned (waiting ?P) by_waiter sess then None else waiting ?P r) = Some v"
        unfolding r w o [unfolded r] by (cases "waiting ?P (k, t)") auto
    qed
  qed
  with grouped_delete [OF g, of sess] have "\<forall>j. grouped (map_of (AList.delete sess ?SW)) (waiting P) by_waiter j" by simp
  moreover have "distinct (map fst P)" "[] \<notin> snd ` set P" using d ne delete_emptied(1,2) [OF e] by (simp_all add: P_def)
  ultimately have "waiters_ok P (AList.delete sess ?SW)" using queue_ok_filter [OF q] by (simp add: waiters_ok_def q2)
  with res q2 that show thesis by blast
qed

section \<open>Subscriptions\<close>

text \<open>The watchers of one family: within \<open>k\<close> trie slots, with identifiers that were issued.\<close>

definition watchers_ok :: "nat \<Rightarrow> u64 \<Rightarrow> route_family \<Rightarrow> lease_subscriptions \<Rightarrow> bool" where
  "watchers_ok k n fam S \<longleftrightarrow> set_ok k fam S \<and> (\<forall>i sub. map_of (subscriptions S) i = Some sub \<longrightarrow>
     i < n \<and> (wild sub \<longrightarrow> double_star_free (parse_pattern_segments (sub_route sub))))"

definition subs_ok :: "nat \<Rightarrow> u64 \<Rightarrow> (u64 \<times> lease_subscriptions) list \<Rightarrow> bool" where
  "subs_ok k n F \<longleftrightarrow> distinct (map fst F) \<and> (\<forall>(fid, S) \<in> set F. \<exists>fam. fid = ucast fam \<and> watchers_ok k n fam S)"

lemma watchers_watch: "watchers_ok k n fam S \<Longrightarrow> watch_ok fam S"
  unfolding watchers_ok_def watch_ok_def by blast

lemma subs_families: "subs_ok k n F \<Longrightarrow> families_ok F"
  unfolding subs_ok_def families_ok_def using watchers_watch by blast

lemma watchers_shrink:
  assumes "watchers_ok k n fam S" "set_ok k' fam S'" "map_of (subscriptions S') \<subseteq>\<^sub>m map_of (subscriptions S)"
  shows "watchers_ok k' n fam S'"
  using assms unfolding watchers_ok_def map_le_def dom_def by (metis (mono_tags, lifting) mem_Collect_eq option.distinct(1))

lemma try_from_ucast [simp]: "route_family_try_from (ucast fam) = Some fam"
proof -
  have lt: "unat fam < 2 ^ 32" using unsigned_less [of fam, where 'a = nat] by simp
  then have u: "unat (ucast fam :: u64) = unat fam" by (simp add: unsigned_ucast_eq take_bit_nat_eq_self)
  with lt have "unat (ucast (ucast fam :: u64) :: route_family) = unat fam" by (simp add: unsigned_ucast_eq [of "ucast fam :: u64"] take_bit_nat_eq_self)
  then show ?thesis using lt u by (simp add: route_family_try_from_def word_unat_eq_iff)
qed

definition unsubscribed :: "u64 \<Rightarrow> lease_subscriptions \<Rightarrow> lease_subscriptions \<Rightarrow> bool" where
  "unsubscribed sess S S' \<longleftrightarrow>
     map_of (subscriptions S') = (\<lambda>i. if i \<in> session_owned S sess then None else map_of (subscriptions S) i)"

lemma unsubscribe_each_ok:
  assumes "subs_ok k n F"
  shows "\<exists>m F' w'. unsubscribe_each F w sess = Some (m, F', w') \<and> subs_ok k n F' \<and>
    list_all2 (\<lambda>(fid, S) (fid', S'). fid' = fid \<and> unsubscribed sess S S') F F'"
  using assms
proof (induction F arbitrary: w)
  case (Cons x F)
  obtain fid S where x: "x = (fid, S)" by (cases x)
  obtain fam where fam: "fid = ucast fam" and ok: "watchers_ok k n fam S" using Cons.prems x by (auto simp: subs_ok_def)
  have so: "set_ok k fam S" using ok by (simp add: watchers_ok_def)
  obtain S' w1 where r: "remove_session ''lease'' S w fam sess = Some (card (session_owned S sess), S', w1)" "set_ok k fam S'"
    "unsubscribed sess S S'" unfolding unsubscribed_def by (rule remove_session_ok [OF so])
  have ok': "watchers_ok k n fam S'"
    by (rule watchers_shrink [OF ok r(2)]) (use r(3) in \<open>auto simp: unsubscribed_def map_le_def split: if_splits\<close>)
  have "subs_ok k n F" using Cons.prems x by (simp add: subs_ok_def)
  from Cons.IH [OF this, of w1] obtain m F' w' where F': "unsubscribe_each F w1 sess = Some (m, F', w')" "subs_ok k n F'"
    "list_all2 (\<lambda>(fid, S) (fid', S'). fid' = fid \<and> unsubscribed sess S S') F F'" by blast
  have "map fst F' = map fst F" using F'(3) by (induction rule: list_all2_induct) auto
  then have "distinct (map fst ((fid, S') # F'))" using Cons.prems x by (simp add: subs_ok_def del: set_map add: set_map [symmetric])
  moreover have "\<exists>fam. f = ucast fam \<and> watchers_ok k n fam T" if "(f, T) \<in> set ((fid, S') # F')" for f T
    using that F'(2) ok' fam by (cases "(f, T) = (fid, S')") (auto simp: subs_ok_def)
  ultimately have "subs_ok k n ((fid, S') # F')" unfolding subs_ok_def by blast
  with x fam r F' show ?case by simp
qed (simp add: subs_ok_def)

lemma unsubscribe_all_ok:
  assumes "subs_ok k n (families s)"
  obtains m F w where "unsubscribe_all sess s = Some (m, s\<lparr>families := F, registrations := w\<rparr>)" "subs_ok k n F"
    "\<And>fid S. (fid, S) \<in> set F \<Longrightarrow> session_owned S sess = {}"
proof -
  obtain m F w where r: "unsubscribe_each (families s) (registrations s) sess = Some (m, F, w)" "subs_ok k n F"
    "list_all2 (\<lambda>(fid, S) (fid', S'). fid' = fid \<and> unsubscribed sess S S') (families s) F"
    using unsubscribe_each_ok [OF assms] by blast
  have "session_owned S sess = {}" if "(fid, S) \<in> set F" for fid S
    using r(3) that by (auto simp: list_all2_conv_all_nth in_set_conv_nth unsubscribed_def session_owned_def split: if_splits)
  moreover have "subs_ok k n (filter (\<lambda>(_, state). \<not> set_is_empty state) F)" using r(2) by (auto simp: subs_ok_def distinct_map_filter)
  ultimately show thesis
    by (intro that [of m w "filter (\<lambda>(_, state). \<not> set_is_empty state) F"]) (auto simp: unsubscribe_all_def r(1))
qed

section \<open>The leases of a session\<close>

lemma announce_removed_ok:
  assumes "families_ok (families s)"
  shows "\<exists>s'. announce_removed E ks s = Some s' \<and>
    appends (s\<lparr>admin := (admin s)\<lparr>admin_leases := fold (\<lambda>k. AList.delete (key_identity k)) ks (admin_leases (admin s))\<rparr>\<rparr>) s'"
  using assms
proof (induction ks arbitrary: s)
  case (Cons k ks)
  let ?s = "remove_admin_lease k s"
  let ?A = "\<lambda>s. s\<lparr>admin := (admin s)\<lparr>admin_leases := fold (\<lambda>k. AList.delete (key_identity k)) ks (admin_leases (admin s))\<rparr>\<rparr>"
  obtain s1 where s1: "notify_lease_change E k ?s = Some s1" "appends ?s s1"
    using notify_total [of ?s E k] Cons.prems by (auto simp: remove_admin_lease_def)
  have "families_ok (families s1)" using Cons.prems appends_fields(8) [OF s1(2)] by (simp add: remove_admin_lease_def)
  from Cons.IH [OF this] obtain s2 where s2: "announce_removed E ks s1 = Some s2" "appends (?A s1) s2" by blast
  have "appends (?A ?s) (?A s1)" using s1(2) unfolding appends_def same_book_def io_erased_def by (cases ?s; cases s1; simp)
  from appends_trans [OF this s2(2)] s1(1) s2(1) show ?case
    by (simp add: remove_admin_lease_def remove_lease_def key_identity_def)
qed simp

lemma mirror_ok_removes:
  "mirror_ok fam M A \<Longrightarrow> mirror_ok fam (\<lambda>k. if k \<in> set ks then None else M k) (fold (\<lambda>k. AList.delete (key_identity k)) ks A)"
proof (induction ks arbitrary: M A)
  case (Cons k ks)
  have "(\<lambda>j. if j \<in> set ks then None else (M(k := None)) j) = (\<lambda>j. if j \<in> set (k # ks) then None else M j)" by auto
  with Cons.IH [OF mirror_ok_remove [OF Cons.prems, of k]] show ?case by simp
qed simp

lemma drop_leases: "fold drop_lease ks s = s\<lparr>leases := fold AList.delete ks (leases s)\<rparr>"
  by (induction ks arbitrary: s) (simp_all add: drop_lease_def)

lemma map_of_deletes: "map_of (fold AList.delete ks m) = (\<lambda>k. if k \<in> set ks then None else map_of m k)"
  by (induction ks arbitrary: m) (auto simp: delete_conv')

lemma sorted_deletes: "sorted_wrt (<) (map fst m) \<Longrightarrow> sorted_wrt (<) (map fst (fold AList.delete ks m))" for m :: "('k::linorder \<times> 'v) list"
  by (induction ks arbitrary: m) (simp_all add: sorted_delete)

lemma tokens_ok_restrict:
  assumes ok: "tokens_ok n M P" and M: "\<And>k st. M' k = Some st \<Longrightarrow> M k = Some st" and P: "\<And>k. set (queue_in P' k) \<subseteq> set (queue_in P k)"
  shows "tokens_ok n M' P'"
proof (rule tokens_ok_shrink [OF ok])
  show "has_token M P k t" if "has_token M' P' k t" for k t using that M P unfolding has_token_def by blast
  show "fencing_token st \<noteq> queued_token w" if "w \<in> set (queue_in P' k)" "M' k = Some st" for k st w
    using that tokens_apart [OF ok] M P by blast
qed

text \<open>The state in which the queues of the released keys are advanced.\<close>

lemma release_ok:
  assumes ok: "book_ok s" and subs: "subs_ok k n (families s)"
  obtains s' ks where "release_session_resources E sess s = map_option refresh_metrics_gauges (advance_each E (clock_now E s) ks s')"
    "book_ok s'" "subs_ok k n (families s')" "set ks = owned (map_of (leases s)) by_holder sess"
    "map_of (leases s') = (\<lambda>k. if k \<in> set ks then None else map_of (leases s) k)"
    "\<And>k. queue_in (pending_acquires s') k = filter (\<lambda>w. w_session_id w \<noteq> sess) (queue_in (pending_acquires s) k)"
    "\<And>fid S. (fid, S) \<in> set (families s') \<Longrightarrow> session_owned S sess = {}"
    "list_snapshots s' = filter (\<lambda>(_, snapshot). snap_session_id snapshot \<noteq> sess) (list_snapshots s)"
    "own_family s' = own_family s" "cleaned_up s' = cleaned_up s" "next_token s' = next_token s" "next_sub_id s' = next_sub_id s"
proof -
  let ?M = "map_of (leases s)" and ?ks = "entry_or [] (session_leases s) sess"
  have ks: "set ?ks = owned ?M by_holder sess"
    by (rule conjunct2 [OF grouped_entry]) (use book_onD(2) [OF ok] in \<open>simp add: holders_ok_def\<close>)
  then have held: "filter (\<lambda>key. ?M key \<noteq> None) ?ks = ?ks" by (auto simp: filter_id_conv owned_def)
  let ?M' = "\<lambda>k. if k \<in> set ?ks then None else ?M k"
  let ?s1 = "s\<lparr>readings := readings s + 1, session_leases := AList.delete sess (session_leases s)\<rparr>"
  obtain m P where w: "remove_session_waiters sess ?s1 = (m, ?s1\<lparr>pending_acquires := P, session_waiters := AList.delete sess (session_waiters s)\<rparr>)"
    "waiters_ok P (AList.delete sess (session_waiters s))"
    "\<And>k. queue_in P k = filter (\<lambda>w. w_session_id w \<noteq> sess) (queue_in (pending_acquires s) k)"
    using remove_session_waiters_ok [of ?s1 sess] book_onD(3) [OF ok] by auto
  let ?s2 = "?s1\<lparr>pending_acquires := P, session_waiters := AList.delete sess (session_waiters s), leases := fold AList.delete ?ks (leases s)\<rparr>"
  have subs2: "subs_ok k n (families ?s2)" using subs by simp
  obtain j F r where u: "unsubscribe_all sess ?s2 = Some (j, ?s2\<lparr>families := F, registrations := r\<rparr>)" "subs_ok k n F"
    "\<And>fid S. (fid, S) \<in> set F \<Longrightarrow> session_owned S sess = {}" by (rule unsubscribe_all_ok [OF subs2, of sess]) blast
  let ?s3 = "remove_list_snapshots_for_session sess (?s2\<lparr>families := F, registrations := r\<rparr>)"
  let ?s4 = "?s3\<lparr>admin := (admin s)\<lparr>admin_leases := fold (\<lambda>k. AList.delete (key_identity k)) ?ks (admin_leases (admin s))\<rparr>\<rparr>"
  obtain s5 where s5: "announce_removed E ?ks ?s3 = Some s5" "appends ?s4 s5"
    using announce_removed_ok [of ?s3 E ?ks] subs_families [OF u(2)] by (auto simp: remove_list_snapshots_for_session_def)
  note f = appends_fields [OF s5(2)]
  have q: "set (queue_in P k) \<subseteq> set (queue_in (pending_acquires s) k)" for k by (auto simp: w(3))
  have le: "?M j = Some st" if "?M' j = Some st" for j st using that by (simp split: if_splits)
  have M': "map_of (fold AList.delete ?ks (leases s)) = ?M'" by (rule map_of_deletes)
  have "book_on ?M' ?s4"
    unfolding book_on_def
  proof (intro conjI)
    show "holders_ok ?M' (session_leases ?s4)"
      using book_onD(2) [OF ok] grouped_delete [of "session_leases s" ?M by_holder sess] by (simp add: holders_ok_def ks remove_list_snapshots_for_session_def)
    show "tokens_ok (next_token ?s4) ?M' (pending_acquires ?s4)"
      using tokens_ok_restrict [OF book_onD(4) [OF ok] le q] by (simp add: remove_list_snapshots_for_session_def)
    show "keys_ok (own_family ?s4) ?M' (pending_acquires ?s4)"
      using keys_ok_queue [OF book_onD(6) [OF ok] q] by (auto simp: remove_list_snapshots_for_session_def keys_ok_def)
  qed (use book_onD(1,5) [OF ok] w(2) subs_families [OF u(2)] in
      \<open>simp_all add: remove_list_snapshots_for_session_def sorted_deletes mirror_ok_removes\<close>)
  then have b: "book_on ?M' s5" using appends_book [OF s5(2)] by simp
  have "release_session_resources E sess s = map_option refresh_metrics_gauges (advance_each E (clock_now E s) ?ks s5)"
    using w(1) u(1) s5(1) by (simp add: release_session_resources_def instant_now_def clock_now_def drop_leases held Let_def
        map_conv_bind_option comp_def del: not_None_eq)
  moreover have "list_snapshots s5 = filter (\<lambda>(_, snapshot). snap_session_id snapshot \<noteq> sess) (list_snapshots s)"
    "cleaned_up s5 = cleaned_up s" "next_sub_id s5 = next_sub_id s"
    using appends_frame [OF s5(2)] by (simp_all add: frame_def remove_list_snapshots_for_session_def)
  ultimately show thesis
    using b f M' w(3) u(2,3) by (intro that [of ?ks s5]) (simp_all add: ks remove_list_snapshots_for_session_def)
qed

section \<open>After a cleanup\<close>

definition owns_nothing :: "u64 \<Rightarrow> lease_state \<Rightarrow> bool" where
  "owns_nothing sess s \<longleftrightarrow> (\<forall>k st. map_of (leases s) k = Some st \<longrightarrow> owner_session_id st \<noteq> sess)
     \<and> (\<forall>k. \<forall>w \<in> set (queue_in (pending_acquires s) k). w_session_id w \<noteq> sess)
     \<and> (\<forall>(fid, S) \<in> set (families s). session_owned S sess = {})
     \<and> (\<forall>(i, snapshot) \<in> set (list_snapshots s). snap_session_id snapshot \<noteq> sess)"

lemma owns_nothingI:
  assumes "\<And>k st. map_of (leases s) k = Some st \<Longrightarrow> owner_session_id st \<noteq> sess"
    "\<And>k w. w \<in> set (queue_in (pending_acquires s) k) \<Longrightarrow> w_session_id w \<noteq> sess"
    "\<And>fid S. (fid, S) \<in> set (families s) \<Longrightarrow> session_owned S sess = {}"
    "\<And>i x. (i, x) \<in> set (list_snapshots s) \<Longrightarrow> snap_session_id x \<noteq> sess"
  shows "owns_nothing sess s"
  unfolding owns_nothing_def using assms by blast

lemma shrinks_owns:
  assumes "shrinks s s'" "owns_nothing sess s" "families s' = families s" "list_snapshots s' = list_snapshots s"
  shows "owns_nothing sess s'"
proof -
  have "owner_session_id st \<noteq> sess" if "map_of (leases s') k = Some st" for k st
    using shrinks_holder [OF assms(1) that] assms(2) unfolding owns_nothing_def lease_for_def by metis
  moreover have "w_session_id w \<noteq> sess" if "w \<in> set (queue_in (pending_acquires s') k)" for k w
    using assms(2) subsetD [OF shrinks_queue [OF assms(1)] that] by (simp add: owns_nothing_def)
  ultimately show ?thesis using assms(2-) by (simp add: owns_nothing_def)
qed

text \<open>What the session did not hold stays with its holder, and its other waiters stay in order.\<close>

definition spared :: "u64 \<Rightarrow> instant \<Rightarrow> lease_state \<Rightarrow> lease_state \<Rightarrow> bool" where
  "spared sess now s s' \<longleftrightarrow> (\<forall>k.
     if k \<in> owned (map_of (leases s)) by_holder sess
     then settled now {w \<in> set (queue_in (pending_acquires s) k). w_session_id w \<noteq> sess} s' k
     else map_of (leases s') k = map_of (leases s) k
       \<and> queue_in (pending_acquires s') k = filter (\<lambda>w. w_session_id w \<noteq> sess) (queue_in (pending_acquires s) k))"

definition released :: "nat \<Rightarrow> u64 \<Rightarrow> lease_env \<Rightarrow> u64 \<Rightarrow> lease_state \<Rightarrow> lease_state \<Rightarrow> bool" where
  "released k n E sess s s' \<longleftrightarrow> book_ok s' \<and> subs_ok k n (families s') \<and> owns_nothing sess s'
    \<and> spared sess (clock_now E s) s s' \<and> shrinks s s' \<and> own_family s' = own_family s \<and> next_token s' = next_token s
    \<and> next_sub_id s' = next_sub_id s \<and> set (list_snapshots s') \<subseteq> set (list_snapshots s)"

lemma release_resources_ok:
  assumes ok: "book_ok s" and subs: "subs_ok k n (families s)"
  shows "\<exists>s'. release_session_resources E sess s = Some s' \<and> released k n E sess s s' \<and> cleaned_up s' = cleaned_up s"
proof -
  let ?now = "clock_now E s"
  obtain s1 ks where r: "release_session_resources E sess s = map_option refresh_metrics_gauges (advance_each E ?now ks s1)"
    "book_ok s1" "subs_ok k n (families s1)" "set ks = owned (map_of (leases s)) by_holder sess"
    "map_of (leases s1) = (\<lambda>k. if k \<in> set ks then None else map_of (leases s) k)"
    "\<And>k. queue_in (pending_acquires s1) k = filter (\<lambda>w. w_session_id w \<noteq> sess) (queue_in (pending_acquires s) k)"
    "\<And>fid S. (fid, S) \<in> set (families s1) \<Longrightarrow> session_owned S sess = {}"
    "list_snapshots s1 = filter (\<lambda>(_, snapshot). snap_session_id snapshot \<noteq> sess) (list_snapshots s)"
    "own_family s1 = own_family s" "cleaned_up s1 = cleaned_up s" "next_token s1 = next_token s" "next_sub_id s1 = next_sub_id s"
    by (rule release_ok [OF ok subs, of E sess]) (rule that)
  have un: "unexpired ?now s1 j" if "j \<in> set ks" for j using r(5) that by (simp add: unexpired_def)
  obtain s2 where s2: "advance_each E ?now ks s1 = Some s2" "book_ok s2" "frame s1 s2" "shrinks s1 s2"
    "\<And>k. if k \<in> set ks then settled ?now (set (queue_in (pending_acquires s1) k)) s2 k else untouched s1 s2 k"
    using advance_each_ok [OF r(2) un, of ks E] by blast
  let ?s' = "refresh_metrics_gauges s2"
  have f: "families s2 = families s1" "list_snapshots s2 = list_snapshots s1" "own_family s2 = own_family s1" "cleaned_up s2 = cleaned_up s1"
    "next_token s2 = next_token s1" "next_sub_id s2 = next_sub_id s1" using s2(3) by (simp_all add: frame_def)
  have "owns_nothing sess s1"
  proof (rule owns_nothingI)
    fix j st assume st: "map_of (leases s1) j = Some st"
    have "j \<notin> set ks" "map_of (leases s) j = Some st" using st by (simp_all add: r(5) split: if_splits)
    then show "owner_session_id st \<noteq> sess" unfolding r(4) by (simp add: owned_def by_holder_def)
  qed (simp_all add: r(6,7,8))
  then have "owns_nothing sess s2" by (rule shrinks_owns [OF s2(4) _ f(1,2)])
  then have "owns_nothing sess ?s'" by (simp only: owns_nothing_def refresh_fields)
  moreover have "spared sess ?now s ?s'" unfolding spared_def r(4) [symmetric]
  proof
    fix k
    show "if k \<in> set ks then settled ?now {w \<in> set (queue_in (pending_acquires s) k). w_session_id w \<noteq> sess} ?s' k
      else map_of (leases ?s') k = map_of (leases s) k
        \<and> queue_in (pending_acquires ?s') k = filter (\<lambda>w. w_session_id w \<noteq> sess) (queue_in (pending_acquires s) k)"
      using s2(5) [of k] settled_cong [of ?s' s2] by (simp add: untouched_def r(5,6) split: if_splits)
  qed
  moreover have "shrinks s s1"
  proof -
    have "map_of (leases s) k = Some st" if "map_of (leases s1) k = Some st" for k st using that by (simp add: r(5) split: if_splits)
    moreover have "set (queue_in (pending_acquires s1) k) \<subseteq> set (queue_in (pending_acquires s) k)" for k by (auto simp: r(6))
    ultimately show ?thesis unfolding shrinks_def ordered_def by (meson subset_iff)
  qed
  then have "shrinks s ?s'" using shrinks_trans [OF _ s2(4)] shrinks_cong [of s s ?s' s2] by simp
  moreover have "release_session_resources E sess s = Some ?s'" using r(1) s2(1) by simp
  ultimately show ?thesis using s2(2) r(3,8-12) f kept_refresh [of s2] by (auto simp: released_def kept_def)
qed

lemma cleanup_ok:
  assumes ok: "book_ok s" and subs: "subs_ok k n (families s)"
  shows "\<exists>s'. cleanup_session E sess s = Some s' \<and> released k n E sess s s' \<and> cleaned_up s' = mark sess (cleaned_up s)"
proof -
  let ?s = "s\<lparr>cleaned_up := mark sess (cleaned_up s)\<rparr>"
  have "book_ok ?s" "subs_ok k n (families ?s)" using ok subs by (simp_all add: book_on_def)
  from release_resources_ok [OF this, of E sess] obtain s' where s': "release_session_resources E sess ?s = Some s'"
    "released k n E sess ?s s'" "cleaned_up s' = mark sess (cleaned_up s)" by auto
  have "released k n E sess s s'" using s'(2) by (simp add: released_def spared_def clock_now_def shrinks_def ordered_def cong: if_cong)
  with s' show ?thesis by (simp add: cleanup_session_def)
qed

end
