(* ===== verification/Lease_Requests.thy ===== *)
theory Lease_Requests
  imports Lease_Cleanup
begin

text \<open>
  What the four requests and the rollback of an undeliverable acquire do to a good book: \<open>extend\<close> and
  \<open>release\<close> change something only for the holder that presents its current token or when the lease has
  expired; a lease that ends is handed on in the order of the queue; \<open>acquire\<close> answers by the state of the
  key once what has expired on it is gone. None of them panics, and the book stays good.
\<close>

section \<open>Handing a key on\<close>

definition handed_on :: "lease_key \<Rightarrow> instant \<Rightarrow> lease_state \<Rightarrow> lease_state \<Rightarrow> bool" where
  "handed_on key now s s' \<longleftrightarrow> book_ok s' \<and> frame s s' \<and> shrinks s s' \<and> (\<forall>k. k \<noteq> key \<longrightarrow> untouched s s' k) \<and>
     fifo_outcome now (alive now (queue_in (pending_acquires s) key)) (map_of (leases s') key)
       (queue_in (pending_acquires s') key) (set (routed s'))"

lemma frame_refresh [simp]: "frame s (refresh_metrics_gauges s') = frame s s'"
  by (simp add: frame_def refresh_metrics_gauges_def set_lease_family_waiter_count_def live_counts_def Let_def)

lemma untouched_refresh [simp]: "untouched s (refresh_metrics_gauges s') = untouched s s'"
  by (simp add: untouched_def fun_eq_iff)

lemma shrinks_refresh [simp]: "shrinks s (refresh_metrics_gauges s') = shrinks s s'"
  by (rule shrinks_cong) simp_all

lemma handed_on_refresh [simp]: "handed_on key now s (refresh_metrics_gauges s') = handed_on key now s s'"
  by (simp add: handed_on_def)

lemma queue_ok_in: "book_on M s \<Longrightarrow> queue_ok (queue_in (pending_acquires s) k)"
  using book_onD(3) by (simp add: waiters_ok_def)

lemma shrinks_of_subset:
  assumes "\<And>k st. map_of (leases s') k = Some st \<Longrightarrow> map_of (leases s) k = Some st"
    "\<And>k. set (queue_in (pending_acquires s') k) \<subseteq> set (queue_in (pending_acquires s) k)"
  shows "shrinks s s'"
  unfolding shrinks_def ordered_def using assms by (meson subset_iff)

lemma advance_free:
  assumes ok: "book_ok s" and free: "map_of (leases s) key = None"
  shows "\<exists>p s'. advance_waiter_queue E key now s = Some (p, s') \<and> handed_on key now s s'"
proof -
  obtain p s' where s': "advance_waiter_queue E key now s = Some (p, s')" and a: "advanced key now (map_of (leases s)) s s'"
    using advance_ok [OF ok refl, of E key now] by blast
  have "book_ok s' \<and> frame s s' \<and> (\<forall>k. k \<noteq> key \<longrightarrow> untouched s s' k) \<and>
      fifo_outcome now (alive now (queue_in (pending_acquires s) key)) (map_of (leases s') key) (queue_in (pending_acquires s') key) (set (routed s'))"
    using a free by (auto simp: advanced_def untouched_def)
  moreover have "shrinks s s'" by (rule advanced_shrinks [OF a refl _ queue_ok_in [OF ok]]) (simp add: unexpired_def free)
  ultimately show ?thesis using s' by (auto simp: handed_on_def)
qed

lemma handed_on_after:
  assumes "handed_on key now s1 s2" "frame s s1" "pending_acquires s1 = pending_acquires s" "map_of (leases s1) = (map_of (leases s))(key := None)"
  shows "handed_on key now s s2"
proof -
  have "shrinks s s1" by (rule shrinks_of_subset) (use assms(3,4) in \<open>auto split: if_splits\<close>)
  with assms show ?thesis by (auto simp: handed_on_def untouched_def intro: frame_trans shrinks_trans)
qed

text \<open>Removing a lease and advancing its queue, with the clock read in between or not.\<close>

lemma pass_on:
  assumes ok: "book_ok s" and st: "map_of (leases s) key = Some st"
  shows "\<exists>s1. forget_lease E (owner_session_id st) key (drop_lease key s) = Some s1 \<and>
    (\<forall>now n. \<exists>p s2. advance_waiter_queue E key now (s1\<lparr>readings := n\<rparr>) = Some (p, s2) \<and> handed_on key now s s2) \<and>
    (\<forall>now. \<exists>p s2. advance_waiter_queue E key now s1 = Some (p, s2) \<and> handed_on key now s s2)"
proof -
  let ?M = "(map_of (leases s))(key := None)"
  have "?M(key \<mapsto> st) = map_of (leases s)" using st by auto
  then obtain s1 where s1: "forget_lease E (owner_session_id st) key (drop_lease key s) = Some s1" "book_on ?M s1"
    "leases s1 = AList.delete key (leases s)" "pending_acquires s1 = pending_acquires s" "frame s s1"
    using revoke_ok [of ?M key st s E] ok by auto
  have M: "map_of (leases s1) = ?M" by (simp add: s1(3) delete_conv')
  have A: "\<exists>p s2. advance_waiter_queue E key now s' = Some (p, s2) \<and> handed_on key now s s2" if a: "appends s1 s'" for s' now
  proof -
    have f: "map_of (leases s') = ?M" "pending_acquires s' = pending_acquires s" "frame s s'"
      using appends_fields [OF a] M s1(4) frame_trans [OF s1(5) appends_frame [OF a]] by simp_all
    then have "book_ok s'" using s1(2) appends_book [OF a] by simp
    from advance_free [OF this, of key E now] f obtain p s2 where "advance_waiter_queue E key now s' = Some (p, s2)" "handed_on key now s' s2" by auto
    with handed_on_after [OF this(2) f(3,2,1)] show ?thesis by blast
  qed
  have B: "appends s1 (s1\<lparr>readings := n\<rparr>)" for n by (simp add: appends_def)
  show ?thesis by (intro exI [of _ s1] conjI allI) (rule s1(1), rule A [OF B], rule A [OF appends_refl])
qed

section \<open>Extend and release\<close>

text \<open>A request that is refused leaves everything but clock, counters and routed envelopes.\<close>

definition extend_outcome :: "lease_key \<Rightarrow> string \<Rightarrow> u64 \<Rightarrow> u64 \<Rightarrow> instant \<Rightarrow> lease_state \<Rightarrow> lease_response \<Rightarrow> lease_state \<Rightarrow> bool" where
  "extend_outcome key owner token ttl_secs now s r s' \<longleftrightarrow>
     (case lease_expiry now ttl_secs of
        Inl e \<Rightarrow> r = e \<and> same_book s s'
      | Inr t \<Rightarrow>
          (case map_of (leases s) key of
             None \<Rightarrow> r = NotHeld \<and> same_book s s'
           | Some st \<Rightarrow>
               if expiry st \<le> now then r = LeaseExpired \<and> handed_on key now s s'
               else if owner_id st \<noteq> owner then r = NotHeld \<and> same_book s s'
               else if fencing_token st \<noteq> token then r = Fenced (fencing_token st) \<and> same_book s s'
               else r = Extended token \<and> frame s s' \<and> pending_acquires s' = pending_acquires s \<and>
                 map_of (leases s') = (map_of (leases s))(key \<mapsto> st\<lparr>expiry := t, renewals := saturating_inc (renewals st)\<rparr>)))"

definition release_outcome :: "lease_key \<Rightarrow> string \<Rightarrow> u64 \<Rightarrow> instant \<Rightarrow> lease_state \<Rightarrow> lease_response \<Rightarrow> lease_state \<Rightarrow> bool" where
  "release_outcome key owner token now s r s' \<longleftrightarrow>
     (case map_of (leases s) key of
        None \<Rightarrow> r = Released \<and> same_book s s'
      | Some st \<Rightarrow>
          if expiry st \<le> now \<or> owner_id st = owner \<and> fencing_token st = token then r = Released \<and> handed_on key now s s'
          else if owner_id st \<noteq> owner then r = NotHeld \<and> same_book s s'
          else r = Fenced (fencing_token st) \<and> same_book s s')"

lemma removed_ok:
  assumes ok: "book_ok s" and st: "map_of (leases s) key = Some st"
  shows "\<exists>s'. apply_lease_effects E key now \<lparr>eff_updated = None, eff_removed = Some st\<rparr> (drop_lease key s) = Some s' \<and> handed_on key now s s'"
proof -
  obtain s1 p s2 where "forget_lease E (owner_session_id st) key (drop_lease key s) = Some s1"
    "advance_waiter_queue E key now s1 = Some (p, s2)" "handed_on key now s s2" using pass_on [OF ok st, of E] by blast
  then show ?thesis by (simp add: apply_lease_effects_def)
qed

lemma book_readings [simp]: "book_on M (s\<lparr>readings := n\<rparr>) = book_on M s"
  by (rule book_on_cong) simp

lemma handed_on_readings [simp]: "handed_on key now (s\<lparr>readings := n\<rparr>) s' = handed_on key now s s'"
  by (simp add: handed_on_def frame_def untouched_def shrinks_def ordered_def)

lemma same_book_readings: "same_book (s\<lparr>readings := n\<rparr>) s' = same_book s s'"
  by (simp add: same_book_def io_erased_def)

lemma handed_on_book: "handed_on key now s s' \<Longrightarrow> book_ok s'"
  by (simp add: handed_on_def)

lemma extended_ok:
  assumes ok: "book_ok s" and st: "map_of (leases s) key = Some st"
    and st': "owner_session_id st' = owner_session_id st" "fencing_token st' = fencing_token st"
    and s': "s' = upsert_admin_lease E key st' (s\<lparr>leases := AList.update key st' (leases s)\<rparr>)"
  shows "book_ok s'" "frame s s'" "pending_acquires s' = pending_acquires s" "map_of (leases s') = (map_of (leases s))(key \<mapsto> st')"
proof -
  let ?L = "AList.update key st' (leases s)"
  have 1: "sorted_wrt (<) (map fst ?L)" using book_onD(1) [OF ok] st by (simp add: sorted_update)
  have 2: "holders_ok ((map_of (leases s))(key \<mapsto> st')) (session_leases s)" by (rule holders_ok_update [OF book_onD(2) [OF ok] st st'(1)])
  have 3: "tokens_ok (next_token s) ((map_of (leases s))(key \<mapsto> st')) (pending_acquires s)" by (rule tokens_ok_update [OF book_onD(4) [OF ok] st st'(2)])
  have 4: "keys_ok (own_family s) ((map_of (leases s))(key \<mapsto> st')) (pending_acquires s)" using book_onD(6) [OF ok] st by (auto simp: keys_ok_def)
  have s: "s\<lparr>leases := ?L\<rparr> = s\<lparr>leases := ?L, session_leases := session_leases s, pending_acquires := pending_acquires s,
      session_waiters := session_waiters s, next_token := next_token s\<rparr>" by simp
  note up = upsert_ok [OF ok s 1 2 book_onD(3) [OF ok] 3 4, of E, folded s']
  show "map_of (leases s') = (map_of (leases s))(key \<mapsto> st')" using up(2) by (simp add: update_conv')
  with up(1) show "book_ok s'" by simp
  show "pending_acquires s' = pending_acquires s" by (rule up(3))
  show "frame s s'" by (simp add: s' frame_def upsert_admin_lease_def lease_info_from_state_def instant_now_def Let_def)
qed

lemma extend_ok:
  assumes ok: "book_ok s"
  shows "\<exists>r s'. handle_extend E key owner token ttl_secs s = Some (r, s') \<and> book_ok s' \<and>
    extend_outcome key owner token ttl_secs (clock_now E s) s r s'"
proof -
  let ?s = "s\<lparr>readings := readings s + 1\<rparr>" and ?now = "clock_now E s"
  have ok': "book_ok ?s" using ok by simp
  note def = handle_extend_def instant_now_def clock_now_def [symmetric] authorize_owned_lease_def apply_lease_effects_def [of _ _ _ "\<lparr>eff_updated = None, eff_removed = None\<rparr>"]
  show ?thesis
  proof (cases "lease_expiry ?now ttl_secs")
    case (Inl e)
    then show ?thesis using ok by (simp add: def extend_outcome_def)
  next
    case t: (Inr t)
    show ?thesis
    proof (cases "map_of (leases s) key")
      case None
      then show ?thesis using ok t by (simp add: def extend_outcome_def)
    next
      case st: (Some st)
      consider "expiry st \<le> ?now" | "\<not> expiry st \<le> ?now" "owner_id st \<noteq> owner"
        | "\<not> expiry st \<le> ?now" "owner_id st = owner" "fencing_token st \<noteq> token"
        | "\<not> expiry st \<le> ?now" "owner_id st = owner" "fencing_token st = token" by blast
      then show ?thesis
      proof cases
        case 1
        obtain s' where "apply_lease_effects E key ?now \<lparr>eff_updated = None, eff_removed = Some st\<rparr> (drop_lease key ?s) = Some s'" "handed_on key ?now s s'"
          using removed_ok [OF ok', of key st E ?now] st by auto
        with 1 t st handed_on_book [OF this(2)] show ?thesis by (simp add: def extend_outcome_def)
      next
        case 2
        with t st ok show ?thesis by (simp add: def extend_outcome_def)
      next
        case 3
        have "same_book s (counter_inc ''fitz_lease_invalid_token_rejects_total'' ?s)" by (rule same_book_trans [OF _ same_book_counter]) simp
        with 3 t st ok book_on_cong [OF this] show ?thesis by (simp add: def extend_outcome_def same_book_fields)
      next
        case 4
        let ?st = "st\<lparr>expiry := t, renewals := saturating_inc (renewals st)\<rparr>"
        note e = extended_ok [OF ok' _ _ _ refl, of key st ?st E]
        have "frame s (upsert_admin_lease E key ?st (?s\<lparr>leases := AList.update key ?st (leases s)\<rparr>))" using e(2) st by (simp add: frame_def)
        with 4 t st e show ?thesis by (simp add: def extend_outcome_def apply_lease_effects_def Let_def)
      qed
    qed
  qed
qed

lemma release_request_ok:
  assumes ok: "book_ok s"
  shows "\<exists>r s'. handle_release E key owner token s = Some (r, s') \<and> book_ok s' \<and> release_outcome key owner token (clock_now E s) s r s'"
proof -
  let ?s = "s\<lparr>readings := readings s + 1\<rparr>" and ?now = "clock_now E s"
  have ok': "book_ok ?s" using ok by simp
  note def = handle_release_def instant_now_def clock_now_def [symmetric] authorize_owned_lease_def apply_lease_effects_def [of _ _ _ "\<lparr>eff_updated = None, eff_removed = None\<rparr>"]
  show ?thesis
  proof (cases "map_of (leases s) key")
    case None
    then show ?thesis using ok by (simp add: def release_outcome_def)
  next
    case st: (Some st)
    consider "expiry st \<le> ?now \<or> owner_id st = owner \<and> fencing_token st = token" | "\<not> expiry st \<le> ?now" "owner_id st \<noteq> owner"
      | "\<not> expiry st \<le> ?now" "owner_id st = owner" "fencing_token st \<noteq> token" by blast
    then show ?thesis
    proof cases
      case 1
      obtain s' where "apply_lease_effects E key ?now \<lparr>eff_updated = None, eff_removed = Some st\<rparr> (drop_lease key ?s) = Some s'" "handed_on key ?now s s'"
        using removed_ok [OF ok', of key st E ?now] st by auto
      with 1 st handed_on_book [OF this(2)] show ?thesis by (auto simp: def release_outcome_def)
    next
      case 2
      with st ok show ?thesis by (simp add: def release_outcome_def)
    next
      case 3
      have "same_book s (counter_inc ''fitz_lease_invalid_token_rejects_total'' ?s)" by (rule same_book_trans [OF _ same_book_counter]) simp
      with 3 st ok book_on_cong [OF this] show ?thesis by (simp add: def release_outcome_def same_book_fields)
    qed
  qed
qed

section \<open>Acquire\<close>

text \<open>The key after expired holders and waiters are gone from it.\<close>

definition prepared :: "lease_key \<Rightarrow> instant \<Rightarrow> lease_state \<Rightarrow> lease_state \<Rightarrow> bool" where
  "prepared key now s s' \<longleftrightarrow>
     (case map_of (leases s) key of
        Some st \<Rightarrow> if expiry st \<le> now then handed_on key now s s' else appends s s'
      | None \<Rightarrow> if queue_in (pending_acquires s) key = [] then appends s s' else handed_on key now s s')"

lemma preparedD:
  assumes "prepared key now s s'" "book_ok s"
  shows "book_ok s'" "frame s s'" "shrinks s s'" "\<And>k. k \<noteq> key \<Longrightarrow> untouched s s' k"
proof -
  have "handed_on key now s s' \<or> appends s s'" using assms(1) by (auto simp: prepared_def split: option.splits if_splits)
  then show "book_ok s'" "frame s s'" "shrinks s s'" "\<And>k. k \<noteq> key \<Longrightarrow> untouched s s' k"
    using assms(2) shrinks_cong [of s s s' s]
    by (auto simp: handed_on_def untouched_def appends_frame appends_book appends_fields)
qed

lemma pending_count_queue: "pending_waiter_count key s = length (queue_in (pending_acquires s) key)"
  by (simp add: pending_waiter_count_def queue_in_def entry_or_def split: option.splits)

lemma prepare_ok:
  assumes ok: "book_ok s"
  shows "\<exists>b s'. prepare_acquire_key E key now s = Some (b, s') \<and> prepared key now s s'"
proof (cases "map_of (leases s) key")
  case None
  with advance_free [OF ok None, of E now] show ?thesis
    by (cases "queue_in (pending_acquires s) key = []") (auto simp: prepare_acquire_key_def prepared_def pending_count_queue)
next
  case (Some st)
  obtain s1 p s2 where "forget_lease E (owner_session_id st) key (drop_lease key s) = Some s1"
    "advance_waiter_queue E key now s1 = Some (p, s2)" "handed_on key now s s2" using pass_on [OF ok Some, of E] by blast
  with Some show ?thesis
    by (cases "expiry st \<le> now") (auto simp: prepare_acquire_key_def prepared_def)
qed

text \<open>The clock leaves room for the longest wait; a queued deadline past it would panic.\<close>

definition clock_fits :: "lease_env \<Rightarrow> bool" where
  "clock_fits E \<longleftrightarrow> (\<forall>i. clock E i + unat LEASE_MAX_WAIT_SECONDS * NANOS < INSTANT_END)"

definition unmoved :: "lease_state \<Rightarrow> lease_state \<Rightarrow> bool" where
  "unmoved s s' \<longleftrightarrow> leases s' = leases s \<and> pending_acquires s' = pending_acquires s \<and> next_token s' = next_token s"

definition lease_of :: "lease_acquire_request \<Rightarrow> u64 \<Rightarrow> instant \<Rightarrow> sink_lease_state \<Rightarrow> bool" where
  "lease_of request token t st \<longleftrightarrow> owner_id st = req_owner_id request \<and> owner_session_id st = req_session_id request
     \<and> fencing_token st = token \<and> expiry st = t \<and> renewals st = 0"

definition waiter_of :: "lease_acquire_request \<Rightarrow> u64 \<Rightarrow> instant \<Rightarrow> pending_acquire \<Rightarrow> bool" where
  "waiter_of request token now w \<longleftrightarrow> w_session_id w = req_session_id request \<and> w_owner_id w = req_owner_id request
     \<and> queued_token w = token \<and> w_ttl_secs w = req_ttl_secs request \<and> Some (w_reply_destination w) = req_reply_destination request
     \<and> expires_at w = now + unat (req_wait_seconds request) * NANOS"

definition acquire_outcome :: "lease_acquire_request \<Rightarrow> instant \<Rightarrow> instant \<Rightarrow> lease_state \<Rightarrow> lease_response \<Rightarrow> lease_state \<Rightarrow> bool" where
  "acquire_outcome request now t s r s' \<longleftrightarrow>
     (let key = req_key request; q = queue_in (pending_acquires s) key; n = next_token s
      in case map_of (leases s) key of
           None \<Rightarrow>
             if n = - 1 then r = LeaseError ''fencing token space exhausted'' \<and> unmoved s s'
             else r = Acquired n \<and> next_token s' = n + 1 \<and> pending_acquires s' = pending_acquires s \<and>
               (\<exists>st. map_of (leases s') = (map_of (leases s))(key \<mapsto> st) \<and> lease_of request n t st)
         | Some st \<Rightarrow>
             if owner_id st = req_owner_id request then r = AlreadyHeld (fencing_token st) \<and> unmoved s s'
             else if req_wait_seconds request = 0 \<or> req_reply_destination request = None
             then r = HeldByOther (owner_id st) \<and> unmoved s s'
             else case find (\<lambda>w. w_owner_id w = req_owner_id request) q of
                    Some w \<Rightarrow> r = AlreadyQueued (queued_token w) \<and> unmoved s s'
                  | None \<Rightarrow>
                      if length q \<ge> LEASE_MAX_QUEUE_DEPTH then r = QueueFull (length q) \<and> unmoved s s'
                      else if n = - 1 then r = LeaseError ''fencing token space exhausted'' \<and> unmoved s s'
                      else r = Queued n \<and> next_token s' = n + 1 \<and> leases s' = leases s \<and>
                        (\<exists>w. pending_acquires s' = put_queue key (q @ [w]) (pending_acquires s) \<and> waiter_of request n now w))"

definition steady :: "lease_state \<Rightarrow> lease_state \<Rightarrow> bool" where
  "steady s s' \<longleftrightarrow> own_family s' = own_family s \<and> cleaned_up s' = cleaned_up s \<and> families s' = families s
     \<and> next_sub_id s' = next_sub_id s \<and> list_snapshots s' = list_snapshots s"

lemma steady_trans: "steady s s' \<Longrightarrow> steady s' s'' \<Longrightarrow> steady s s''"
  by (simp add: steady_def)

lemma frame_steady: "frame s s' \<Longrightarrow> steady s s'"
  by (simp add: frame_def steady_def)

lemma steady_refresh [simp]: "steady s (refresh_metrics_gauges s') = steady s s'"
  using kept_refresh [of s'] by (simp add: steady_def kept_def)

lemma acquired_ok:
  assumes ok: "book_ok s" and free: "map_of (leases s) key = None" and own: "key_family key = own_family s"
    and n: "next_id (next_token s) = Some (n, n')" and st: "fencing_token st = n" "owner_session_id st = sess"
    and s2: "s2 = upsert_admin_lease E key st (track_session_lease sess key (s\<lparr>next_token := n', leases := btree_insert key st (leases s)\<rparr>))"
  shows "\<exists>s'. notify_lease_change E key s2 = Some s' \<and> book_ok s' \<and> steady s s' \<and> next_token s' = n' \<and>
    pending_acquires s' = pending_acquires s \<and> map_of (leases s') = (map_of (leases s))(key \<mapsto> st)"
proof -
  let ?L = "btree_insert key st (leases s)" and ?M = "(map_of (leases s))(key \<mapsto> st)" and ?SL = "track sess key (session_leases s)"
  have lt: "n = next_token s" "next_token s < n'" using next_id_SomeD [OF n] by simp_all
  have 1: "sorted_wrt (<) (map fst ?L)" using book_onD(1) [OF ok] by (simp add: sorted_btree_insert)
  have 2: "holders_ok ?M ?SL" using holders_ok_insert [OF book_onD(2) [OF ok] free, of st] st by simp
  have 3: "tokens_ok n' ?M (pending_acquires s)" using tokens_ok_acquire [OF book_onD(4) [OF ok] lt(2)] st lt by simp
  have 4: "keys_ok (own_family s) ?M (pending_acquires s)" using book_onD(6) [OF ok] own by (auto simp: keys_ok_def)
  have s: "track_session_lease sess key (s\<lparr>next_token := n', leases := ?L\<rparr>) = s\<lparr>leases := ?L, session_leases := ?SL,
      pending_acquires := pending_acquires s, session_waiters := session_waiters s, next_token := n'\<rparr>" by (simp add: track_session_lease_def)
  note up = upsert_ok [OF ok s 1 2 book_onD(3) [OF ok] 3 4, of E, folded s2]
  obtain s' where s': "notify_lease_change E key s2 = Some s'" "appends s2 s'" using notify_total book_onD(7) [OF up(1)] by blast
  have "steady s s2" by (simp add: s2 steady_def track_session_lease_def upsert_admin_lease_def lease_info_from_state_def instant_now_def Let_def)
  then have "steady s s'" by (rule steady_trans [OF _ frame_steady [OF appends_frame [OF s'(2)]]])
  with up s' appends_fields [OF s'(2)] show ?thesis by (simp add: appends_book [OF s'(2)])
qed

lemma enqueue_ok:
  assumes ok: "book_ok s" and own: "key_family key = own_family s" and n: "next_id (next_token s) = Some (n, n')"
    and w: "queued_token w = n" "w_session_id w = sess" and q: "q = queue_in (pending_acquires s) key"
    and len: "length q < LEASE_MAX_QUEUE_DEPTH" and new: "find (\<lambda>v. w_owner_id v = w_owner_id w) q = None"
    and s': "s' = track_session_waiter sess key n (s\<lparr>next_token := n', pending_acquires := AList.update key (q @ [w]) (pending_acquires s)\<rparr>)"
  shows "book_ok s'" "steady s s'" "pending_acquires s' = put_queue key (q @ [w]) (pending_acquires s)" "leases s' = leases s" "next_token s' = n'"
proof -
  let ?P = "put_queue key (q @ [w]) (pending_acquires s)"
  have lt: "n = next_token s" "next_token s < n'" using next_id_SomeD [OF n] by simp_all
  have P: "AList.update key (q @ [w]) (pending_acquires s) = ?P" by (simp add: put_queue_def)
  have "waiters_ok ?P (track sess (key, n) (session_waiters s))"
    unfolding q w(1) [symmetric] w(2) [symmetric]
  proof (rule waiters_ok_push [OF book_onD(3) [OF ok]])
    show "w_owner_id w \<notin> w_owner_id ` set (queue_in (pending_acquires s) key)" using new by (auto simp: q find_None_iff)
    show "queued_token v < queued_token w" if "v \<in> set (queue_in (pending_acquires s) key)" for v
      using queued_lt [OF book_onD(4) [OF ok] that] w(1) lt(1) by simp
  qed (use len q in simp)
  moreover have "tokens_ok n' (map_of (leases s)) ?P" unfolding q by (rule tokens_ok_push [OF book_onD(4) [OF ok] lt(2)]) (simp add: w lt)
  moreover have "keys_ok (own_family s) (map_of (leases s)) ?P" using book_onD(6) [OF ok] own by (auto simp: keys_ok_def)
  ultimately show "book_ok s'" using ok by (simp add: s' track_session_waiter_def book_on_def P)
  show "steady s s'" "pending_acquires s' = ?P" "leases s' = leases s" "next_token s' = n'"
    by (simp_all add: s' track_session_waiter_def steady_def P)
qed

text \<open>The decision on a prepared key, its response and its effects.\<close>

definition finish_acquire :: "lease_env \<Rightarrow> lease_acquire_request \<Rightarrow> instant \<Rightarrow> instant \<Rightarrow> bool \<Rightarrow> lease_state
    \<Rightarrow> (lease_response \<times> lease_state) option" where
  "finish_acquire E request now t prepared_count_changed s =
     (case decide_acquire E request now t s of
        None \<Rightarrow> Some (LeaseError ''fencing token space exhausted'', s)
      | Some (decision, acquired_state, s) \<Rightarrow> do {
          (response, s) \<leftarrow> (case decision of
              Respond response \<Rightarrow> Some (response, s)
            | Enqueue queued \<Rightarrow> queue_acquire_waiter (req_key request) queued s);
          s \<leftarrow> (case acquired_state of
              None \<Rightarrow> Some s
            | Some st \<Rightarrow> notify_lease_change E (req_key request)
                (upsert_admin_lease E (req_key request) st (track_session_lease (req_session_id request) (req_key request) s)));
          Some (response,
            if prepared_count_changed \<or> acquired_state \<noteq> None \<or> is_queued response
            then refresh_metrics_gauges s else s)
        })"

lemma handle_acquire_finish:
  "handle_acquire E request s =
     (case lease_expiry (clock_now E s) (req_ttl_secs request) of
        Inl r \<Rightarrow> Some (r, s\<lparr>readings := readings s + 1\<rparr>)
      | Inr t \<Rightarrow>
          if req_wait_seconds request > LEASE_MAX_WAIT_SECONDS
          then Some (LeaseError (''wait_seconds must not exceed '' @ decimal (unat LEASE_MAX_WAIT_SECONDS)), s\<lparr>readings := readings s + 1\<rparr>)
          else prepare_acquire_key E (req_key request) (clock_now E s) (s\<lparr>readings := readings s + 1\<rparr>) \<bind>
            (\<lambda>(b, s'). finish_acquire E request (clock_now E s) t b s'))"
  unfolding handle_acquire_def instant_now_def clock_now_def finish_acquire_def Let_def prod.case by (rule refl)

lemma unmoved_refresh [simp]: "unmoved s (refresh_metrics_gauges s') = unmoved s s'"
  by (simp add: unmoved_def)

lemma finish_free:
  assumes ok: "book_ok s" and free: "map_of (leases s) (req_key request) = None" and own: "key_family (req_key request) = own_family s"
  shows "\<exists>r s'. finish_acquire E request now t b s = Some (r, s') \<and> book_ok s' \<and> steady s s' \<and> acquire_outcome request now t s r s'"
proof (cases "next_token s = - 1")
  case True
  then show ?thesis using free ok
    by (simp add: finish_acquire_def decide_acquire_def next_fencing_token_def next_id_def acquire_outcome_def unmoved_def steady_def)
next
  case False
  let ?key = "req_key request" and ?n = "next_token s"
  have n: "next_id ?n = Some (?n, ?n + 1)" using False by (simp add: next_id_def)
  define st where "st = \<lparr>owner_id = req_owner_id request, owner_session_id = req_session_id request, fencing_token = ?n, expiry = t,
    acquired_at = utc_now_text E (s\<lparr>next_token := ?n + 1\<rparr>), renewals = 0\<rparr>"
  have st': "fencing_token st = ?n" "owner_session_id st = req_session_id request" "lease_of request ?n t st"
    by (simp_all add: st_def lease_of_def)
  obtain s' where s': "notify_lease_change E ?key (upsert_admin_lease E ?key st (track_session_lease (req_session_id request) ?key
      (s\<lparr>next_token := ?n + 1, leases := btree_insert ?key st (leases s)\<rparr>))) = Some s'"
    "book_ok s'" "steady s s'" "next_token s' = ?n + 1" "pending_acquires s' = pending_acquires s" "map_of (leases s') = (map_of (leases s))(?key \<mapsto> st)"
    using acquired_ok [OF ok free own n st'(1,2) refl, of E] by blast
  have "finish_acquire E request now t b s = Some (Acquired ?n, refresh_metrics_gauges s')"
    using free n s'(1) by (simp add: finish_acquire_def decide_acquire_def next_fencing_token_def st_def Let_def)
  with s' st' free False show ?thesis by (auto simp: acquire_outcome_def Let_def)
qed

lemma deadline_fits:
  assumes "clock_fits E" "\<not> LEASE_MAX_WAIT_SECONDS < secs"
  shows "checked_add_secs (clock_now E s) (unat secs) = Some (clock_now E s + unat secs * NANOS)"
proof -
  have "unat secs \<le> unat LEASE_MAX_WAIT_SECONDS" using assms(2) by (simp add: not_less word_le_nat_alt)
  then have "unat secs * NANOS \<le> unat LEASE_MAX_WAIT_SECONDS * NANOS" by (rule mult_le_mono1)
  moreover have "clock_now E s + unat LEASE_MAX_WAIT_SECONDS * NANOS < INSTANT_END" using assms(1) by (simp add: clock_fits_def clock_now_def)
  ultimately have "clock_now E s + unat secs * NANOS < INSTANT_END" by linarith
  then show ?thesis by (simp add: checked_add_secs_def)
qed

lemma finish_queue:
  assumes ok: "book_ok s" and own: "key_family (req_key request) = own_family s" and st: "map_of (leases s) (req_key request) = Some st"
    and other: "owner_id st \<noteq> req_owner_id request" "req_wait_seconds request \<noteq> 0" "req_reply_destination request = Some dest"
    and new: "find (\<lambda>w. w_owner_id w = req_owner_id request) (queue_in (pending_acquires s) (req_key request)) = None"
    and len: "length (queue_in (pending_acquires s) (req_key request)) < LEASE_MAX_QUEUE_DEPTH" and n: "next_token s \<noteq> - 1"
    and fits: "checked_add_secs now (unat (req_wait_seconds request)) = Some (now + unat (req_wait_seconds request) * NANOS)"
  shows "\<exists>r s'. finish_acquire E request now t b s = Some (r, s') \<and> book_ok s' \<and> steady s s' \<and> acquire_outcome request now t s r s'"
proof -
  let ?key = "req_key request" and ?n = "next_token s"
  let ?q = "queue_in (pending_acquires s) ?key"
  have n': "next_id ?n = Some (?n, ?n + 1)" using n by (simp add: next_id_def)
  define w where "w = \<lparr>w_correlation = req_correlation request, w_session_id = req_session_id request, w_owner_id = req_owner_id request,
    w_reply_destination = dest, w_reply_source = req_reply_source request, w_channel = req_channel request,
    w_route_family = req_route_family request, queued_token = ?n, w_ttl_secs = req_ttl_secs request,
    expires_at = now + unat (req_wait_seconds request) * NANOS\<rparr>"
  have w': "queued_token w = ?n" "w_session_id w = req_session_id request" "w_owner_id w = req_owner_id request" "waiter_of request ?n now w"
    using other(3) by (simp_all add: w_def waiter_of_def)
  define s' where "s' = track_session_waiter (req_session_id request) ?key ?n
    (s\<lparr>next_token := ?n + 1, pending_acquires := AList.update ?key (?q @ [w]) (pending_acquires s)\<rparr>)"
  note e = enqueue_ok [OF ok own n' w'(1,2) refl len _ s'_def, unfolded w'(3), OF new]
  have "finish_acquire E request now t b s = Some (Queued ?n, refresh_metrics_gauges s')"
    using st other n' new len fits by (simp add: finish_acquire_def decide_acquire_def queue_acquire_waiter_def next_fencing_token_def
        queue_in_def [symmetric] w_def s'_def is_queued_def Let_def)
  moreover have "acquire_outcome request now t s (Queued ?n) (refresh_metrics_gauges s')"
    using st other new len n e w'(4) by (auto simp: acquire_outcome_def Let_def)
  ultimately show ?thesis using e(1,2) by auto
qed

lemma finish_held:
  assumes ok: "book_ok s" and own: "key_family (req_key request) = own_family s" and st: "map_of (leases s) (req_key request) = Some st"
    and fits: "checked_add_secs now (unat (req_wait_seconds request)) = Some (now + unat (req_wait_seconds request) * NANOS)"
  shows "\<exists>r s'. finish_acquire E request now t b s = Some (r, s') \<and> book_ok s' \<and> steady s s' \<and> acquire_outcome request now t s r s'"
proof -
  let ?q = "queue_in (pending_acquires s) (req_key request)" and ?find = "\<lambda>q. find (\<lambda>w. w_owner_id w = req_owner_id request) q"
  have "unmoved s s" "unmoved s (refresh_metrics_gauges s)" "steady s s" by (simp_all add: unmoved_def steady_def)
  note def = ok st finish_acquire_def decide_acquire_def queue_acquire_waiter_def next_fencing_token_def next_id_def
    queue_in_def [symmetric] is_queued_def acquire_outcome_def Let_def this
  consider "owner_id st = req_owner_id request" | "owner_id st \<noteq> req_owner_id request" "req_wait_seconds request = 0"
    | "owner_id st \<noteq> req_owner_id request" "req_wait_seconds request \<noteq> 0" "req_reply_destination request = None"
    | d w where "owner_id st \<noteq> req_owner_id request" "req_wait_seconds request \<noteq> 0" "req_reply_destination request = Some d" "?find ?q = Some w"
    | d where "owner_id st \<noteq> req_owner_id request" "req_wait_seconds request \<noteq> 0" "req_reply_destination request = Some d" "?find ?q = None"
        "length ?q \<ge> LEASE_MAX_QUEUE_DEPTH"
    | d where "owner_id st \<noteq> req_owner_id request" "req_wait_seconds request \<noteq> 0" "req_reply_destination request = Some d" "?find ?q = None"
        "length ?q < LEASE_MAX_QUEUE_DEPTH" "next_token s = - 1"
    | d where "owner_id st \<noteq> req_owner_id request" "req_wait_seconds request \<noteq> 0" "req_reply_destination request = Some d" "?find ?q = None"
        "length ?q < LEASE_MAX_QUEUE_DEPTH" "next_token s \<noteq> - 1" by (cases "?find ?q"; cases "req_reply_destination request") force+
  then show ?thesis
  proof cases
    case 7
    show ?thesis by (rule finish_queue [OF ok own st 7 fits])
  qed (simp_all add: def)
qed

definition acquire_result :: "lease_env \<Rightarrow> lease_acquire_request \<Rightarrow> lease_state \<Rightarrow> lease_response \<Rightarrow> lease_state \<Rightarrow> bool" where
  "acquire_result E request s r s' \<longleftrightarrow>
     (case lease_expiry (clock_now E s) (req_ttl_secs request) of
        Inl e \<Rightarrow> r = e \<and> same_book s s'
      | Inr t \<Rightarrow>
          if req_wait_seconds request > LEASE_MAX_WAIT_SECONDS
          then r = LeaseError (''wait_seconds must not exceed '' @ decimal (unat LEASE_MAX_WAIT_SECONDS)) \<and> same_book s s'
          else \<exists>s1. prepared (req_key request) (clock_now E s) s s1 \<and> acquire_outcome request (clock_now E s) t s1 r s')"

lemma prepared_readings: "prepared key now (s\<lparr>readings := n\<rparr>) s' = prepared key now s s'"
proof -
  have "appends (s\<lparr>readings := n\<rparr>) s' = appends s s'" by (simp add: appends_def same_book_readings)
  then show ?thesis by (simp add: prepared_def split: option.splits)
qed

lemma acquire_ok:
  assumes ok: "book_ok s" and own: "key_family (req_key request) = own_family s" and fits: "clock_fits E"
  shows "\<exists>r s'. handle_acquire E request s = Some (r, s') \<and> book_ok s' \<and> steady s s' \<and> acquire_result E request s r s'"
proof -
  let ?s = "s\<lparr>readings := readings s + 1\<rparr>" and ?now = "clock_now E s" and ?key = "req_key request"
  consider e where "lease_expiry ?now (req_ttl_secs request) = Inl e"
    | t where "lease_expiry ?now (req_ttl_secs request) = Inr t" "req_wait_seconds request > LEASE_MAX_WAIT_SECONDS"
    | t where "lease_expiry ?now (req_ttl_secs request) = Inr t" "\<not> req_wait_seconds request > LEASE_MAX_WAIT_SECONDS"
    by (cases "lease_expiry ?now (req_ttl_secs request)") auto
  then show ?thesis
  proof cases
    case 3
    have ok': "book_ok ?s" using ok by simp
    obtain b s1 where s1: "prepare_acquire_key E ?key ?now ?s = Some (b, s1)" and p: "prepared ?key ?now s s1"
      using prepare_ok [OF ok', of E ?key ?now] prepared_readings by blast
    note D = preparedD [OF p ok]
    have own1: "key_family ?key = own_family s1" using own D(2) by (simp add: frame_def)
    have "\<exists>r s'. finish_acquire E request ?now t b s1 = Some (r, s') \<and> book_ok s' \<and> steady s1 s' \<and> acquire_outcome request ?now t s1 r s'"
      using finish_free [OF D(1) _ own1] finish_held [OF D(1) own1 _ deadline_fits [OF fits 3(2)]] by (cases "map_of (leases s1) ?key") blast+
    then obtain r s' where f: "finish_acquire E request ?now t b s1 = Some (r, s')" "book_ok s'" "steady s1 s'" "acquire_outcome request ?now t s1 r s'"
      by blast
    have "steady s s'" by (rule steady_trans [OF frame_steady [OF D(2)] f(3)])
    moreover have "handle_acquire E request s = Some (r, s')" using 3 s1 f(1) by (simp add: handle_acquire_finish)
    moreover have "acquire_result E request s r s'" using 3 p f(4) by (auto simp: acquire_result_def)
    ultimately show ?thesis using f(2) by blast
  qed (use ok in \<open>simp_all add: handle_acquire_finish acquire_result_def steady_def\<close>)
qed

section \<open>Rollback\<close>

definition rollback_outcome :: "lease_key \<Rightarrow> u64 \<Rightarrow> instant \<Rightarrow> lease_state \<Rightarrow> lease_response \<Rightarrow> lease_state \<Rightarrow> bool" where
  "rollback_outcome key sess now s r s' \<longleftrightarrow>
     (case r of
        Acquired t \<Rightarrow>
          if \<exists>st. map_of (leases s) key = Some st \<and> owner_session_id st = sess \<and> fencing_token st = t
          then handed_on key now s s' else s' = s
      | Queued t \<Rightarrow> leases s' = leases s \<and> frame s s' \<and> (\<forall>k. queue_in (pending_acquires s') k =
          filter (\<lambda>w. \<not> (k = key \<and> w_session_id w = sess \<and> queued_token w = t)) (queue_in (pending_acquires s) k))
      | _ \<Rightarrow> s' = s)"

lemma withdraw_ok:
  assumes ok: "book_ok s" and i: "position (\<lambda>w. w_session_id w = sess \<and> queued_token w = t) (queue_in (pending_acquires s) key) = Some i"
    and s': "s' = untrack_session_waiter sess key t (set_queue key (remove_at i (queue_in (pending_acquires s) key)) s)"
  shows "book_ok s'" "leases s' = leases s" "frame s s'" "queue_in (pending_acquires s') k =
    filter (\<lambda>w. \<not> (k = key \<and> w_session_id w = sess \<and> queued_token w = t)) (queue_in (pending_acquires s) k)"
proof -
  let ?q = "queue_in (pending_acquires s) key"
  let ?P = "put_queue key (remove_at i ?q) (pending_acquires s)"
  have i': "i < length ?q" "w_session_id (?q ! i) = sess" "queued_token (?q ! i) = t" using position_SomeD [OF i] by auto
  have d: "distinct (map queued_token ?q)" by (rule queue_ok_distinct [OF queue_ok_in [OF ok]])
  have f: "remove_at i ?q = filter (\<lambda>w. \<not> (w_session_id w = sess \<and> queued_token w = t)) ?q"
  proof -
    have "w = ?q ! i" if "w \<in> set ?q" "queued_token w = t" for w
      using d that i' by (metis (no_types, lifting) distinct_map inj_onD nth_mem)
    with i' have "filter (\<lambda>w. queued_token w \<noteq> t) ?q = filter (\<lambda>w. \<not> (w_session_id w = sess \<and> queued_token w = t)) ?q"
      by (intro filter_cong) auto
    with filter_other_tokens(1) [OF d i'(1)] i' show ?thesis by simp
  qed
  have "waiters_ok ?P (untrack sess (key, t) (session_waiters s))" using waiters_ok_remove_at [OF book_onD(3) [OF ok] i'(1)] i' by simp
  moreover have sub: "set (queue_in ?P j) \<subseteq> set (queue_in (pending_acquires s) j)" for j by (auto simp: f)
  moreover note tokens_ok_queue [OF book_onD(4) [OF ok] sub] keys_ok_queue [OF book_onD(6) [OF ok] sub]
  ultimately show "book_ok s'" using ok by (simp add: s' set_queue_put untrack_session_waiter_def book_on_def)
  show "leases s' = leases s" "frame s s'" by (simp_all add: s' set_queue_put untrack_session_waiter_def frame_def)
  show "queue_in (pending_acquires s') k = filter (\<lambda>w. \<not> (k = key \<and> w_session_id w = sess \<and> queued_token w = t)) (queue_in (pending_acquires s) k)"
    using f by (simp add: s' set_queue_put untrack_session_waiter_def)
qed

lemma withdraw_nothing:
  assumes "\<forall>w \<in> set (queue_in P key). \<not> (w_session_id w = sess \<and> queued_token w = t)"
  shows "filter (\<lambda>w. \<not> (k = key \<and> w_session_id w = sess \<and> queued_token w = t)) (queue_in P k) = queue_in P k"
  using assms by (cases "k = key") (simp_all add: filter_id_conv)

lemma rollback_queued_ok:
  assumes ok: "book_ok s"
  shows "\<exists>s'. rollback_undeliverable_acquire E key sess (Queued t) s = Some s' \<and> book_ok s' \<and> rollback_outcome key sess now s (Queued t) s'"
proof -
  let ?q = "queue_in (pending_acquires s) key" and ?mine = "\<lambda>w. w_session_id w = sess \<and> queued_token w = t"
  show ?thesis
  proof (cases "position ?mine ?q")
    case None
    then have "rollback_undeliverable_acquire E key sess (Queued t) s = Some s"
    proof (cases "map_of (pending_acquires s) key")
      case (Some q)
      have "q \<noteq> []" using book_onD(3) [OF ok] map_of_SomeD [OF Some] by (force simp: waiters_ok_def)
      then have "set_queue key q s = s" using Some by (simp add: set_queue_def update_triv)
      with None Some show ?thesis by (simp add: rollback_undeliverable_acquire_def map_of_queue)
    qed (simp add: rollback_undeliverable_acquire_def)
    moreover have "rollback_outcome key sess now s (Queued t) s"
      using None withdraw_nothing [of "pending_acquires s" key sess t] by (simp add: rollback_outcome_def position_None_iff)
    ultimately show ?thesis using ok by blast
  next
    case (Some i)
    then obtain q where q: "map_of (pending_acquires s) key = Some q" "?q = q"
      by (cases "map_of (pending_acquires s) key") (auto simp: map_of_queue)
    note w = withdraw_ok [OF ok Some refl]
    have "rollback_undeliverable_acquire E key sess (Queued t) s =
        Some (refresh_metrics_gauges (untrack_session_waiter sess key t (set_queue key (remove_at i ?q) s)))"
      using Some q by (simp add: rollback_undeliverable_acquire_def)
    then show ?thesis using w by (simp add: rollback_outcome_def)
  qed
qed

lemma rollback_ok:
  assumes ok: "book_ok s"
  shows "\<exists>s' i. rollback_undeliverable_acquire E key sess r s = Some s' \<and> book_ok s' \<and> rollback_outcome key sess (clock E i) s r s'"
proof (cases "\<exists>t. r = Queued t")
  case True
  then show ?thesis using rollback_queued_ok [OF ok] by blast
next
  case False
  show ?thesis
  proof (cases "\<exists>t st. r = Acquired t \<and> map_of (leases s) key = Some st \<and> owner_session_id st = sess \<and> fencing_token st = t")
    case True
    then obtain st where st: "r = Acquired (fencing_token st)" "map_of (leases s) key = Some st" "owner_session_id st = sess" by auto
    obtain s1 where s1: "forget_lease E sess key (drop_lease key s) = Some s1"
      "\<And>now n. \<exists>p s2. advance_waiter_queue E key now (s1\<lparr>readings := n\<rparr>) = Some (p, s2) \<and> handed_on key now s s2"
      using pass_on [OF ok st(2), of E] unfolding st(3) by blast
    then obtain p s2 where s2: "advance_waiter_queue E key (clock E (readings s1)) (s1\<lparr>readings := readings s1 + 1\<rparr>) = Some (p, s2)"
      "handed_on key (clock E (readings s1)) s s2" by blast
    have "rollback_undeliverable_acquire E key sess r s = Some (refresh_metrics_gauges s2)"
      using st s1(1) s2(1) by (simp add: rollback_undeliverable_acquire_def instant_now_def)
    moreover have "rollback_outcome key sess (clock E (readings s1)) s r (refresh_metrics_gauges s2)"
      using st s2(2) by (auto simp: rollback_outcome_def)
    ultimately show ?thesis using handed_on_book [OF s2(2)] by auto
  next
    case No: False
    then have "rollback_undeliverable_acquire E key sess r s = Some s"
      using False by (cases r) (auto simp: rollback_undeliverable_acquire_def split: option.splits)
    moreover have "rollback_outcome key sess now s r s" for now
      using No False by (cases r) (auto simp: rollback_outcome_def)
    ultimately show ?thesis using ok by blast
  qed
qed

end
