(* ===== verification/Lease_Watch.thy ===== *)
theory Lease_Watch
  imports Lease_Requests Coverage
begin

text \<open>
  The watches of the lease domain (\<^verbatim>\<open>src/domains/lease/sink/subscriptions.rs\<close>): subscribing,
  unsubscribing and the rollback of a subscription whose confirmation could not be delivered keep the
  registration sets well formed, within the trie slots used so far, and touch nothing else.
\<close>

section \<open>What requests leave alone\<close>

definition same_core :: "lease_state \<Rightarrow> lease_state \<Rightarrow> bool" where
  "same_core s s' \<longleftrightarrow> own_family s' = own_family s \<and> leases s' = leases s \<and> session_leases s' = session_leases s
     \<and> pending_acquires s' = pending_acquires s \<and> session_waiters s' = session_waiters s \<and> next_token s' = next_token s
     \<and> admin_leases (admin s') = admin_leases (admin s) \<and> cleaned_up s' = cleaned_up s"

lemma same_core_refl [simp]: "same_core s s"
  by (simp add: same_core_def)

lemma same_core_trans: "same_core s s' \<Longrightarrow> same_core s' s'' \<Longrightarrow> same_core s s''"
  by (simp add: same_core_def)

lemma same_core_book: "same_core s s' \<Longrightarrow> families_ok (families s') \<Longrightarrow> book_on M s \<Longrightarrow> book_on M s'"
  by (simp add: same_core_def book_on_def)

lemma same_book_core: "same_book s s' \<Longrightarrow> same_core s s'"
  by (simp add: same_core_def same_book_fields)

lemma same_core_refresh [simp]: "same_core s (refresh_metrics_gauges s') = same_core s s'"
  by (simp add: same_core_def) (simp add: refresh_metrics_gauges_def set_lease_family_waiter_count_def live_counts_def Let_def)

section \<open>Compiled routes\<close>

lemma set_ok_mono: "set_ok k fam S \<Longrightarrow> k \<le> k' \<Longrightarrow> set_ok k' fam S"
  by (auto simp: set_ok_but_def intro: wildcards_ok_mono)

lemma watchers_mono: "watchers_ok k n fam S \<Longrightarrow> k \<le> k' \<Longrightarrow> n \<le> n' \<Longrightarrow> watchers_ok k' n' fam S"
  unfolding watchers_ok_def using set_ok_mono by (blast intro: less_le_trans)

lemma subs_mono: "subs_ok k n F \<Longrightarrow> k \<le> k' \<Longrightarrow> n \<le> n' \<Longrightarrow> subs_ok k' n' F"
  unfolding subs_ok_def using watchers_mono by blast

lemma compile_watch:
  assumes "compile_lease_subscription_route route = Inr p"
  shows "pat_route p = route" "double_star_free (parse_pattern_segments route)"
proof -
  have c: "compile_registration_pattern route (scheme (descriptor Lease)) (registration_depth (descriptor Lease)) = Inr p"
    using assms by (auto simp: compile_lease_subscription_route_def descriptor_compile_registration_pattern_def split: sum.splits if_splits)
  then obtain path where path: "p = pattern_new route" "\<not> adjacent (\<lambda>s t. s = ''**'' \<and> t = ''**'') (split_on CHR ''/'' path)"
    "pat_segments p = map parse_segment (split_on CHR ''/'' path)" by (rule compile_Inr) (rule that)
  have "pat_route (pattern_new route) = route \<and> pat_segments (pattern_new route) = parse_pattern_segments route"
    by (simp add: pattern_new_def parse_pattern_def parse_pattern_segments_def split_def Let_def)
  then show "pat_route p = route" and seg: "double_star_free (parse_pattern_segments route)"
    using path by (auto simp: double_star_free_def adjacent_map parse_segment_double_star)
qed

section \<open>Subscribing\<close>

lemma subs_update:
  assumes "subs_ok k n F" "watchers_ok k n fam S"
  shows "subs_ok k n (AList.update (ucast fam) S F)"
proof -
  have d: "distinct (map fst F)" using assms(1) by (simp add: subs_ok_def)
  have "\<exists>fam. fid = ucast fam \<and> watchers_ok k n fam T" if "(fid, T) \<in> set (AList.update (ucast fam) S F)" for fid T
  proof -
    have "map_of (AList.update (ucast fam) S F) fid = Some T" using that d by (simp add: distinct_update)
    then have "fid = ucast fam \<and> T = S \<or> (fid, T) \<in> set F" by (auto simp: update_conv' split: if_splits dest: map_of_SomeD)
    then show ?thesis using assms by (auto simp: subs_ok_def)
  qed
  with d show ?thesis unfolding subs_ok_def by (auto simp: distinct_update)
qed

lemma subs_delete: "subs_ok k n F \<Longrightarrow> subs_ok k n (AList.delete fid F)"
  unfolding subs_ok_def AList.delete_eq by (auto simp: distinct_map_filter)

lemma subs_entry: "subs_ok k n F \<Longrightarrow> map_of F (ucast fam) = Some S \<Longrightarrow> watchers_ok k n fam S"
  by (auto simp: subs_ok_def dest!: map_of_SomeD)

lemma watchers_new: "watchers_ok k n fam subscription_set_new"
proof -
  have "set_ok k fam subscription_set_new" using set_ok_mono [OF set_ok_new] by simp
  then show ?thesis by (simp add: watchers_ok_def subscription_set_new_def)
qed

lemma subs_entry_or: "subs_ok k n F \<Longrightarrow> watchers_ok k n fam (entry_or subscription_set_new F (ucast fam))"
  using subs_entry watchers_new by (simp add: entry_or_def split: option.splits)

definition watch_cost :: "route \<Rightarrow> nat" where
  "watch_cost route = length (parse_pattern_segments route) + 1"

lemma watchers_insert:
  assumes ok: "watchers_ok k n fam S" and n: "next_id n = Some (sid, n')" and c: "compile_lease_subscription_route route = Inr p"
    and new: "find_existing_id S sess route = None" and room: "k + watch_cost route \<le> 2 ^ 32"
    and sub: "sub = \<lparr>sub_pattern = p, session_id = sess, subscription_id_of = sid, sub_address = subscriber\<rparr>"
  obtains S' where "set_insert ''lease'' S w fam sub = Some (S', record_registration_delta ''lease'' True w)"
    "watchers_ok (k + watch_cost route) n' fam S'"
proof -
  note cw = compile_watch [OF c]
  have sid: "sid = n" "n < n'" using next_id_SomeD [OF n] by auto
  have r: "sub_route sub = route" "subscription_id_of sub = sid" "session_id sub = sess" using cw(1) by (simp_all add: sub)
  have cost: "set_cost sub = watch_cost route" by (simp add: set_cost_def watch_cost_def r)
  have "map_of (subscriptions S) sid = None"
    using ok sid(1) by (cases "map_of (subscriptions S) sid") (auto simp: watchers_ok_def)
  then obtain S' where S': "set_insert ''lease'' S w fam sub = Some (S', record_registration_delta ''lease'' True w)"
    "set_ok (k + watch_cost route) fam S'" "map_of (subscriptions S') = (map_of (subscriptions S))(sid \<mapsto> sub)"
    using set_insert_ok [of k fam S sub "''lease''" w] ok new room by (auto simp: r cost watchers_ok_def)
  have "i < n' \<and> (wild x \<longrightarrow> double_star_free (parse_pattern_segments (sub_route x)))" if "map_of (subscriptions S') i = Some x" for i x
  proof (cases "i = sid")
    case True
    with that have "x = sub" by (simp add: S'(3))
    with True cw(2) sid r(1) show ?thesis by simp
  next
    case False
    with that ok sid(2) show ?thesis by (auto simp: S'(3) watchers_ok_def intro: less_trans)
  qed
  with S'(2) have "watchers_ok (k + watch_cost route) n' fam S'" by (simp add: watchers_ok_def)
  with S'(1) show thesis by (rule that)
qed

text \<open>Everything but the watches, their identifiers and their telemetry.\<close>

definition watch_only :: "lease_state \<Rightarrow> lease_state \<Rightarrow> bool" where
  "watch_only s s' \<longleftrightarrow> same_core s s' \<and> list_snapshots s' = list_snapshots s \<and> next_sub_id s \<le> next_sub_id s'"

lemma subscribe_ok:
  assumes subs: "subs_ok k (next_sub_id s) (families s)" and room: "k + watch_cost route \<le> 2 ^ 32"
  shows "\<exists>r s'. handle_lease_subscribe env meta fam route sess subscriber s = Some (r, s') \<and> watch_only s s' \<and>
    subs_ok (k + watch_cost route) (next_sub_id s') (families s')"
proof -
  let ?S = "entry_or subscription_set_new (families s) (ucast fam)" and ?F = "families s" and ?n = "next_sub_id s" and ?k = "k + watch_cost route"
  have m: "subs_ok ?k ?n ?F" using subs_mono [OF subs] by simp
  have w: "watchers_ok k ?n fam ?S" by (rule subs_entry_or [OF subs])
  have u: "subs_ok ?k ?n (AList.update (ucast fam) ?S ?F)" using subs_update [OF m watchers_mono [OF w]] by simp
  consider "\<not> valid_subscription_request env meta fam sess subscriber"
    | e where "valid_subscription_request env meta fam sess subscriber" "compile_lease_subscription_route route = Inl e"
    | p sid where "valid_subscription_request env meta fam sess subscriber" "compile_lease_subscription_route route = Inr p"
        "find_existing_id ?S sess route = Some sid"
    | p limit where "valid_subscription_request env meta fam sess subscriber" "compile_lease_subscription_route route = Inr p"
        "find_existing_id ?S sess route = None" "registration_limit_for_session ?S sess p = Some limit"
    | p where "valid_subscription_request env meta fam sess subscriber" "compile_lease_subscription_route route = Inr p"
        "find_existing_id ?S sess route = None" "registration_limit_for_session ?S sess p = None" "next_id ?n = None"
    | p sid n' where "valid_subscription_request env meta fam sess subscriber" "compile_lease_subscription_route route = Inr p"
        "find_existing_id ?S sess route = None" "registration_limit_for_session ?S sess p = None" "next_id ?n = Some (sid, n')"
    by (metis option.exhaust old.prod.exhaust sum.exhaust)
  then show ?thesis
  proof cases
    case 5
    with u subs_delete [OF u] show ?thesis by (simp add: handle_lease_subscribe_def watch_only_def same_core_def Let_def)
  next
    case (6 p sid n')
    let ?sub = "\<lparr>sub_pattern = p, session_id = sess, subscription_id_of = sid, sub_address = subscriber\<rparr>"
    obtain S' where S': "set_insert ''lease'' ?S (registrations s) fam ?sub = Some (S', record_registration_delta ''lease'' True (registrations s))"
      "watchers_ok ?k n' fam S'" by (rule watchers_insert [OF w 6(5,2,3) room refl])
    have le: "?n \<le> n'" using next_id_SomeD [OF 6(5)] by (auto intro: less_imp_le)
    have "subs_ok ?k n' (AList.update (ucast fam) S' (AList.update (ucast fam) ?S ?F))" by (rule subs_update [OF subs_mono [OF u _ le] S'(2)]) simp
    with 6 S' le show ?thesis by (simp add: handle_lease_subscribe_def watch_only_def same_core_def Let_def)
  qed (use m u in \<open>simp_all add: handle_lease_subscribe_def watch_only_def same_core_def counter_inc_def Let_def\<close>)
qed

section \<open>Unsubscribing\<close>

lemma watchers_remove:
  assumes ok: "watchers_ok k n fam S"
  shows "\<exists>S' w'. remove_subscription md S w fam sid = Some (S', w') \<and> watchers_ok k n fam S'"
proof -
  have so: "set_ok k fam S" using ok by (simp add: watchers_ok_def)
  have "\<exists>S' w'. remove_subscription md S w fam sid = Some (S', w')"
  proof (cases "map_of (subscriptions S) sid")
    case None
    then show ?thesis by (simp add: remove_subscription_def)
  next
    case (Some x)
    then show ?thesis using remove_subscription_ok [OF so Some] by metis
  qed
  then obtain S' w' where r: "remove_subscription md S w fam sid = Some (S', w')" by blast
  from watchers_shrink [OF ok remove_subscription_frame [OF so r]] r show ?thesis by blast
qed

lemma subs_put:
  assumes "subs_ok k n F" "watchers_ok k n fam S"
  shows "subs_ok k n (families (put_family (ucast fam) S (s\<lparr>families := F, registrations := w\<rparr>)))"
  using subs_update [OF assms] subs_delete [OF assms(1)] by (simp add: put_family_def)

lemma unsubscribe_ok:
  assumes subs: "subs_ok k (next_sub_id s) (families s)"
  shows "\<exists>r s'. handle_lease_unsubscribe env meta fam route sess subscriber s = Some (r, s') \<and> watch_only s s' \<and>
    subs_ok k (next_sub_id s') (families s')"
proof (cases "map_of (families s) (ucast fam)")
  case None
  then show ?thesis using subs by (auto simp: handle_lease_unsubscribe_def watch_only_def split: sum.splits)
next
  case (Some S)
  have ok: "watchers_ok k (next_sub_id s) fam S" by (rule subs_entry [OF subs Some])
  have "\<exists>m S' w'. remove_session_pattern ''lease'' S (registrations s) fam sess route = Some (m, S', w') \<and> watchers_ok k (next_sub_id s) fam S'"
    using ok watchers_remove [OF ok, of "''lease''" "registrations s"] by (fastforce simp: remove_session_pattern_def split: option.splits)
  then obtain m S' w' where r: "remove_session_pattern ''lease'' S (registrations s) fam sess route = Some (m, S', w')"
    "watchers_ok k (next_sub_id s) fam S'" by blast
  from subs_put [OF subs r(2), of w' s] Some r(1) subs show ?thesis
    by (auto simp: handle_lease_unsubscribe_def watch_only_def same_core_def put_family_def split: sum.splits)
qed

lemma rollback_watch_ok:
  assumes subs: "subs_ok k (next_sub_id s) (families s)"
  shows "\<exists>s'. rollback_undeliverable_subscription fam sess sid s = Some s' \<and> watch_only s s' \<and> subs_ok k (next_sub_id s') (families s')"
proof (cases "map_of (families s) (ucast fam)")
  case None
  then show ?thesis using subs kept_refresh [of s] by (auto simp: rollback_undeliverable_subscription_def watch_only_def kept_def)
next
  case (Some S)
  have ok: "watchers_ok k (next_sub_id s) fam S" by (rule subs_entry [OF subs Some])
  have "\<exists>b S' w'. remove_subscription_for_session ''lease'' S (registrations s) fam sess sid = Some (b, S', w') \<and> watchers_ok k (next_sub_id s) fam S'"
    using ok watchers_remove [OF ok, of "''lease''" "registrations s" sid] by (fastforce simp: remove_subscription_for_session_def Let_def)
  then obtain b S' w' where r: "remove_subscription_for_session ''lease'' S (registrations s) fam sess sid = Some (b, S', w')"
    "watchers_ok k (next_sub_id s) fam S'" by blast
  let ?s = "put_family (ucast fam) S' (s\<lparr>registrations := w'\<rparr>)"
  from subs_put [OF subs r(2), of w' s] Some r(1) kept_refresh [of ?s] show ?thesis
    by (simp add: rollback_undeliverable_subscription_def watch_only_def kept_def) (simp add: same_core_def put_family_def)
qed

end
