(* ===== verification/Lease_Reach.thy ===== *)
theory Lease_Reach
  imports Lease_Watch
begin

text \<open>
  The family actor as a transition system: every command of the mailbox, and what the actors of other
  families do to the shared counters, snapshots and admin rows. Reachable states have a good book, no
  command panics, and tokens only grow; as long as no queued time to live overflows the clock, a key with
  waiters is never free and its holder has a smaller token than they have.
\<close>

section \<open>How tokens move\<close>

definition same_grant :: "sink_lease_state \<Rightarrow> sink_lease_state \<Rightarrow> bool" where
  "same_grant st st' \<longleftrightarrow> fencing_token st' = fencing_token st \<and> owner_id st' = owner_id st \<and> owner_session_id st' = owner_session_id st"

definition progress :: "lease_state \<Rightarrow> lease_state \<Rightarrow> bool" where
  "progress s s' \<longleftrightarrow> next_token s \<le> next_token s' \<and>
     (\<forall>k. \<forall>w \<in> set (queue_in (pending_acquires s') k). w \<in> set (queue_in (pending_acquires s) k) \<or> next_token s \<le> queued_token w) \<and>
     (\<forall>k st. map_of (leases s') k = Some st \<longrightarrow> next_token s \<le> fencing_token st
        \<or> (\<exists>st0. map_of (leases s) k = Some st0 \<and> same_grant st0 st)
        \<or> (\<exists>w \<in> set (queue_in (pending_acquires s) k). queued_token w = fencing_token st))"

lemma progress_refl: "progress s s"
  by (auto simp: progress_def same_grant_def)

lemma progress_trans:
  assumes 1: "progress s s'" and 2: "progress s' s''"
  shows "progress s s''"
  unfolding progress_def
proof (intro conjI allI ballI impI)
  show "next_token s \<le> next_token s''" using 1 2 by (auto simp: progress_def)
next
  fix k w assume "w \<in> set (queue_in (pending_acquires s'') k)"
  with 2 have "w \<in> set (queue_in (pending_acquires s') k) \<or> next_token s' \<le> queued_token w" by (simp add: progress_def)
  with 1 show "w \<in> set (queue_in (pending_acquires s) k) \<or> next_token s \<le> queued_token w"
    unfolding progress_def by (meson order_trans)
next
  fix k st assume "map_of (leases s'') k = Some st"
  with 2 consider "next_token s' \<le> fencing_token st" | st0 where "map_of (leases s') k = Some st0" "same_grant st0 st"
    | w where "w \<in> set (queue_in (pending_acquires s') k)" "queued_token w = fencing_token st" unfolding progress_def by blast
  then show "next_token s \<le> fencing_token st \<or> (\<exists>st0. map_of (leases s) k = Some st0 \<and> same_grant st0 st)
    \<or> (\<exists>w \<in> set (queue_in (pending_acquires s) k). queued_token w = fencing_token st)"
  proof cases
    case 1
    then show ?thesis using \<open>progress s s'\<close> unfolding progress_def by (meson order_trans)
  next
    case 2
    then show ?thesis using \<open>progress s s'\<close> unfolding progress_def same_grant_def by metis
  next
    case 3
    then show ?thesis using \<open>progress s s'\<close> unfolding progress_def by metis
  qed
qed

lemma progress_shrinks:
  assumes "shrinks s s'" "next_token s \<le> next_token s'"
  shows "progress s s'"
proof -
  have "(\<exists>st0. map_of (leases s) k = Some st0 \<and> same_grant st0 st) \<or> (\<exists>w \<in> set (queue_in (pending_acquires s) k). queued_token w = fencing_token st)"
    if "map_of (leases s') k = Some st" for k st
    using shrinks_holder [OF assms(1) that] unfolding lease_for_def same_grant_def by metis
  then show ?thesis using assms(2) shrinks_queue [OF assms(1)] unfolding progress_def by blast
qed

text \<open>A time to live that the clock can always represent.\<close>

definition ttl_calm :: "lease_env \<Rightarrow> u64 \<Rightarrow> bool" where
  "ttl_calm E ttl_secs \<longleftrightarrow> (\<forall>i e. lease_expiry (clock E i) ttl_secs \<noteq> Inl e)"

definition orderly :: "lease_env \<Rightarrow> lease_state \<Rightarrow> bool" where
  "orderly E s \<longleftrightarrow> (\<forall>k. ordered s k \<and> (map_of (leases s) k = None \<longrightarrow> queue_in (pending_acquires s) k = [])
     \<and> (\<forall>w \<in> set (queue_in (pending_acquires s) k). ttl_calm E (w_ttl_secs w)))"

definition evolves :: "lease_env \<Rightarrow> u64 set \<Rightarrow> lease_state \<Rightarrow> lease_state \<Rightarrow> bool" where
  "evolves E T s s' \<longleftrightarrow> progress s s' \<and> ((\<forall>ttl \<in> T. ttl_calm E ttl) \<longrightarrow> orderly E s \<longrightarrow> orderly E s')"

lemma evolves_trans: "evolves E T s s' \<Longrightarrow> evolves E T s' s'' \<Longrightarrow> evolves E T s s''"
  unfolding evolves_def using progress_trans by blast

lemma evolves_core: "same_core s s' \<Longrightarrow> evolves E T s s'"
  using progress_refl [of s] by (simp add: evolves_def same_core_def progress_def orderly_def ordered_def)

lemma evolves_shrinks:
  assumes sh: "shrinks s s'" and n: "next_token s \<le> next_token s'"
    and idle: "\<And>k. map_of (leases s') k = None \<Longrightarrow> queue_in (pending_acquires s') k = []
      \<or> map_of (leases s) k = None \<and> queue_in (pending_acquires s) k \<noteq> []
      \<or> (\<exists>w \<in> set (queue_in (pending_acquires s) k). \<exists>i e. lease_expiry (clock E i) (w_ttl_secs w) = Inl e)"
  shows "evolves E T s s'"
proof -
  have "orderly E s'" if o: "orderly E s"
    unfolding orderly_def
  proof (intro allI conjI impI ballI)
    fix k
    show "ordered s' k" using o shrinks_ordered [OF sh] by (simp add: orderly_def)
    show "queue_in (pending_acquires s') k = []" if "map_of (leases s') k = None"
      using idle [OF that] o unfolding orderly_def ttl_calm_def by blast
    show "ttl_calm E (w_ttl_secs w)" if "w \<in> set (queue_in (pending_acquires s') k)" for w
      using o shrinks_queue [OF sh] that unfolding orderly_def by blast
  qed
  with progress_shrinks [OF sh n] show ?thesis by (simp add: evolves_def)
qed

lemma evolves_handed_on:
  assumes "handed_on key (clock E i) s s'"
  shows "evolves E T s s'"
proof (rule evolves_shrinks)
  show "shrinks s s'" "next_token s \<le> next_token s'" using assms by (simp_all add: handed_on_def frame_def)
  fix k assume free: "map_of (leases s') k = None"
  show "queue_in (pending_acquires s') k = [] \<or> map_of (leases s) k = None \<and> queue_in (pending_acquires s) k \<noteq> []
    \<or> (\<exists>w \<in> set (queue_in (pending_acquires s) k). \<exists>i e. lease_expiry (clock E i) (w_ttl_secs w) = Inl e)"
  proof (cases "k = key")
    case True
    have "fifo_outcome (clock E i) (alive (clock E i) (queue_in (pending_acquires s) key)) None (queue_in (pending_acquires s') key) (set (routed s'))"
      using assms free True by (simp add: handed_on_def)
    from fifo_settled(3) [OF this] True show ?thesis by (auto simp: alive_def)
  next
    case False
    then show ?thesis using assms free by (auto simp: handed_on_def untouched_def)
  qed
qed

section \<open>The operations\<close>

lemma evolves_unmoved: "unmoved s s' \<Longrightarrow> evolves E T s s'"
  using progress_refl [of s] by (simp add: evolves_def unmoved_def progress_def orderly_def ordered_def)

lemma evolves_grant:
  assumes free: "map_of (leases s) key = None" and n: "next_token s < next_token s'" and P: "pending_acquires s' = pending_acquires s"
    and st: "map_of (leases s') = (map_of (leases s))(key \<mapsto> st)" "fencing_token st = next_token s"
  shows "evolves E T s s'"
proof -
  have "progress s s'" using n st by (auto simp: progress_def same_grant_def P split: if_splits)
  moreover have "orderly E s'" if "orderly E s" using that free by (auto simp: orderly_def ordered_def P st(1) split: if_splits)
  ultimately show ?thesis by (simp add: evolves_def)
qed

lemma evolves_enqueue:
  assumes ok: "book_ok s" and held: "map_of (leases s) key = Some st" and n: "next_token s < next_token s'" and L: "leases s' = leases s"
    and P: "pending_acquires s' = put_queue key (queue_in (pending_acquires s) key @ [w]) (pending_acquires s)"
    and w: "queued_token w = next_token s" "w_ttl_secs w \<in> T"
  shows "evolves E T s s'"
proof -
  have "progress s s'" using n w by (auto simp: progress_def same_grant_def P L split: if_splits)
  moreover have "orderly E s'" if o: "orderly E s" and T: "\<forall>ttl \<in> T. ttl_calm E ttl"
  proof -
    have lt: "fencing_token st < queued_token w" using held_lt [OF book_onD(4) [OF ok] held] w(1) by simp
    have "ordered s k" "map_of (leases s) k = None \<longrightarrow> queue_in (pending_acquires s) k = []"
      "\<forall>v \<in> set (queue_in (pending_acquires s) k). ttl_calm E (w_ttl_secs v)" for k using o by (simp_all add: orderly_def)
    with lt held T w(2) show ?thesis unfolding orderly_def by (simp add: ordered_def P L)
  qed
  ultimately show ?thesis by (simp add: evolves_def)
qed

lemma next_word_less: "n \<noteq> - 1 \<Longrightarrow> n < n + 1" for n :: u64
  using next_id_SomeD [of n n "n + 1"] by (simp add: next_id_def)

lemma evolves_acquire_outcome:
  assumes ok: "book_ok s" and o: "acquire_outcome request now t s r s'" and T: "req_ttl_secs request \<in> T"
  shows "evolves E T s s'"
proof -
  let ?key = "req_key request"
  consider "unmoved s s'"
    | st where "map_of (leases s) ?key = None" "next_token s \<noteq> - 1" "next_token s' = next_token s + 1" "pending_acquires s' = pending_acquires s"
        "map_of (leases s') = (map_of (leases s))(?key \<mapsto> st)" "lease_of request (next_token s) t st"
    | st w where "map_of (leases s) ?key = Some st" "next_token s \<noteq> - 1" "next_token s' = next_token s + 1" "leases s' = leases s"
        "pending_acquires s' = put_queue ?key (queue_in (pending_acquires s) ?key @ [w]) (pending_acquires s)" "waiter_of request (next_token s) now w"
    using o unfolding acquire_outcome_def Let_def by (auto split: option.splits if_splits)
  then show ?thesis
  proof cases
    case 1
    then show ?thesis by (rule evolves_unmoved)
  next
    case 2
    then show ?thesis by (intro evolves_grant) (auto simp: lease_of_def intro: next_word_less)
  next
    case 3
    then show ?thesis using T by (intro evolves_enqueue [OF ok]) (auto simp: waiter_of_def intro: next_word_less)
  qed
qed

lemma evolves_prepared: "prepared key (clock E i) s s' \<Longrightarrow> evolves E T s s'"
  by (auto simp: prepared_def appends_def split: option.splits if_splits intro: evolves_handed_on evolves_core same_book_core)

lemma evolves_acquire:
  assumes ok: "book_ok s" and a: "acquire_result E request s r s'" and T: "req_ttl_secs request \<in> T"
  shows "evolves E T s s'"
proof -
  from a consider "same_book s s'"
    | t s1 where "prepared (req_key request) (clock_now E s) s s1" "acquire_outcome request (clock_now E s) t s1 r s'"
    unfolding acquire_result_def by (auto split: sum.splits if_splits)
  then show ?thesis
  proof cases
    case 1
    then show ?thesis by (intro evolves_core same_book_core)
  next
    case 2
    then show ?thesis
      using evolves_trans [OF evolves_prepared evolves_acquire_outcome [OF preparedD(1) [OF 2(1) ok] 2(2) T]] by (simp add: clock_now_def)
  qed
qed

lemma evolves_extend:
  assumes "extend_outcome key owner token ttl_secs (clock_now E s) s r s'"
  shows "evolves E T s s'"
proof -
  from assms consider "same_book s s'" | "handed_on key (clock_now E s) s s'"
    | st t where "map_of (leases s) key = Some st" "next_token s' = next_token s" "pending_acquires s' = pending_acquires s"
        "map_of (leases s') = (map_of (leases s))(key \<mapsto> st\<lparr>expiry := t, renewals := saturating_inc (renewals st)\<rparr>)"
    unfolding extend_outcome_def frame_def by (auto split: sum.splits option.splits if_splits)
  then show ?thesis
  proof cases
    case 1
    then show ?thesis by (intro evolves_core same_book_core)
  next
    case 2
    then show ?thesis unfolding clock_now_def by (rule evolves_handed_on)
  next
    case 3
    then show ?thesis by (auto simp: evolves_def progress_def same_grant_def orderly_def ordered_def split: if_splits)
  qed
qed

lemma evolves_release:
  assumes "release_outcome key owner token (clock_now E s) s r s'"
  shows "evolves E T s s'"
proof -
  from assms have "same_book s s' \<or> handed_on key (clock_now E s) s s'" unfolding release_outcome_def by (auto split: option.splits if_splits)
  then show ?thesis unfolding clock_now_def using evolves_handed_on evolves_core same_book_core by blast
qed

lemma evolves_rollback:
  assumes "rollback_outcome key sess (clock E i) s r s'"
  shows "evolves E T s s'"
proof (cases "handed_on key (clock E i) s s' \<or> s' = s")
  case True
  then show ?thesis using evolves_handed_on evolves_core by auto
next
  case False
  then obtain t where "leases s' = leases s" "frame s s'" "\<And>k. queue_in (pending_acquires s') k =
      filter (\<lambda>w. \<not> (k = key \<and> w_session_id w = sess \<and> queued_token w = t)) (queue_in (pending_acquires s) k)"
    using assms by (cases r) (auto simp: rollback_outcome_def split: if_splits)
  then show ?thesis by (intro evolves_shrinks shrinks_of_subset) (auto simp: frame_def)
qed

section \<open>Steps\<close>

definition actor_ok :: "nat \<Rightarrow> lease_state \<Rightarrow> bool" where
  "actor_ok k s \<longleftrightarrow> book_ok s \<and> subs_ok k (next_sub_id s) (families s) \<and> cleaned_ok (cleaned_up s)
     \<and> cleaned_capacity (cleaned_up s) = DOMAIN_ACTOR_MAILBOX_CAPACITY"

definition good_step :: "lease_env \<Rightarrow> u64 set \<Rightarrow> nat \<Rightarrow> lease_state \<Rightarrow> lease_state \<Rightarrow> bool" where
  "good_step E T k s s' \<longleftrightarrow> actor_ok k s' \<and> evolves E T s s' \<and> own_family s' = own_family s \<and> next_sub_id s \<le> next_sub_id s'"

lemma good_step_trans: "good_step E T k s s' \<Longrightarrow> good_step E T k' s' s'' \<Longrightarrow> good_step E T k' s s''"
  unfolding good_step_def by (auto intro: evolves_trans)

lemma good_stepI:
  assumes "actor_ok k s" "book_ok s'" "evolves E T s s'" "own_family s' = own_family s" "families s' = families s" "next_sub_id s' = next_sub_id s"
    "cleaned_up s' = cleaned_up s"
  shows "good_step E T k s s'"
  using assms by (simp add: good_step_def actor_ok_def)

lemma quiet_step:
  assumes ok: "actor_ok k s" and c: "same_core s s'" "families s' = families s" "next_sub_id s' = next_sub_id s"
  shows "good_step E T k s s'"
proof (rule good_stepI [OF ok _ evolves_core [OF c(1)] _ c(2,3)])
  show "own_family s' = own_family s" "cleaned_up s' = cleaned_up s" using c(1) by (simp_all add: same_core_def)
  have "book_on (map_of (leases s)) s'" by (rule same_core_book [OF c(1)]) (use ok c(2) subs_families in \<open>auto simp: actor_ok_def\<close>)
  then show "book_ok s'" using c(1) by (simp add: same_core_def)
qed

lemma appends_step: "actor_ok k s \<Longrightarrow> appends s s' \<Longrightarrow> good_step E T k s s'"
  by (rule quiet_step) (auto simp: appends_def same_book_core same_book_fields)

lemma steady_step: "actor_ok k s \<Longrightarrow> book_ok s' \<Longrightarrow> steady s s' \<Longrightarrow> evolves E T s s' \<Longrightarrow> good_step E T k s s'"
  by (rule good_stepI) (auto simp: steady_def)

lemma sweep_step:
  assumes ok: "actor_ok k s"
  shows "\<exists>s'. sweep_expired_state E s = Some s' \<and> good_step E T k s s'"
proof -
  obtain s' where s': "sweep_expired_state E s = Some s'" "book_ok s'" "kept s s'" "shrinks s s'"
    "\<And>k. settled (clock_now E s) (set (queue_in (pending_acquires s) k)) s' k" using sweep_ok ok unfolding actor_ok_def by blast
  have "evolves E T s s'"
  proof (rule evolves_shrinks [OF s'(4)])
    show "next_token s \<le> next_token s'" using s'(3) by (simp add: kept_def)
    show "queue_in (pending_acquires s') j = [] \<or> map_of (leases s) j = None \<and> queue_in (pending_acquires s) j \<noteq> []
        \<or> (\<exists>w \<in> set (queue_in (pending_acquires s) j). \<exists>i e. lease_expiry (clock E i) (w_ttl_secs w) = Inl e)"
      if "map_of (leases s') j = None" for j
      using s'(5) [of j] that unfolding settled_def clock_now_def by blast
  qed
  with s' ok show ?thesis by (auto simp: kept_def intro: good_stepI)
qed

lemma cleanup_step:
  assumes ok: "actor_ok k s"
  shows "\<exists>s'. cleanup_session E sess s = Some s' \<and> good_step E T k s s'"
proof -
  obtain s' where r: "cleanup_session E sess s = Some s'" "released k (next_sub_id s) E sess s s'" "cleaned_up s' = mark sess (cleaned_up s)"
    using cleanup_ok ok unfolding actor_ok_def by blast
  then have s': "book_ok s'" "subs_ok k (next_sub_id s) (families s')" "spared sess (clock_now E s) s s'"
    "shrinks s s'" "own_family s' = own_family s" "next_token s' = next_token s" "next_sub_id s' = next_sub_id s" by (simp_all add: released_def)
  have "evolves E T s s'"
  proof (rule evolves_shrinks [OF s'(4)])
    show "queue_in (pending_acquires s') j = [] \<or> map_of (leases s) j = None \<and> queue_in (pending_acquires s) j \<noteq> []
        \<or> (\<exists>w \<in> set (queue_in (pending_acquires s) j). \<exists>i e. lease_expiry (clock E i) (w_ttl_secs w) = Inl e)"
      if free: "map_of (leases s') j = None" for j
    proof (cases "j \<in> owned (map_of (leases s)) by_holder sess")
      case True
      then have "settled (clock_now E s) {w \<in> set (queue_in (pending_acquires s) j). w_session_id w \<noteq> sess} s' j"
        using s'(3) by (simp add: spared_def)
      then show ?thesis using free unfolding settled_def clock_now_def by blast
    next
      case False
      then have "map_of (leases s') j = map_of (leases s) j"
        "queue_in (pending_acquires s') j = filter (\<lambda>w. w_session_id w \<noteq> sess) (queue_in (pending_acquires s) j)"
        using s'(3) by (simp_all add: spared_def)
      then show ?thesis using free by (cases "queue_in (pending_acquires s) j") auto
    qed
  qed (use s'(6) in simp)
  moreover have "cleaned_ok (cleaned_up s')" "cleaned_capacity (cleaned_up s') = DOMAIN_ACTOR_MAILBOX_CAPACITY"
    using ok mark_ok(1,3) by (simp_all add: actor_ok_def r(3))
  ultimately show ?thesis using s' r(1) by (auto simp: good_step_def actor_ok_def)
qed

section \<open>Requests\<close>

lemma from_route_family: "from_route fam route = Some key \<Longrightarrow> key_family key = fam"
  by (auto simp: from_route_def from_route_str_def split: option.splits if_splits list.splits)

lemma same_book_steady: "same_book s s' \<Longrightarrow> steady s s'"
  by (simp add: steady_def same_book_fields)

lemma handed_on_steady: "handed_on key now s s' \<Longrightarrow> steady s s'"
  by (simp add: handed_on_def frame_steady)

lemma acquire_step:
  assumes ok: "actor_ok k s" and own: "key_family (req_key request) = own_family s" and fits: "clock_fits E"
  shows "\<exists>r s'. handle_acquire E request s = Some (r, s') \<and> good_step E {req_ttl_secs request} k s s'"
  using acquire_ok [OF _ own fits] evolves_acquire [of s E request _ _ "{req_ttl_secs request}"] steady_step [OF ok] ok unfolding actor_ok_def by blast

lemma extend_step:
  assumes ok: "actor_ok k s"
  shows "\<exists>r s'. handle_extend E key owner token ttl_secs s = Some (r, s') \<and> good_step E T k s s'"
proof -
  obtain r s' where s': "handle_extend E key owner token ttl_secs s = Some (r, s')" "book_ok s'"
    "extend_outcome key owner token ttl_secs (clock_now E s) s r s'" using extend_ok ok unfolding actor_ok_def by blast
  have "steady s s'" using s'(3) unfolding extend_outcome_def
    by (auto split: sum.splits option.splits if_splits intro: same_book_steady handed_on_steady frame_steady)
  with steady_step [OF ok s'(2) _ evolves_extend [OF s'(3)]] s'(1) show ?thesis by blast
qed

lemma release_step:
  assumes ok: "actor_ok k s"
  shows "\<exists>r s'. handle_release E key owner token s = Some (r, s') \<and> good_step E T k s s'"
proof -
  obtain r s' where s': "handle_release E key owner token s = Some (r, s')" "book_ok s'" "release_outcome key owner token (clock_now E s) s r s'"
    using release_request_ok ok unfolding actor_ok_def by blast
  have "steady s s'" using s'(3) unfolding release_outcome_def
    by (auto split: option.splits if_splits intro: same_book_steady handed_on_steady)
  with steady_step [OF ok s'(2) _ evolves_release [OF s'(3)]] s'(1) show ?thesis by blast
qed

lemma rollback_step:
  assumes ok: "actor_ok k s"
  shows "\<exists>s'. rollback_undeliverable_acquire E key sess r s = Some s' \<and> good_step E T k s s'"
proof -
  obtain s' i where s': "rollback_undeliverable_acquire E key sess r s = Some s'" "book_ok s'" "rollback_outcome key sess (clock E i) s r s'"
    using rollback_ok ok unfolding actor_ok_def by blast
  have "steady s s'" using s'(3)
    by (cases r) (auto simp: rollback_outcome_def split: if_splits intro: handed_on_steady frame_steady same_book_steady)
  with steady_step [OF ok s'(2) _ evolves_rollback [OF s'(3)]] s'(1) show ?thesis by blast
qed

text \<open>Replies, queries and lists change no lease.\<close>

lemma appends_route [simp]: "appends s (snd (route_lease_response E env meta r started s))"
proof -
  have route: "appends s (snd (router_route E out s))" for out s
    by (simp add: appends_def) (auto simp: router_route_def Let_def)
  have drop: "appends s (record_dropped_delivery d s)" for d s by (simp add: record_dropped_delivery_def)
  have "appends s (snd (send_reply E env m r s))" for m
    by (auto simp: send_reply_def Let_def split_def route split: option.splits route_result.splits
        intro: appends_trans [OF route drop] appends_trans [OF route route] appends_trans [OF appends_trans [OF route route] drop])
  then show ?thesis by (auto simp: route_lease_response_def Let_def split_def intro: appends_trans [OF _ appends_counter])
qed

definition list_only :: "lease_state \<Rightarrow> lease_state \<Rightarrow> bool" where
  "list_only s s' \<longleftrightarrow> same_core s s' \<and> families s' = families s \<and> next_sub_id s' = next_sub_id s"

lemma counters_only [simp]:
  fixes n :: nat and s :: lease_state
  shows "list_only s ((counter_inc name ^^ n) s)" "list_snapshots ((counter_inc name ^^ n) s) = list_snapshots s"
  by (induction n) (simp_all add: list_only_def same_core_def counter_inc_def)

lemma list_only_trans: "list_only s s' \<Longrightarrow> list_only s' s'' \<Longrightarrow> list_only s s''"
  by (simp add: list_only_def same_core_def)

lemma list_only_update [simp]:
  "list_only s s" "list_only s (s'\<lparr>list_snapshots := m\<rparr>) = list_only s s'" "list_only s (s'\<lparr>next_list_snapshot_id := i\<rparr>) = list_only s s'"
  "list_only s (s'\<lparr>readings := n\<rparr>) = list_only s s'"
  by (simp_all add: list_only_def same_core_def)

lemma store_and_serve_only: "list_only s (snd (store_and_serve E fam pattern items page_size sess s))"
proof -
  have "list_only s ((counter_inc name ^^ n) (s\<lparr>next_list_snapshot_id := i, list_snapshots := m\<rparr>))" for name n i m
    by (rule list_only_trans [OF _ counters_only(1)]) simp
  then show ?thesis by (auto simp: store_and_serve_def instant_now_def Let_def split_def split: option.splits)
qed

lemma handle_list_only: "list_only s (snd (handle_list E fam pattern cursor limit sess s))"
proof -
  have "list_only s (snd (store_and_serve E fam p items n sess (s\<lparr>readings := i\<rparr>)))" for p items n i
    by (rule list_only_trans [OF _ store_and_serve_only]) simp
  then show ?thesis
    by (auto simp: handle_list_def start_list_scan_def continue_list_scan_def instant_now_def Let_def split: option.splits sum.splits)
qed

lemma finish_list_only: "list_only s (finish_list_response_delivery E fam pattern cursor sess r delivered s)"
  by (auto simp: finish_list_response_delivery_def instant_now_def Let_def split: lease_response.splits option.splits)

lemma list_step: "actor_ok k s \<Longrightarrow> list_only s s' \<Longrightarrow> good_step E T k s s'"
  by (rule quiet_step) (auto simp: list_only_def)

lemma good_step_ok: "good_step E T k s s' \<Longrightarrow> actor_ok k s' \<and> own_family s' = own_family s"
  by (simp add: good_step_def)

definition message_ttls :: "lease_message \<Rightarrow> u64 set" where
  "message_ttls msg = (case msg of MsgAcquire _ _ _ ttl_secs _ \<Rightarrow> {ttl_secs} | _ \<Rightarrow> {})"

lemma query_step: "actor_ok k s \<Longrightarrow> good_step E T k s (snd (handle_query E key s))"
  by (rule list_step) (simp_all add: handle_query_def instant_now_def)

lemma dispatch_step:
  assumes ok: "actor_ok k s" and fits: "clock_fits E" and valid: "valid_lease_message env meta msg" "meta_route_family meta = own_family s" and no: "msg \<noteq> Tick"
  shows "\<exists>r s'. dispatch_actor_operation E env meta msg s = Some (r, s') \<and> good_step E (message_ttls msg) k s s'"
proof -
  have refuse: "good_step E T k s s" for T by (rule list_step [OF ok]) simp
  show ?thesis
  proof (cases msg)
    case (MsgAcquire fam route owner ttl_secs wait_seconds)
    have "\<exists>r s'. handle_acquire E (acquire_request env meta key o' ttl_secs wait_seconds) s = Some (r, s') \<and> good_step E {ttl_secs} k s s'"
      if "from_route fam route = Some key" for key o'
      using acquire_step [OF ok _ fits, of "acquire_request env meta key o' ttl_secs wait_seconds"] from_route_family [OF that] valid MsgAcquire
      by (simp add: acquire_request_def)
    then show ?thesis using MsgAcquire refuse by (auto simp: dispatch_actor_operation_def message_ttls_def split: option.splits)
  next
    case (MsgExtend fam route owner token ttl_secs)
    then show ?thesis using extend_step [OF ok] refuse by (auto simp: dispatch_actor_operation_def split: option.splits)
  next
    case (MsgRelease fam route owner token)
    then show ?thesis using release_step [OF ok] refuse by (auto simp: dispatch_actor_operation_def split: option.splits)
  next
    case (MsgQuery fam route)
    then show ?thesis using query_step [OF ok] refuse by (auto simp: dispatch_actor_operation_def split: option.splits) (metis prod.collapse)
  next
    case (MsgList fam pattern cursor limit)
    obtain r s' where l: "handle_list E fam pattern cursor limit (meta_session_id meta) s = (r, s')" by fastforce
    with list_step [OF ok] handle_list_only [of s E fam pattern cursor limit "meta_session_id meta"] have "good_step E T k s s'" for T by simp
    with MsgList l show ?thesis by (simp add: dispatch_actor_operation_def)
  qed (use no in simp)
qed

section \<open>Commands\<close>

lemma reply_step:
  assumes "actor_ok k s"
  shows "good_step E T k s (snd (route_lease_response E env meta r started s))"
  by (rule appends_step [OF assms appends_route])

lemma operation_frame_step:
  assumes ok: "actor_ok k s" and fits: "clock_fits E" and own: "meta_route_family meta = own_family s"
  shows "\<exists>s'. handle_actor_operation_frame E env meta started msg s = Some s' \<and> good_step E (message_ttls msg) k s s'"
proof (cases "valid_lease_message env meta msg \<and> msg \<noteq> Tick")
  case True
  let ?T = "message_ttls msg"
  obtain r s1 where s1: "dispatch_actor_operation E env meta msg s = Some (r, s1)" "good_step E ?T k s s1"
    using dispatch_step [OF ok fits _ own] True by blast
  obtain d s2 where s2: "route_lease_response E env meta r started s1 = (d, s2)" by fastforce
  have g2: "good_step E ?T k s s2" using good_step_trans [OF s1(2) reply_step] good_step_ok [OF s1(2)] s2 by (metis snd_conv)
  define s3 where "s3 = (case msg of MsgList fam pattern cursor _ \<Rightarrow>
      finish_list_response_delivery E fam pattern cursor (meta_session_id meta) r d s2 | _ \<Rightarrow> s2)"
  have "list_only s2 s3" by (simp add: s3_def finish_list_only split: lease_message.splits)
  then have g3: "good_step E ?T k s s3" using good_step_trans [OF g2 list_step] good_step_ok [OF g2] by blast
  obtain s4 where s4: "(if d then Some s3 else case acquire_key msg of
      Some key \<Rightarrow> rollback_undeliverable_acquire E key (meta_session_id meta) r s3 | None \<Rightarrow> Some s3) = Some s4" "good_step E ?T k s s4"
    using g3 good_step_trans [OF g3] rollback_step [of k s3 E] good_step_ok [OF g3] by (cases d; cases "acquire_key msg") (auto, blast)
  have "handle_actor_operation_frame E env meta started msg s = Some s4"
    using True s1(1) s2 s4(1) by (simp add: handle_actor_operation_frame_def s3_def [symmetric])
  with s4(2) show ?thesis by blast
next
  case False
  show ?thesis
  proof (cases "valid_lease_message env meta msg")
    case True
    with False have tick: "msg = Tick" by simp
    obtain s' where s': "sweep_expired_state E s = Some s'" "good_step E (message_ttls msg) k s s'" using sweep_step [OF ok] by blast
    have "good_step E (message_ttls msg) k s (counter_inc n s')" for n
      using good_step_trans [OF s'(2) appends_step [OF _ appends_counter]] good_step_ok [OF s'(2)] by blast
    with True tick s' show ?thesis by (simp add: handle_actor_operation_frame_def)
  next
    case no: False
    then show ?thesis using reply_step [OF ok] by (simp add: handle_actor_operation_frame_def)
  qed
qed

definition prepared_ttls :: "prepared_lease_operation \<Rightarrow> u64 set" where
  "prepared_ttls oper = (case oper of PrepAcquire _ _ ttl_secs _ \<Rightarrow> {ttl_secs} | _ \<Rightarrow> {})"

lemma dispatch_prepared_step:
  assumes ok: "actor_ok k s" and fits: "clock_fits E" and own: "prepared_operation_family oper = own_family s"
  shows "\<exists>r s'. dispatch_prepared_operation E env meta oper s = Some (r, s') \<and> good_step E (prepared_ttls oper) k s s'"
proof -
  have refuse: "good_step E T k s s" for T by (rule list_step [OF ok]) simp
  show ?thesis
  proof (cases oper)
    case (PrepAcquire key owner ttl_secs wait_seconds)
    with acquire_step [OF ok _ fits, of "acquire_request env meta key owner ttl_secs wait_seconds"] own refuse show ?thesis
      by (simp add: dispatch_prepared_operation_def prepared_ttls_def acquire_request_def)
  next
    case (PrepExtend key owner token ttl_secs)
    then show ?thesis using extend_step [OF ok] by (simp add: dispatch_prepared_operation_def)
  next
    case (PrepRelease key owner token)
    then show ?thesis using release_step [OF ok] by (simp add: dispatch_prepared_operation_def)
  next
    case (PrepQuery key)
    then show ?thesis using query_step [OF ok] by (simp add: dispatch_prepared_operation_def) (metis prod.collapse)
  qed
qed

lemma prepared_frame_step:
  assumes ok: "actor_ok k s" and fits: "clock_fits E" and own: "meta_route_family meta = own_family s"
  shows "\<exists>s'. handle_prepared_operation_frame E env meta started oper s = Some s' \<and> good_step E (prepared_ttls oper) k s s'"
proof (cases "prepared_operation_family oper = meta_route_family meta")
  case True
  let ?T = "prepared_ttls oper"
  obtain r s1 where s1: "dispatch_prepared_operation E env meta oper s = Some (r, s1)" "good_step E ?T k s s1"
    using dispatch_prepared_step [OF ok fits True [unfolded own]] by blast
  obtain d s2 where s2: "route_lease_response E env meta r started s1 = (d, s2)" by fastforce
  have g2: "good_step E ?T k s s2" using good_step_trans [OF s1(2) reply_step] good_step_ok [OF s1(2)] s2 by (metis snd_conv)
  have "\<exists>s3. rollback_undeliverable_acquire E key (meta_session_id meta) r s2 = Some s3 \<and> good_step E ?T k s s3" for key
    using rollback_step [of k s2 E key "meta_session_id meta" r ?T] good_step_ok [OF g2] good_step_trans [OF g2] by blast
  with True s1(1) s2 g2 show ?thesis
    by (auto simp: handle_prepared_operation_frame_def split: prepared_lease_operation.splits)
next
  case False
  then show ?thesis using reply_step [OF ok] by (simp add: handle_prepared_operation_frame_def)
qed

lemma watch_step:
  assumes ok: "actor_ok k s" and w: "watch_only s s'" and subs: "subs_ok k' (next_sub_id s') (families s')"
  shows "good_step E T k' s s'"
proof -
  have c: "same_core s s'" "next_sub_id s \<le> next_sub_id s'" using w by (simp_all add: watch_only_def)
  have "book_on (map_of (leases s)) s'" by (rule same_core_book [OF c(1) subs_families [OF subs]]) (use ok in \<open>simp add: actor_ok_def\<close>)
  with c subs evolves_core [OF c(1)] ok show ?thesis by (simp add: good_step_def actor_ok_def same_core_def)
qed

definition subscription_cost :: "lease_subscription_message \<Rightarrow> nat" where
  "subscription_cost msg = (case msg of Subscribe _ route _ _ \<Rightarrow> watch_cost route | Unsubscribe _ _ _ _ \<Rightarrow> 0)"

lemma refresh_step: "actor_ok k s \<Longrightarrow> good_step E T k s (refresh_metrics_gauges s)"
  using kept_refresh [of s] by (intro list_step) (simp_all add: list_only_def kept_def)

lemma subscription_frame_step:
  assumes ok: "actor_ok k s" and room: "k + subscription_cost msg \<le> 2 ^ 32"
  shows "\<exists>s'. handle_subscription_frame E env meta started msg s = Some s' \<and> good_step E T (k + subscription_cost msg) s s'"
proof -
  let ?k = "k + subscription_cost msg"
  have subs: "subs_ok k (next_sub_id s) (families s)" using ok by (simp add: actor_ok_def)
  have "\<exists>r s1. (case msg of Subscribe fam route sess subscriber \<Rightarrow> handle_lease_subscribe env meta fam route sess subscriber s
      | Unsubscribe fam route sess subscriber \<Rightarrow> handle_lease_unsubscribe env meta fam route sess subscriber s) = Some (r, s1) \<and> good_step E T ?k s s1"
  proof (cases msg)
    case (Subscribe fam route sess subscriber)
    then have c: "subscription_cost msg = watch_cost route" by (simp add: subscription_cost_def)
    obtain r s1 where "handle_lease_subscribe env meta fam route sess subscriber s = Some (r, s1)" "good_step E T ?k s s1"
      using subscribe_ok [OF subs room [unfolded c]] watch_step [OF ok] unfolding c by blast
    with Subscribe show ?thesis by simp
  next
    case (Unsubscribe fam route sess subscriber)
    then have c: "subscription_cost msg = 0" by (simp add: subscription_cost_def)
    obtain r s1 where "handle_lease_unsubscribe env meta fam route sess subscriber s = Some (r, s1)" "good_step E T k s s1"
      using unsubscribe_ok [OF subs] watch_step [OF ok] by blast
    with Unsubscribe c show ?thesis by simp
  qed
  then obtain r s1 where s1: "(case msg of Subscribe fam route sess subscriber \<Rightarrow> handle_lease_subscribe env meta fam route sess subscriber s
      | Unsubscribe fam route sess subscriber \<Rightarrow> handle_lease_unsubscribe env meta fam route sess subscriber s) = Some (r, s1)" "good_step E T ?k s s1"
    by blast
  have g2: "good_step E T ?k s (refresh_metrics_gauges s1)" using good_step_trans [OF s1(2) refresh_step] good_step_ok [OF s1(2)] by blast
  obtain d s3 where s3: "route_lease_response E env meta r started (refresh_metrics_gauges s1) = (d, s3)" by fastforce
  have g3: "good_step E T ?k s s3" using good_step_trans [OF g2 reply_step] good_step_ok [OF g2] s3 by (metis snd_conv)
  have "\<exists>s4. rollback_undeliverable_subscription fam sess sid s3 = Some s4 \<and> good_step E T ?k s s4" for fam sess sid
    using rollback_watch_ok watch_step good_step_ok [OF g3] good_step_trans [OF g3] unfolding actor_ok_def by blast
  with g3 have "\<exists>s4. (if d then Some s3 else case (r, new_subscription msg s) of
      (SubscribeOk sid, Some (fam, sess)) \<Rightarrow> rollback_undeliverable_subscription fam sess sid s3 | _ \<Rightarrow> Some s3) = Some s4 \<and> good_step E T ?k s s4"
    by (auto split: lease_response.splits option.splits)
  with s1(1) s3 show ?thesis by (simp add: handle_subscription_frame_def)
qed

lemma publish_step:
  assumes ok: "actor_ok k s"
  shows "\<exists>s'. handle_domain_publish E event s = Some s' \<and> good_step E T k s s'"
proof (cases "map_of (families s) (ucast (event_family event))")
  case None
  then show ?thesis using list_step [OF ok, of s] by (simp add: handle_domain_publish_def)
next
  case (Some S)
  have "watch_ok (event_family event) S" using ok unfolding actor_ok_def by (blast intro: watchers_watch subs_entry [OF _ Some])
  then obtain targets where "for_each_matching_route S (event_family event) (event_route event) = Some targets" using publish_ok by blast
  moreover have "appends s (fold (notify_target E event) targets s)" by (rule appends_fold [OF appends_target])
  ultimately show ?thesis using Some appends_step [OF ok] by (simp add: handle_domain_publish_def)
qed

definition payload_cost :: "lease_payload \<Rightarrow> nat" where
  "payload_cost p = (case p of ClientRequest _ (Inr (Sub msg)) \<Rightarrow> subscription_cost msg | _ \<Rightarrow> 0)"

definition payload_ttls :: "lease_payload \<Rightarrow> u64 set" where
  "payload_ttls p = (case p of ClientRequest _ (Inr (Op msg)) \<Rightarrow> message_ttls msg | PreparedRequest _ (Inr oper) \<Rightarrow> prepared_ttls oper | _ \<Rightarrow> {})"

lemma actor_ok_mono: "actor_ok k s \<Longrightarrow> k \<le> k' \<Longrightarrow> actor_ok k' s"
  unfolding actor_ok_def using subs_mono by blast

lemma good_step_mono: "good_step E T k s s' \<Longrightarrow> k \<le> k' \<Longrightarrow> good_step E T k' s s'"
  unfolding good_step_def using actor_ok_mono by blast

lemma start_step: "actor_ok k s \<Longrightarrow> good_step E T k s (snd (record_request_start E s))"
  by (rule appends_step) (simp_all add: record_request_start_def)

lemma client_request_step:
  assumes ok: "actor_ok k s" and fits: "clock_fits E" and own: "family (env_destination env) = own_family s"
    and room: "k + payload_cost (ClientRequest meta body) \<le> 2 ^ 32"
  shows "\<exists>s'. handle_client_request E env meta body s = Some s' \<and>
    good_step E (payload_ttls (ClientRequest meta body)) (k + payload_cost (ClientRequest meta body)) s s'"
proof -
  let ?T = "payload_ttls (ClientRequest meta body)" and ?k = "k + payload_cost (ClientRequest meta body)"
  obtain b s1 where s1: "record_request_start E s = (b, s1)" by fastforce
  have g1: "good_step E ?T k s s1" using start_step [OF ok, of E] s1 by (metis snd_conv)
  have ok1: "actor_ok k s1" and own1: "own_family s1 = own_family s" using good_step_ok [OF g1] by simp_all
  have g: "good_step E ?T ?k s s'" if "good_step E ?T k' s1 s'" "k' \<le> ?k" for s' k'
    using good_step_mono [OF good_step_trans [OF g1 that(1)] that(2)] .
  have reject: "good_step E ?T ?k s (snd (route_lease_response E env m r b s1))" for m r by (rule g [OF reply_step [OF ok1]]) simp
  show ?thesis
  proof (cases "valid_request_envelope env meta \<and> \<not> is_cleaned_up_request (meta_session_id meta) env s1")
    case True
    then have m: "meta_route_family meta = own_family s1" using own own1 by (simp add: valid_request_envelope_def)
    consider e where "body = Inl e" | msg where "body = Inr (Sub msg)" | msg where "body = Inr (Op msg)"
      by (metis sum.exhaust lease_client_frame.exhaust)
    then show ?thesis
    proof cases
      case 1
      with True s1 reject show ?thesis by (simp add: handle_client_request_def)
    next
      case (2 msg)
      then have c: "k + subscription_cost msg \<le> 2 ^ 32" using room by (simp add: payload_cost_def)
      obtain s' where "handle_subscription_frame E env meta b msg s1 = Some s'" "good_step E ?T (k + subscription_cost msg) s1 s'"
        using subscription_frame_step [OF ok1 c] by blast
      with True s1 2 g show ?thesis by (simp add: handle_client_request_def payload_cost_def)
    next
      case (3 msg)
      then have T: "?T = message_ttls msg" by (simp add: payload_ttls_def)
      obtain s' where "handle_actor_operation_frame E env meta b msg s1 = Some s'" "good_step E ?T k s1 s'"
        using operation_frame_step [OF ok1 fits m] unfolding T by blast
      with True s1 3 g show ?thesis by (simp add: handle_client_request_def payload_cost_def)
    qed
  next
    case False
    with s1 reject show ?thesis by (auto simp: handle_client_request_def)
  qed
qed

lemma prepared_request_step:
  assumes ok: "actor_ok k s" and fits: "clock_fits E" and own: "meta_route_family meta = own_family s"
  shows "\<exists>s'. handle_prepared_request E env meta body s = Some s' \<and> good_step E (payload_ttls (PreparedRequest meta body)) k s s'"
proof -
  let ?T = "payload_ttls (PreparedRequest meta body)"
  obtain b s1 where s1: "record_request_start E s = (b, s1)" by fastforce
  have g1: "good_step E ?T k s s1" using start_step [OF ok, of E] s1 by (metis snd_conv)
  have ok1: "actor_ok k s1" and own1: "meta_route_family meta = own_family s1" using good_step_ok [OF g1] own by simp_all
  have reject: "good_step E ?T k s (snd (route_lease_response E env m r b s1))" for m r by (rule good_step_trans [OF g1 reply_step [OF ok1]])
  have "\<exists>s'. handle_prepared_operation_frame E env meta b oper s1 = Some s' \<and> good_step E ?T k s s'" if "body = Inr oper" for oper
    using prepared_frame_step [OF ok1 fits own1, of env b oper] good_step_trans [OF g1] that by (auto simp: payload_ttls_def)
  with s1 reject show ?thesis by (auto simp: handle_prepared_request_def split: sum.splits)
qed

definition command_cost :: "lease_domain_command \<Rightarrow> nat" where
  "command_cost c = (case c of Deliver env \<Rightarrow> payload_cost (env_payload env) | _ \<Rightarrow> 0)"

definition command_ttls :: "lease_domain_command \<Rightarrow> u64 set" where
  "command_ttls c = (case c of Deliver env \<Rightarrow> payload_ttls (env_payload env) | _ \<Rightarrow> {})"

text \<open>The domain enqueues an envelope with the family of its destination.\<close>

definition command_for :: "route_family \<Rightarrow> lease_domain_command \<Rightarrow> bool" where
  "command_for fam c \<longleftrightarrow> (case c of Deliver env \<Rightarrow> family (env_destination env) = fam | _ \<Rightarrow> True)"

lemma deliver_step:
  assumes ok: "actor_ok k s" and fits: "clock_fits E" and own: "family (env_destination env) = own_family s"
    and room: "k + payload_cost (env_payload env) \<le> 2 ^ 32"
  shows "\<exists>r s'. deliver_active E env s = Some (r, s') \<and> good_step E (payload_ttls (env_payload env)) (k + payload_cost (env_payload env)) s s'"
proof (cases "env_payload env")
  case (DomainPublish event)
  then show ?thesis using publish_step [OF ok] appends_step [OF ok appends_counter] by (auto simp: deliver_active_def payload_cost_def)
next
  case (PreparedRequest meta body)
  have "meta_route_family meta = own_family s" if "valid_request_envelope env meta" using that own by (simp add: valid_request_envelope_def)
  then show ?thesis using PreparedRequest prepared_request_step [OF ok fits] reply_step [OF ok] by (auto simp: deliver_active_def payload_cost_def)
next
  case (ClientRequest meta body)
  then show ?thesis using client_request_step [OF ok fits own, of meta body] room by (auto simp: deliver_active_def)
qed (use list_step [OF ok, of s] in \<open>simp_all add: deliver_active_def payload_cost_def\<close>)

lemma receive_step:
  assumes ok: "actor_ok k s" and fits: "clock_fits E" and own: "command_for (own_family s) c" and room: "k + command_cost c \<le> 2 ^ 32"
  shows "\<exists>s'. receive E active c s = Some s' \<and> good_step E (command_ttls c) (k + command_cost c) s s'"
proof (cases c)
  case (Deliver env)
  have stay: "good_step E T k' s s" if "k \<le> k'" for T k' by (rule good_step_mono [OF list_step [OF ok] that]) simp
  show ?thesis
  proof (cases "\<exists>sess. env_payload env = SessionCleanup sess")
    case True
    then obtain sess where p: "env_payload env = SessionCleanup sess" by blast
    obtain s' where "cleanup_session E sess s = Some s'" "good_step E (command_ttls c) k s s'" using cleanup_step [OF ok] by blast
    with Deliver p show ?thesis by (simp add: receive_def deliver_envelope_def command_cost_def payload_cost_def)
  next
    case False
    then have d: "deliver_envelope E active env s = (if active then deliver_active E env s else Some (Inl DeliveryActorStopped, s))"
      by (cases "env_payload env") (simp_all add: deliver_envelope_def)
    obtain r s' where "deliver_active E env s = Some (r, s')" "good_step E (command_ttls c) (k + command_cost c) s s'"
      using deliver_step [OF ok fits, of env] own room Deliver by (auto simp: command_for_def command_cost_def command_ttls_def)
    with Deliver d stay show ?thesis by (simp add: receive_def)
  qed
next
  case (CleanupSession sess)
  then show ?thesis using cleanup_step [OF ok] by (simp add: receive_def command_cost_def)
next
  case ReadLiveCounts
  then show ?thesis using list_step [OF ok, of s] by (simp add: receive_def command_cost_def)
next
  case SweepExpiredState
  then show ?thesis using sweep_step [OF ok] by (simp add: receive_def command_cost_def)
qed

section \<open>Runs\<close>

text \<open>What other families change in the shared parts between two commands: counters grow, snapshots and
  admin rows of other families come and go.\<close>

definition foreign :: "lease_state \<Rightarrow> lease_state \<Rightarrow> bool" where
  "foreign s s' \<longleftrightarrow> own_family s' = own_family s \<and> leases s' = leases s \<and> session_leases s' = session_leases s
     \<and> pending_acquires s' = pending_acquires s \<and> session_waiters s' = session_waiters s \<and> cleaned_up s' = cleaned_up s
     \<and> families s' = families s \<and> next_token s \<le> next_token s' \<and> next_sub_id s \<le> next_sub_id s'
     \<and> (\<forall>rlm ar res. map_of (admin_leases (admin s')) (ucast (own_family s), rlm, ar, res)
          = map_of (admin_leases (admin s)) (ucast (own_family s), rlm, ar, res))"

lemma foreign_step:
  assumes ok: "actor_ok k s" and f: "foreign s s'"
  shows "good_step E T k s s'"
proof -
  let ?M = "map_of (leases s)" and ?P = "pending_acquires s"
  have eq: "own_family s' = own_family s" "leases s' = leases s" "session_leases s' = session_leases s" "pending_acquires s' = ?P"
    "session_waiters s' = session_waiters s" "families s' = families s" using f by (simp_all add: foreign_def)
  have le: "next_token s \<le> next_token s'" "next_sub_id s \<le> next_sub_id s'" using f by (simp_all add: foreign_def)
  have b: "book_ok s" and subs: "subs_ok k (next_sub_id s) (families s)" and cl: "cleaned_ok (cleaned_up s')"
    "cleaned_capacity (cleaned_up s') = DOMAIN_ACTOR_MAILBOX_CAPACITY" using ok f by (simp_all add: actor_ok_def foreign_def)
  have "t < next_token s'" if "has_token ?M ?P j t" for j t using book_onD(4) [OF b] that le(1) unfolding tokens_ok_def by (meson less_le_trans)
  then have "tokens_ok (next_token s') ?M ?P" using book_onD(4) [OF b] unfolding tokens_ok_def by blast
  moreover have "mirror_ok (own_family s) ?M (admin_leases (admin s'))" unfolding mirror_ok_def
  proof (intro allI impI)
    fix j assume fam: "key_family j = own_family s"
    have "map_of (admin_leases (admin s')) (key_identity j) = map_of (admin_leases (admin s)) (key_identity j)"
      using f fam by (simp add: foreign_def key_identity_def lease_identity_key_def)
    then show "mirrored ?M (admin_leases (admin s')) j"
      using book_onD(5) [OF b] fam mirrored_cong [of ?M j ?M "admin_leases (admin s')" "admin_leases (admin s)"] by (simp add: mirror_ok_def)
  qed
  ultimately have "book_ok s'" using b by (simp add: book_on_def eq)
  moreover have "evolves E T s s'" using le(1) by (auto simp: evolves_def progress_def same_grant_def orderly_def ordered_def eq)
  ultimately show ?thesis using le(2) eq subs_mono [OF subs _ le(2)] cl by (simp add: good_step_def actor_ok_def)
qed

inductive lease_run :: "lease_env \<Rightarrow> u64 set \<Rightarrow> nat \<Rightarrow> lease_state \<Rightarrow> nat \<Rightarrow> lease_state \<Rightarrow> bool" for E T k s where
  stay: "lease_run E T k s k s"
| command: "lease_run E T k s k' s' \<Longrightarrow> command_for (own_family s') c \<Longrightarrow> command_ttls c \<subseteq> T \<Longrightarrow> k' + command_cost c \<le> 2 ^ 32 \<Longrightarrow>
    receive E active c s' = Some s'' \<Longrightarrow> lease_run E T k s (k' + command_cost c) s''"
| others: "lease_run E T k s k' s' \<Longrightarrow> foreign s' s'' \<Longrightarrow> lease_run E T k s k' s''"

text \<open>States of a family actor that started with the shared counters at any value.\<close>

definition lease_reachable :: "lease_env \<Rightarrow> u64 set \<Rightarrow> nat \<Rightarrow> lease_state \<Rightarrow> bool" where
  "lease_reachable E T k s \<longleftrightarrow> (\<exists>token sub_id snapshot fam. lease_run E T 0 (lease_family_state_new token sub_id snapshot fam) k s)"

lemma evolves_subset: "evolves E T s s' \<Longrightarrow> T \<subseteq> T' \<Longrightarrow> evolves E T' s s'"
  unfolding evolves_def by blast

lemma good_step_subset: "good_step E T k s s' \<Longrightarrow> T \<subseteq> T' \<Longrightarrow> good_step E T' k s s'"
  unfolding good_step_def using evolves_subset by blast

lemma run_good:
  assumes "lease_run E T k s k' s'" "actor_ok k s" "clock_fits E"
  shows "good_step E T k' s s'"
  using assms(1)
proof induction
  case stay
  then show ?case by (rule list_step [OF assms(2)]) simp
next
  case (command k' s' c active s'')
  have ok: "actor_ok k' s'" using good_step_ok [OF command.IH] by simp
  have "good_step E (command_ttls c) (k' + command_cost c) s' s''"
    using receive_step [OF ok assms(3) command(2,4), of active] command(5) by simp
  from good_step_trans [OF command.IH good_step_subset [OF this command(3)]] show ?case .
next
  case (others k' s' s'')
  from foreign_step [OF _ others(2)] good_step_ok [OF others.IH] good_step_trans [OF others.IH] show ?case by blast
qed

lemma actor_ok_new: "actor_ok 0 (lease_family_state_new token sub_id snapshot fam)"
  by (simp add: cleaned_ok_def cleaned_up_sessions_new_def DOMAIN_ACTOR_MAILBOX_CAPACITY_def actor_ok_def book_on_def lease_family_state_new_def holders_ok_def waiters_ok_def tokens_ok_def mirror_ok_def mirrored_def keys_ok_def
      families_ok_def subs_ok_def grouped_def owned_def queue_in_def entry_or_def waiting_def queue_ok_def has_token_def)

lemma orderly_new: "orderly E (lease_family_state_new token sub_id snapshot fam)"
  by (simp add: orderly_def ordered_def lease_family_state_new_def queue_in_def entry_or_def)

lemma reachable_ok:
  assumes "lease_reachable E T k s" "clock_fits E"
  shows "actor_ok k s" "(\<forall>ttl \<in> T. ttl_calm E ttl) \<Longrightarrow> orderly E s"
  using assms run_good [OF _ actor_ok_new assms(2)] orderly_new unfolding lease_reachable_def good_step_def evolves_def by blast+

lemma reachable_book: "lease_reachable E T k s \<Longrightarrow> clock_fits E \<Longrightarrow> book_ok s"
  using reachable_ok(1) by (simp add: actor_ok_def)

section \<open>The lease domain as a session-scoped domain\<close>

lemma release_actor:
  assumes ok: "actor_ok k s"
  shows "\<exists>s'. release_session_resources E sess s = Some s' \<and> actor_ok k s' \<and> owns_nothing sess s' \<and> cleaned_up s' = cleaned_up s"
proof -
  obtain s' where "release_session_resources E sess s = Some s'" "released k (next_sub_id s) E sess s s'" "cleaned_up s' = cleaned_up s"
    using release_resources_ok ok unfolding actor_ok_def by blast
  with ok show ?thesis by (simp add: actor_ok_def released_def)
qed

interpretation lease_scope: session_scoped cleaned_up "\<lambda>c s. s\<lparr>cleaned_up := c\<rparr>" "release_session_resources E" "actor_ok k" owns_nothing for E k
  by unfold_locales (use release_actor mark_ok in \<open>auto simp: actor_ok_def book_on_def\<close>)

end
