(* ===== verification/Lease_Safety.thy ===== *)
theory Lease_Safety
  imports Lease_Reach
begin

text \<open>
  The promises of the lease domain, stated on reachable states of a family actor, and a small run of it
  in which one session holds a lease and another waits for it.
\<close>

section \<open>A run\<close>

definition sample_env :: lease_env where
  "sample_env = \<lparr>route_outcome = (\<lambda>_ _. Delivered), sink_resolved = (\<lambda>_ _. True), clock = (\<lambda>_. 0),
     utc_text = (\<lambda>_. ''2026-01-01T00:00:00Z''), utc_text_after = (\<lambda>_ _. ''2026-01-01T00:00:10Z''), hash_session = id, with_metrics = False\<rparr>"

definition sample_key :: lease_key where "sample_key = LeaseKey 1 ''acme'' ''jobs'' ''nightly''"

definition sample_envelope :: "u64 \<Rightarrow> prepared_lease_operation \<Rightarrow> lease_envelope" where
  "sample_envelope sess oper = \<lparr>env_source = Some (session_inbox_address 1 sess),
     env_destination = session_inbox_address 1 0, env_closed = (\<lambda>_. False),
     env_payload = PreparedRequest (client_frame_meta_new sess ChLease 400 1) (Inr oper)\<rparr>"

definition sample_acquire :: "u64 \<Rightarrow> string \<Rightarrow> u64 \<Rightarrow> u32 \<Rightarrow> lease_domain_command" where
  "sample_acquire sess owner ttl_secs wait_seconds = Deliver (sample_envelope sess (PrepAcquire sample_key owner ttl_secs wait_seconds))"

definition sample_start :: lease_state where "sample_start = lease_family_state_new 1 1 0 1"

definition sample_held :: lease_state where
  "sample_held = the (receive sample_env True (sample_acquire 7 ''a'' 10 0) sample_start)"

definition sample_queued :: lease_state where
  "sample_queued = the (receive sample_env True (sample_acquire 8 ''b'' 10 5) sample_held)"

lemmas run_defs = sample_env_def sample_key_def sample_envelope_def sample_acquire_def sample_start_def receive_def deliver_envelope_def deliver_active_def
  valid_request_envelope_def handle_prepared_request_def record_request_start_def is_cleaned_up_request_def contains_def
  handle_prepared_operation_frame_def dispatch_prepared_operation_def handle_acquire_finish finish_acquire_def prepare_acquire_key_def
  decide_acquire_def next_fencing_token_def next_id_def lease_expiry_def checked_add_secs_def NANOS_def INSTANT_END_def
  LEASE_MAX_WAIT_SECONDS_def LEASE_MAX_OWNER_ID_BYTES_def LEASE_MAX_QUEUE_DEPTH_def clock_now_def lease_family_state_new_def cleaned_up_sessions_new_def
  pending_waiter_count_def acquire_request_def client_frame_meta_new_def session_inbox_address_def
  upsert_admin_lease_def lease_info_from_state_def instant_now_def track_session_lease_def track_def notify_lease_change_def
  route_lease_response_def send_reply_def router_route_def is_queued_def queue_acquire_waiter_def track_session_waiter_def entry_or_def
  utc_now_text_def set_insert_key_def Let_def

lemma sample_steps:
  "receive sample_env True (sample_acquire 7 ''a'' 10 0) sample_start = Some sample_held"
  "receive sample_env True (sample_acquire 8 ''b'' 10 5) sample_held = Some sample_queued"
  by (simp_all add: sample_queued_def sample_held_def run_defs)

definition sample_lease :: sink_lease_state where
  "sample_lease = \<lparr>owner_id = ''a'', owner_session_id = 7, fencing_token = 1, expiry = 10000000000,
     acquired_at = ''2026-01-01T00:00:00Z'', renewals = 0\<rparr>"

definition sample_waiter :: pending_acquire where
  "sample_waiter = \<lparr>w_correlation = None, w_session_id = 8, w_owner_id = ''b'', w_reply_destination = session_inbox_address 1 8,
     w_reply_source = session_inbox_address 1 0, w_channel = ChLease, w_route_family = 1, queued_token = 2, w_ttl_secs = 10,
     expires_at = 5000000000\<rparr>"

lemma sample_fields:
  "leases sample_queued = [(sample_key, sample_lease)]" "pending_acquires sample_queued = [(sample_key, [sample_waiter])]"
  "own_family sample_queued = 1" "session_leases sample_queued = [(7, [sample_key])]" "session_waiters sample_queued = [(8, [(sample_key, 2)])]"
  "families sample_queued = []" "next_token sample_queued = 3" "list_snapshots sample_queued = []"
  "cleaned_seen (cleaned_up sample_queued) = []"
  by (simp_all add: sample_queued_def sample_held_def sample_lease_def sample_waiter_def run_defs)

lemma sample_clock: "clock_fits sample_env" "ttl_calm sample_env 10" "clock_now sample_env s = 0"
  by (simp_all add: clock_fits_def ttl_calm_def sample_env_def lease_expiry_def checked_add_secs_def NANOS_def INSTANT_END_def LEASE_MAX_WAIT_SECONDS_def clock_now_def)

lemma sample_commands:
  "command_cost (sample_acquire sess owner ttl_secs wait_seconds) = 0" "command_ttls (sample_acquire sess owner ttl_secs wait_seconds) = {ttl_secs}"
  "command_for 1 (sample_acquire sess owner ttl_secs wait_seconds)"
  by (simp_all add: sample_acquire_def sample_envelope_def command_cost_def payload_cost_def command_ttls_def payload_ttls_def prepared_ttls_def
      command_for_def session_inbox_address_def)

lemma sample_held_run: "lease_run sample_env {10} 0 sample_start 0 sample_held" "own_family sample_held = 1"
proof -
  have f: "own_family sample_start = 1" by (simp add: run_defs)
  have "lease_run sample_env {10} 0 sample_start (0 + command_cost (sample_acquire 7 ''a'' 10 0)) sample_held"
    by (rule lease_run.command [OF lease_run.stay _ _ _ sample_steps(1)]) (simp_all add: sample_commands f)
  then show "lease_run sample_env {10} 0 sample_start 0 sample_held" by (simp add: sample_commands)
  show "own_family sample_held = 1" by (simp add: sample_held_def run_defs)
qed

lemma sample_reachable: "lease_reachable sample_env {10} 0 sample_queued"
proof -
  have "lease_run sample_env {10} 0 sample_start (0 + command_cost (sample_acquire 8 ''b'' 10 5)) sample_queued"
    by (rule lease_run.command [OF sample_held_run(1) _ _ _ sample_steps(2)]) (simp_all add: sample_commands sample_held_run(2))
  then show ?thesis unfolding lease_reachable_def sample_start_def by (auto simp: sample_commands)
qed

section \<open>The book\<close>

text \<open>
  \<^bold>\<open>C2.\<close> In every reachable state of a family actor the derived structures say exactly what the
  leases and queues say: each session's lease index lists the keys it holds and its waiter index the
  waiters it has queued; a queue has at most 100 waiters, of different owners and with increasing tokens;
  no fencing token belongs to two keys, or to a holder and a waiter; and the admin rows of the family are
  the leases with their owners and tokens.
\<close>

theorem lease_book_exact:
  assumes "lease_reachable E T k s" "clock_fits E"
  shows "(\<forall>sess. distinct (entry_or [] (session_leases s) sess) \<and>
      set (entry_or [] (session_leases s) sess) = {key. \<exists>st. map_of (leases s) key = Some st \<and> owner_session_id st = sess}) \<and>
    (\<forall>sess. distinct (entry_or [] (session_waiters s) sess) \<and>
      set (entry_or [] (session_waiters s) sess) =
        {(key, t). \<exists>w \<in> set (queue_in (pending_acquires s) key). queued_token w = t \<and> w_session_id w = sess}) \<and>
    (\<forall>key. length (queue_in (pending_acquires s) key) \<le> 100 \<and> sorted_wrt (<) (map queued_token (queue_in (pending_acquires s) key)) \<and>
      distinct (map w_owner_id (queue_in (pending_acquires s) key))) \<and>
    (\<forall>key key' t. has_token (map_of (leases s)) (pending_acquires s) key t \<and> has_token (map_of (leases s)) (pending_acquires s) key' t \<longrightarrow> key = key') \<and>
    (\<forall>key st. \<forall>w \<in> set (queue_in (pending_acquires s) key). map_of (leases s) key = Some st \<longrightarrow> fencing_token st \<noteq> queued_token w) \<and>
    (\<forall>key. key_family key = own_family s \<longrightarrow>
      map_option (\<lambda>info. (info_owner info, info_fencing_token info)) (map_of (admin_leases (admin s)) (key_identity key)) =
      map_option (\<lambda>st. (owner_id st, fencing_token st)) (map_of (leases s) key))"
proof -
  note ok = reachable_book [OF assms]
  have h: "grouped (map_of (session_leases s)) (map_of (leases s)) by_holder sess" for sess using book_onD(2) [OF ok] by (simp add: holders_ok_def)
  have w: "grouped (map_of (session_waiters s)) (waiting (pending_acquires s)) by_waiter sess" for sess using book_onD(3) [OF ok] by (simp add: waiters_ok_def)
  have q: "queue_ok (queue_in (pending_acquires s) key)" for key by (rule queue_ok_in [OF ok])
  have W: "owned (waiting (pending_acquires s)) by_waiter sess = {(key, t). \<exists>w \<in> set (queue_in (pending_acquires s) key). queued_token w = t \<and> w_session_id w = sess}" for sess
    using waiting_iff [OF q] by (auto simp: owned_def by_waiter_def)
  have H: "owned (map_of (leases s)) by_holder sess = {key. \<exists>st. map_of (leases s) key = Some st \<and> owner_session_id st = sess}" for sess
    by (simp add: owned_def by_holder_def)
  have A: "map_option (\<lambda>info. (info_owner info, info_fencing_token info)) (map_of (admin_leases (admin s)) (key_identity key)) =
      map_option (\<lambda>st. (owner_id st, fencing_token st)) (map_of (leases s) key)" if "key_family key = own_family s" for key
  proof -
    have "mirrored (map_of (leases s)) (admin_leases (admin s)) key" using book_onD(5) [OF ok] that by (simp add: mirror_ok_def)
    then show ?thesis by (cases "map_of (leases s) key") (auto simp: mirrored_def shows_lease_def)
  qed
  have e: "distinct (entry_or [] (session_leases s) sess)" "set (entry_or [] (session_leases s) sess) = owned (map_of (leases s)) by_holder sess"
    "distinct (entry_or [] (session_waiters s) sess)" "set (entry_or [] (session_waiters s) sess) = owned (waiting (pending_acquires s)) by_waiter sess" for sess
    using grouped_entry [OF h, of sess] grouped_entry [OF w, of sess] by simp_all
  have u: "key = key'" if "has_token (map_of (leases s)) (pending_acquires s) key t" "has_token (map_of (leases s)) (pending_acquires s) key' t" for key key' t
    using book_onD(4) [OF ok] that unfolding tokens_ok_def by blast
  show ?thesis
    using A q tokens_apart [OF book_onD(4) [OF ok]]
    by (intro conjI allI ballI impI) (simp_all add: e H W queue_ok_def LEASE_MAX_QUEUE_DEPTH_def, elim conjE, rule u)
qed

theorem lease_book_exact_witness:
  "set (entry_or [] (session_leases sample_queued) 7) = {sample_key} \<and> set (entry_or [] (session_waiters sample_queued) 8) = {(sample_key, 2)} \<and>
   map_option info_owner (map_of (admin_leases (admin sample_queued)) (key_identity sample_key)) = Some ''a''"
proof -
  have "key_family sample_key = own_family sample_queued" by (simp add: sample_fields sample_key_def)
  with lease_book_exact [OF sample_reachable sample_clock(1)]
  have "map_option (\<lambda>info. (info_owner info, info_fencing_token info)) (map_of (admin_leases (admin sample_queued)) (key_identity sample_key)) =
      map_option (\<lambda>st. (owner_id st, fencing_token st)) (map_of (leases sample_queued) sample_key)" by blast
  then have "map_option info_owner (map_of (admin_leases (admin sample_queued)) (key_identity sample_key)) = Some ''a''"
    by (auto simp: sample_fields sample_lease_def)
  then show ?thesis by (simp add: sample_fields entry_or_def)
qed



section \<open>Requests\<close>






section \<open>Expiry and disconnects\<close>





text \<open>
  \<^bold>\<open>C34.\<close> A closed session cannot act on leases: once a session is remembered as cleaned up, or its
  envelope says that it is closed, a request from it is only answered, and leases, queues, watches,
  snapshots and tokens stay as they are.
\<close>

theorem lease_closed_session_refused:
  assumes "contains (cleaned_up s) (meta_session_id meta) \<or> env_closed env (meta_session_id meta)"
    and "env_payload env = ClientRequest meta raw \<or> env_payload env = PreparedRequest meta parsed"
  shows "\<exists>s'. receive E active (Deliver env) s = Some s' \<and> same_book s s'"
proof -
  have r: "same_book s (snd (route_lease_response E env m r started s))" for m r started s
    using appends_route by (simp add: appends_def)
  have "same_book s (snd (record_request_start E s))" "is_cleaned_up_request (meta_session_id meta) env (snd (record_request_start E s))"
    using assms(1) by (auto simp: record_request_start_def is_cleaned_up_request_def counter_inc_def)
  then show ?thesis
    using assms(2) r same_book_trans [OF _ r]
    by (auto simp: receive_def deliver_envelope_def deliver_active_def handle_client_request_def handle_prepared_request_def split_def Let_def)
qed

theorem lease_closed_session_refused_witness:
  "\<exists>s'. receive sample_env True (Deliver ((sample_envelope 7 (PrepRelease sample_key ''a'' 1))\<lparr>env_closed := \<lambda>_. True\<rparr>)) sample_queued = Some s' \<and>
     same_book sample_queued s'"
  by (rule lease_closed_session_refused [where meta = "client_frame_meta_new 7 ChLease 400 1"]) (simp_all add: sample_envelope_def)



section \<open>Fencing\<close>

text \<open>Every token a key can still hand out, and its holder's, come after a grant.\<close>

definition after_grant :: "lease_key \<Rightarrow> sink_lease_state \<Rightarrow> lease_state \<Rightarrow> bool" where
  "after_grant key st s \<longleftrightarrow> fencing_token st < next_token s
     \<and> (\<forall>w \<in> set (queue_in (pending_acquires s) key). fencing_token st < queued_token w)
     \<and> (\<forall>st'. map_of (leases s) key = Some st' \<longrightarrow> fencing_token st < fencing_token st' \<or> same_grant st st')"

lemma after_grant_now:
  assumes "book_ok s" "ordered s key" "map_of (leases s) key = Some st"
  shows "after_grant key st s"
  using assms held_lt [OF book_onD(4) [OF assms(1)] assms(3)] by (simp add: after_grant_def ordered_def same_grant_def)

lemma after_grant_progress:
  assumes "after_grant key st s" "progress s s'"
  shows "after_grant key st s'"
  unfolding after_grant_def
proof (intro conjI ballI allI impI)
  show "fencing_token st < next_token s'" using assms by (auto simp: after_grant_def progress_def)
next
  fix w assume "w \<in> set (queue_in (pending_acquires s') key)"
  with assms show "fencing_token st < queued_token w" unfolding after_grant_def progress_def by (meson order_less_le_trans)
next
  fix st' assume "map_of (leases s') key = Some st'"
  with assms(2) consider "next_token s \<le> fencing_token st'" | st0 where "map_of (leases s) key = Some st0" "same_grant st0 st'"
    | w where "w \<in> set (queue_in (pending_acquires s) key)" "queued_token w = fencing_token st'" unfolding progress_def by blast
  then show "fencing_token st < fencing_token st' \<or> same_grant st st'"
    using assms(1) by cases (auto simp: after_grant_def same_grant_def)
qed

text \<open>
  \<^bold>\<open>C1.\<close> Fencing tokens of a key only grow: as long as every requested time to live fits the clock, if a
  key has a holder in a reachable state and a holder in any later one, it is the same grant with the same
  token, or the later holder has a greater token, whatever requests, expiries and disconnects came between.
\<close>

theorem lease_fencing_monotone:
  assumes "lease_reachable E T k s" "clock_fits E" "\<forall>ttl_secs \<in> T. ttl_calm E ttl_secs" "lease_run E T k s k' s'"
    and "map_of (leases s) key = Some st" "map_of (leases s') key = Some st'"
  shows "fencing_token st < fencing_token st' \<or>
    fencing_token st' = fencing_token st \<and> owner_id st' = owner_id st \<and> owner_session_id st' = owner_session_id st"
proof -
  note ok = reachable_ok [OF assms(1,2)]
  have "after_grant key st s" using ok assms(3,5) by (intro after_grant_now) (auto simp: actor_ok_def orderly_def)
  moreover have "progress s s'" using run_good [OF assms(4) ok(1) assms(2)] by (simp add: good_step_def evolves_def)
  ultimately have "after_grant key st s'" by (rule after_grant_progress)
  with assms(6) show ?thesis by (simp add: after_grant_def same_grant_def)
qed

lemma advance_delivered:
  assumes "expire_timed_out_waiters_for_key E key now s = (n, s1)" "grant_front E key now s1 = (Some (w, Some st), s2)"
    "announce_grant E key w st s2 = Some (True, s3)"
  shows "advance_waiter_queue E key now s = Some (Consumed, counter_inc ''fitz_lease_ownership_churn_total'' s3)"
  using assms by (subst advance_waiter_queue.simps) simp

lemmas release_defs = handle_release_def authorize_owned_lease_def apply_lease_effects_def forget_lease_def drop_lease_def remove_admin_lease_def
  untrack_session_lease_def untrack_session_waiter_def untrack_def expire_timed_out_waiters_for_key_def drain_expired_waiters_filter set_queue_def
  grant_front_def announce_grant_def send_waiter_response_def refresh_metrics_gauges_def live_counts_def lease_count_def waiter_count_def
  lease_subscription_count_def set_lease_family_waiter_count_def counter_inc_def

definition sample_release :: lease_domain_command where
  "sample_release = Deliver (sample_envelope 7 (PrepRelease sample_key ''a'' 1))"

definition sample_passed :: lease_state where
  "sample_passed = the (receive sample_env True sample_release sample_queued)"

theorem lease_fencing_monotone_witness:
  "\<exists>st. map_of (leases sample_passed) sample_key = Some st \<and> owner_id st = ''b'' \<and> fencing_token sample_lease < fencing_token st"
proof -
  have r: "receive sample_env True sample_release sample_queued = Some sample_passed"
    and h: "\<exists>st. map_of (leases sample_passed) sample_key = Some st \<and> owner_id st = ''b''"
    by (simp_all add: sample_passed_def sample_release_def sample_queued_def sample_held_def advance_delivered run_defs release_defs)
  then obtain st where st: "map_of (leases sample_passed) sample_key = Some st" "owner_id st = ''b''" by blast
  have "lease_run sample_env {10} 0 sample_queued (0 + command_cost sample_release) sample_passed"
    by (rule lease_run.command [OF lease_run.stay _ _ _ r])
      (simp_all add: sample_fields sample_release_def sample_envelope_def command_cost_def payload_cost_def command_ttls_def payload_ttls_def prepared_ttls_def
        command_for_def session_inbox_address_def)
  from lease_fencing_monotone [OF sample_reachable sample_clock(1) _ this _ st(1)]
  have "fencing_token sample_lease < fencing_token st" using st(2) by (auto simp: sample_clock sample_fields sample_lease_def)
  with st show ?thesis by blast
qed

section \<open>When a time to live overflows\<close>

text \<open>
  A waiter whose time to live can no longer be represented when its turn comes is dropped, and the key is
  left free with the waiters behind it. In this run two such waiters stand in front of a third one; the
  clock moves from 0 to one second after the fourth request.
\<close>

definition late_env :: lease_env where
  "late_env = sample_env\<lparr>clock := (\<lambda>i. if i < 5 then 0 else NANOS)\<rparr>"

definition late_before :: "lease_domain_command list" where
  "late_before = [sample_acquire 7 ''a'' 10 0, sample_acquire 8 ''b'' (2 ^ 63 - 1) 30, sample_acquire 9 ''c'' (2 ^ 63 - 1) 30,
     sample_acquire 10 ''d'' 10 30, sample_release, sample_acquire 11 ''e'' 10 0]"

definition late_after :: "lease_domain_command list" where
  "late_after = [Deliver (sample_envelope 11 (PrepRelease sample_key ''e'' 5))]"

definition run_commands :: "lease_env \<Rightarrow> lease_domain_command list \<Rightarrow> lease_state \<Rightarrow> lease_state option" where
  "run_commands E cs s = foldl (\<lambda>r c. Option.bind r (receive E True c)) (Some s) cs"

lemma advance_overflow:
  assumes "expire_timed_out_waiters_for_key E key now s = (n, s1)" "grant_front E key now s1 = (Some (w, None), s2)"
  shows "advance_waiter_queue E key now s = Some (Consumed,
    snd (send_waiter_response E w (LeaseError ''queued ttl_secs exceeds the supported lease duration'')
      (untrack_session_waiter (w_session_id w) key (queued_token w) s2)))"
  using assms by (subst advance_waiter_queue.simps) simp

lemmas late_defs = late_env_def late_before_def late_after_def sample_release_def run_commands_def advance_overflow advance_delivered changed_def

definition holder_of :: "lease_state \<Rightarrow> (string \<times> u64) option" where
  "holder_of s = map_option (\<lambda>st. (owner_id st, fencing_token st)) (map_of (leases s) sample_key)"

lemma late_holders:
  "(run_commands late_env late_before sample_start \<bind> (\<lambda>s. map_option (\<lambda>s'. (holder_of s, holder_of s')) (run_commands late_env late_after s)))
    = Some (Some (''e'', 5), Some (''d'', 4))"
  by (simp add: late_defs holder_of_def run_defs release_defs)

lemma run_commands_run:
  assumes ok: "actor_ok 0 s" and fits: "clock_fits E" and cs: "\<forall>c \<in> set cs. command_for (own_family s) c \<and> command_cost c = 0"
    and r: "run_commands E cs s = Some s'"
  shows "lease_run E UNIV 0 s 0 s'"
  using cs r
proof (induction cs arbitrary: s' rule: rev_induct)
  case Nil
  then show ?case by (simp add: run_commands_def lease_run.stay)
next
  case (snoc c cs)
  then obtain s1 where s1: "run_commands E cs s = Some s1" "receive E True c s1 = Some s'" by (auto simp: run_commands_def bind_eq_Some_conv)
  have run: "lease_run E UNIV 0 s 0 s1" using snoc s1(1) by simp
  have "own_family s1 = own_family s" using good_step_ok [OF run_good [OF run ok fits]] by simp
  then have "lease_run E UNIV 0 s (0 + command_cost c) s'" using snoc.prems(1) by (intro lease_run.command [OF run _ _ _ s1(2)]) simp_all
  then show ?case using snoc.prems(1) by simp
qed

lemma late_commands: "\<forall>c \<in> set (late_before @ late_after). command_for 1 c \<and> command_cost c = 0"
  by (simp add: late_before_def late_after_def sample_release_def sample_acquire_def sample_envelope_def command_cost_def payload_cost_def
      command_for_def session_inbox_address_def)

text \<open>
  \<^bold>\<open>C40.\<close> Without the condition on times to live the fencing tokens of a key can go back: there is a run
  with a clock that never goes back in which a request is granted ahead of an older waiter, because two
  waiters in front of it were dropped for an overflowing time to live, and the older waiter then gets the
  lease with its smaller token.
\<close>

theorem lease_fencing_regresses:
  "\<exists>E s s' st st'. mono (clock E) \<and> clock_fits E \<and> lease_reachable E UNIV 0 s \<and> lease_run E UNIV 0 s 0 s' \<and>
     map_of (leases s) sample_key = Some st \<and> map_of (leases s') sample_key = Some st' \<and>
     owner_id st = ''e'' \<and> owner_id st' = ''d'' \<and> fencing_token st' < fencing_token st"
proof -
  obtain s s' where r: "run_commands late_env late_before sample_start = Some s" "run_commands late_env late_after s = Some s'"
    and h: "holder_of s = Some (''e'', 5)" "holder_of s' = Some (''d'', 4)" using late_holders by (auto simp: bind_eq_Some_conv)
  obtain st st' where st: "map_of (leases s) sample_key = Some st" "owner_id st = ''e''" "fencing_token st = 5"
    and st': "map_of (leases s') sample_key = Some st'" "owner_id st' = ''d''" "fencing_token st' = 4" using h by (auto simp: holder_of_def)
  have fits: "clock_fits late_env"
    by (simp add: clock_fits_def late_env_def checked_add_secs_def NANOS_def INSTANT_END_def LEASE_MAX_WAIT_SECONDS_def)
  have start: "actor_ok 0 sample_start" "own_family sample_start = 1" unfolding sample_start_def by (rule actor_ok_new) (simp add: lease_family_state_new_def)
  have run: "lease_run late_env UNIV 0 sample_start 0 s" using late_commands by (intro run_commands_run [OF start(1) fits _ r(1)]) (simp add: start)
  note g = good_step_ok [OF run_good [OF run start(1) fits]]
  have run': "lease_run late_env UNIV 0 s 0 s'" using late_commands g by (intro run_commands_run [OF _ fits _ r(2)]) (simp_all add: start)
  have "mono (clock late_env)" by (auto simp: late_env_def mono_def)
  with fits run run' st st' show ?thesis unfolding lease_reachable_def sample_start_def by force
qed

end
