(* ===== verification/Lease_Inventory.thy ===== *)
theory Lease_Inventory
  imports Lease_Safety
begin

text \<open>
  What the lease domain shows of itself: names of keys and owners, and the paginated \<^verbatim>\<open>LIST\<close>. Pages
  respect the item and byte budgets, snapshots stay under their ceilings, a client that follows the cursors
  receives the captured inventory, and a page that could not be delivered is served again.
\<close>

section \<open>Names\<close>

lemma control_character_suffix: "contains_control_character ys \<Longrightarrow> contains_control_character (xs @ ys)"
  by (induction xs) simp_all

lemma split_scheme_SomeD: "split_scheme route = Some (sch, path) \<Longrightarrow> route = sch @ ''://'' @ path"
  unfolding split_scheme_def by (rule split_once_SomeD)

lemma route_path_suffix: "\<exists>xs. route = xs @ dropWhile P (route_path route)"
proof -
  have "\<exists>xs. route = xs @ route_path route"
  proof (cases "split_scheme route")
    case (Some p)
    then have "route = (fst p @ ''://'') @ route_path route" using split_scheme_SomeD [of route "fst p" "snd p"] by (simp add: route_path_def split_def)
    then show ?thesis by blast
  qed (simp add: route_path_def)
  then obtain xs where "route = xs @ takeWhile P (route_path route) @ dropWhile P (route_path route)" by auto
  then show ?thesis by (metis append_assoc)
qed

lemma from_route_SomeD:
  assumes "from_route fam route = Some key"
  shows "key_family key = fam" "key_realm key \<noteq> []" "key_area key \<noteq> []" "key_resource key \<noteq> []"
    "CHR ''*'' \<notin> set (key_realm key) \<union> set (key_area key) \<union> set (key_resource key)"
    "CHR ''/'' \<notin> set (key_realm key) \<union> set (key_area key) \<union> set (key_resource key)"
    "dropWhile (\<lambda>c. c = CHR ''/'') (route_path route) = key_realm key @ ''/'' @ key_area key @ ''/'' @ key_resource key"
    "\<not> contains_control_character route"
  using assms by (auto simp: from_route_def from_route_str_def route_exact_triplet_Some route_segments_iff split: option.splits if_splits)

lemma from_to_route:
  assumes "from_route fam route = Some key"
  shows "from_route fam (to_route key) = Some key"
proof -
  note k = from_route_SomeD [OF assms]
  let ?path = "key_realm key @ ''/'' @ key_area key @ ''/'' @ key_resource key"
  obtain xs where "route = xs @ ?path" using route_path_suffix k(7) by metis
  with k(8) control_character_suffix have "\<not> contains_control_character ?path" by blast
  then have c: "\<not> contains_control_character (to_route key)" by (simp add: to_route_def)
  have "split_scheme (''lease'' @ ''://'' @ ?path) = Some (''lease'', ?path)" by (rule split_scheme_print) simp
  then have "route_path (to_route key) = ?path" by (simp add: route_path_def to_route_def)
  moreover have "dropWhile (\<lambda>c. c = CHR ''/'') ?path = ?path"
    using dropWhile_join [of "key_realm key" "CHR ''/''" "[key_area key, key_resource key]"] k(2,6) by simp
  ultimately have "route_exact_triplet (to_route key) = Some \<lparr>realm = key_realm key, area = key_area key, resource = key_resource key\<rparr>"
    using c k(6) by (simp add: route_exact_triplet_Some route_segments_iff)
  then show ?thesis using k(1-5) by (cases key) (simp add: from_route_def from_route_str_def)
qed

lemma decimal_digits: "c \<in> set (decimal n) \<Longrightarrow> 48 \<le> (of_char c :: nat) \<and> (of_char c :: nat) \<le> 57"
proof (induction n rule: decimal.induct)
  case (1 n)
  show ?case using 1 by (subst (asm) (2) decimal.simps) (auto split: if_splits)
qed

lemma decimal_no_colon: "CHR '':'' \<notin> set (decimal n)"
  using decimal_digits [of "CHR '':''" n] by auto

lemma split_colon: "CHR '':'' \<notin> set xs \<Longrightarrow> split_once '':'' (xs @ CHR '':'' # ys) = Some (xs, ys)"
  using split_once_first [of "'':''" xs ys] by simp

lemma logical_scoped: "logical_owner_id (session_scoped_owner_id sess owner) = owner"
proof (cases "owner = []")
  case True
  have "split_once '':'' (decimal (unat sess)) = None" unfolding split_once_None_iff using decimal_no_colon by (metis append_Cons append_Nil in_set_conv_decomp)
  with True show ?thesis
    using strip_prefix_append [of "''session:''" "decimal (unat sess)"] by (simp add: logical_owner_id_def session_scoped_owner_id_def)
next
  case False
  have "split_once '':'' (decimal (unat sess) @ CHR '':'' # owner) = Some (decimal (unat sess), owner)" by (rule split_colon [OF decimal_no_colon])
  with False show ?thesis
    using strip_prefix_append [of "''session:''" "decimal (unat sess) @ CHR '':'' # owner"]
    by (simp add: logical_owner_id_def session_scoped_owner_id_def)
qed

lemma scoped_inject: "session_scoped_owner_id sess owner = session_scoped_owner_id sess' owner' \<longleftrightarrow> sess = sess' \<and> owner = owner'"
proof
  assume eq: "session_scoped_owner_id sess owner = session_scoped_owner_id sess' owner'"
  then have "owner = owner'" using logical_scoped by metis
  with eq have "decimal (unat sess) = decimal (unat sess')" by (auto simp: session_scoped_owner_id_def split: if_splits)
  with \<open>owner = owner'\<close> show "sess = sess' \<and> owner = owner'" using decimal_inject word_unat_eq_iff by blast
qed simp

section \<open>Pages\<close>

lemma usize_add_le: "c < 2 ^ 64 - 1 \<Longrightarrow> usize_add a b \<le> c \<longleftrightarrow> a + b \<le> c"
  by (auto simp: usize_add_def)

lemma items_bytes_simps [simp]:
  "items_bytes [] = 0" "items_bytes (x # xs) = encoded_item_bytes x + items_bytes xs" "items_bytes (xs @ ys) = items_bytes xs + items_bytes ys"
  by (simp_all add: items_bytes_def)

lemma items_bytes_split: "items_bytes (take n xs) + items_bytes (drop n xs) = items_bytes xs"
  by (metis append_take_drop_id items_bytes_simps(3))

lemma items_bytes_take_Suc: "n < length xs \<Longrightarrow> items_bytes (take (Suc n) xs) = items_bytes (take n xs) + encoded_item_bytes (xs ! n)"
  by (simp add: take_Suc_conv_app_nth)

text \<open>A page is the longest prefix within the count and the byte budget, but never empty.\<close>

definition good_page :: "lease_list_item list \<Rightarrow> nat \<Rightarrow> nat \<Rightarrow> bool" where
  "good_page items capped n \<longleftrightarrow> n \<le> capped \<and> (0 < capped \<longrightarrow> 0 < n) \<and> (items_bytes (take n items) \<le> LEASE_LIST_PAGE_BYTE_BUDGET \<or> n \<le> 1)
     \<and> (n < capped \<longrightarrow> LEASE_LIST_PAGE_BYTE_BUDGET < items_bytes (take (Suc n) items))"

lemma page_end_good:
  assumes "n \<le> capped" "capped \<le> length items" "used = min (items_bytes (take n items)) (2 ^ 64 - 1)"
    and "items_bytes (take n items) \<le> LEASE_LIST_PAGE_BYTE_BUDGET \<or> n \<le> 1"
  shows "good_page items capped (page_end_loop items capped n used)"
  using assms
proof (induction items capped n used rule: page_end_loop.induct)
  case (1 items capped n used)
  show ?case
  proof (cases "n < capped")
    case False
    with 1 show ?thesis by (subst page_end_loop.simps) (auto simp: good_page_def)
  next
    case True
    let ?b = "encoded_item_bytes (items ! n)"
    have t: "items_bytes (take (Suc n) items) = items_bytes (take n items) + ?b" using True 1 by (intro items_bytes_take_Suc) simp
    have u: "usize_add used ?b = min (items_bytes (take (Suc n) items)) (2 ^ 64 - 1)" unfolding t 1(4) usize_add_def by simp
    have over: "usize_add used ?b > LEASE_LIST_PAGE_BYTE_BUDGET \<longleftrightarrow> items_bytes (take (Suc n) items) > LEASE_LIST_PAGE_BYTE_BUDGET"
      unfolding u by (simp add: LEASE_LIST_PAGE_BYTE_BUDGET_def)
    show ?thesis
    proof (cases "n > 0 \<and> usize_add used ?b > LEASE_LIST_PAGE_BYTE_BUDGET")
      case stop: True
      with True 1 over show ?thesis by (subst page_end_loop.simps) (simp add: good_page_def)
    next
      case False
      have "good_page items capped (page_end_loop items capped (n + 1) (usize_add used ?b))"
        by (rule 1(1)) (use True False 1 u over in auto)
      with True False show ?thesis by (subst page_end_loop.simps) (auto simp: Let_def)
    qed
  qed
qed

lemma budgeted_page_good: "good_page items (min page_size (length items)) (budgeted_page_end items page_size)"
  unfolding budgeted_page_end_def by (rule page_end_good) simp_all

section \<open>Ceilings of the retained snapshots\<close>

definition weigh :: "(lease_list_snapshot \<Rightarrow> nat) \<Rightarrow> snapshots \<Rightarrow> nat" where
  "weigh f m = sum_list (map (\<lambda>(_, x). f x) m)"

lemma weigh_simps [simp]: "weigh f [] = 0" "weigh f ((i, x) # m) = f x + weigh f m"
  by (simp_all add: weigh_def)

lemma weigh_update: "weigh f (AList.update i x m) \<le> weigh f m + f x"
  by (induction m) auto

lemma weigh_replace: "map_of m i = Some y \<Longrightarrow> f x \<le> f y \<Longrightarrow> weigh f (AList.update i x m) \<le> weigh f m"
  by (induction m) auto

lemma weigh_filter: "weigh f (filter P m) \<le> weigh f m"
  by (induction m) auto

definition bytes_of :: "u64 \<Rightarrow> lease_list_snapshot \<Rightarrow> nat" where
  "bytes_of sess x = (if snap_session_id x = sess then retained_bytes x else 0)"

lemma totals_weigh:
  "length m = weigh (\<lambda>_. 1) m" "total_items m = weigh (\<lambda>x. length (snap_items x)) m" "total_bytes m = weigh retained_bytes m"
  "session_bytes sess m = weigh (bytes_of sess) m"
  by (induction m) (auto simp: total_items_def total_bytes_def session_bytes_def weigh_def bytes_of_def)

definition snapshots_ok :: "snapshots \<Rightarrow> bool" where
  "snapshots_ok m \<longleftrightarrow> distinct (map fst m) \<and> (\<forall>(_, x) \<in> set m. retained_bytes x = items_bytes (snap_items x))
     \<and> length m \<le> LEASE_LIST_MAX_SNAPSHOTS \<and> total_items m \<le> LEASE_LIST_MAX_RETAINED_ITEMS_TOTAL
     \<and> total_bytes m \<le> LEASE_LIST_MAX_RETAINED_BYTES_TOTAL
     \<and> (\<forall>sess. session_bytes sess m \<le> LEASE_LIST_MAX_RETAINED_BYTES_PER_SESSION)"

text \<open>The ceilings carry over to a map in which everything weighs at most as much.\<close>

lemma snapshots_lighter:
  assumes "snapshots_ok m" "distinct (map fst m')" "\<forall>(_, x) \<in> set m'. retained_bytes x = items_bytes (snap_items x)"
    and le: "weigh (\<lambda>_. 1) m' \<le> weigh (\<lambda>_. 1) m" "weigh (\<lambda>x. length (snap_items x)) m' \<le> weigh (\<lambda>x. length (snap_items x)) m"
      "weigh retained_bytes m' \<le> weigh retained_bytes m" "\<And>sess. weigh (bytes_of sess) m' \<le> weigh (bytes_of sess) m"
  shows "snapshots_ok m'"
  using assms le_trans [OF le(4)] unfolding snapshots_ok_def totals_weigh by (meson le_trans)

lemma snapshots_filter: "snapshots_ok m \<Longrightarrow> snapshots_ok (filter P m)"
  by (rule snapshots_lighter) (auto simp: weigh_filter snapshots_ok_def distinct_map_filter)

lemma snapshots_delete: "snapshots_ok m \<Longrightarrow> snapshots_ok (AList.delete i m)"
  unfolding AList.delete_eq by (rule snapshots_filter)

lemma set_update_alist: "set (AList.update i x m) \<subseteq> insert (i, x) (set m)"
  by (induction m) auto

lemma snapshots_replace:
  assumes ok: "snapshots_ok m" and i: "map_of m i = Some y" and x: "retained_bytes x = items_bytes (snap_items x)"
    "length (snap_items x) \<le> length (snap_items y)" "retained_bytes x \<le> retained_bytes y" "snap_session_id x = snap_session_id y"
  shows "snapshots_ok (AList.update i x m)"
proof (rule snapshots_lighter [OF ok])
  show "distinct (map fst (AList.update i x m))" using ok by (simp add: snapshots_ok_def distinct_update)
  show "\<forall>(_, x) \<in> set (AList.update i x m). retained_bytes x = items_bytes (snap_items x)"
    using ok x(1) set_update_alist [of i x m] by (fastforce simp: snapshots_ok_def)
  show "weigh (bytes_of sess) (AList.update i x m) \<le> weigh (bytes_of sess) m" for sess
    by (rule weigh_replace [OF i]) (use x(3,4) in \<open>simp add: bytes_of_def\<close>)
qed (rule weigh_replace [OF i]; simp add: x(2,3))+

lemma snapshot_fits_iff:
  "snapshot_fits m sess n b \<longleftrightarrow> length m < LEASE_LIST_MAX_SNAPSHOTS \<and> total_items m + n \<le> LEASE_LIST_MAX_RETAINED_ITEMS_TOTAL
     \<and> total_bytes m + b \<le> LEASE_LIST_MAX_RETAINED_BYTES_TOTAL \<and> session_bytes sess m + b \<le> LEASE_LIST_MAX_RETAINED_BYTES_PER_SESSION"
  unfolding snapshot_fits_def
  by (simp add: usize_add_le LEASE_LIST_MAX_RETAINED_ITEMS_TOTAL_def LEASE_LIST_MAX_RETAINED_BYTES_TOTAL_def LEASE_LIST_MAX_RETAINED_BYTES_PER_SESSION_def)

lemma snapshots_admit:
  assumes ok: "snapshots_ok m" and fits: "snapshot_fits m (snap_session_id x) (length (snap_items x)) (retained_bytes x)"
    and x: "retained_bytes x = items_bytes (snap_items x)"
  shows "snapshots_ok (AList.update i x m)"
proof -
  have le: "weigh f (AList.update i x m) \<le> weigh f m + f x" for f by (rule weigh_update)
  have "session_bytes sess (AList.update i x m) \<le> LEASE_LIST_MAX_RETAINED_BYTES_PER_SESSION" for sess
    using le [of "bytes_of sess"] fits ok unfolding snapshot_fits_iff snapshots_ok_def totals_weigh
    by (cases "snap_session_id x = sess") (auto simp: bytes_of_def intro: le_trans)
  moreover have "\<forall>(_, x) \<in> set (AList.update i x m). retained_bytes x = items_bytes (snap_items x)"
    using ok x set_update_alist [of i x m] by (fastforce simp: snapshots_ok_def)
  moreover have "length (AList.update i x m) \<le> LEASE_LIST_MAX_SNAPSHOTS" "total_items (AList.update i x m) \<le> LEASE_LIST_MAX_RETAINED_ITEMS_TOTAL"
    "total_bytes (AList.update i x m) \<le> LEASE_LIST_MAX_RETAINED_BYTES_TOTAL"
    using le [of "\<lambda>_. 1"] le [of "\<lambda>x. length (snap_items x)"] le [of retained_bytes] fits unfolding snapshot_fits_iff totals_weigh by linarith+
  ultimately show ?thesis using ok by (simp add: snapshots_ok_def distinct_update)
qed

lemma admit_loop_ok:
  assumes "admit_loop m sess n b = (admitted, m', evicted)" "snapshots_ok m"
  shows "snapshots_ok m'" "admitted \<Longrightarrow> snapshot_fits m' sess n b"
    "n \<le> LEASE_LIST_MAX_RETAINED_ITEMS_TOTAL \<Longrightarrow> b \<le> LEASE_LIST_MAX_RETAINED_BYTES_PER_SESSION \<Longrightarrow> admitted"
proof -
  have "snapshots_ok m' \<and> (admitted \<longrightarrow> snapshot_fits m' sess n b)
    \<and> (n \<le> LEASE_LIST_MAX_RETAINED_ITEMS_TOTAL \<longrightarrow> b \<le> LEASE_LIST_MAX_RETAINED_BYTES_PER_SESSION \<longrightarrow> admitted)"
    using assms
  proof (induction m sess n b arbitrary: admitted m' evicted rule: admit_loop.induct)
    case (1 m sess n b)
    show ?case
    proof (cases "snapshot_fits m sess n b")
      case True
      with 1(2,3) show ?thesis by (subst (asm) admit_loop.simps) auto
    next
      case False
      show ?thesis
      proof (cases "min_by_key (\<lambda>(_, x). last_touched_at x) m")
        case None
        then have "m = []" by (cases m) (auto split: option.splits if_splits)
        moreover have "\<not> (n \<le> LEASE_LIST_MAX_RETAINED_ITEMS_TOTAL \<and> b \<le> LEASE_LIST_MAX_RETAINED_BYTES_PER_SESSION)"
          using False \<open>m = []\<close> by (auto simp: snapshot_fits_iff total_items_def total_bytes_def session_bytes_def LEASE_LIST_MAX_SNAPSHOTS_def
            LEASE_LIST_MAX_RETAINED_BYTES_TOTAL_def LEASE_LIST_MAX_RETAINED_BYTES_PER_SESSION_def)
        ultimately show ?thesis using 1(2,3) False None by (subst (asm) admit_loop.simps) auto
      next
        case (Some o')
        obtain i x where o: "o' = (i, x)" by (cases o')
        obtain a m1 e where r: "admit_loop (AList.delete i m) sess n b = (a, m1, e)" by (cases "admit_loop (AList.delete i m) sess n b")
        have "admitted = a" "m' = m1" using 1(2) False Some o r by (subst (asm) admit_loop.simps; simp)+
        with 1(1) [OF False Some o [symmetric] r snapshots_delete [OF 1(3)]] show ?thesis by simp
      qed
    qed
  qed
  then show "snapshots_ok m'" "admitted \<Longrightarrow> snapshot_fits m' sess n b"
    "n \<le> LEASE_LIST_MAX_RETAINED_ITEMS_TOTAL \<Longrightarrow> b \<le> LEASE_LIST_MAX_RETAINED_BYTES_PER_SESSION \<Longrightarrow> admitted" by blast+
qed

lemma admit_snapshot_ok:
  assumes "admit_snapshot m sess n b = (admitted, m', evicted)" "snapshots_ok m"
  shows "snapshots_ok m'" "admitted \<Longrightarrow> snapshot_fits m' sess n b"
    "admitted \<longleftrightarrow> n \<le> LEASE_LIST_MAX_RETAINED_ITEMS_TOTAL \<and> b \<le> LEASE_LIST_MAX_RETAINED_BYTES_PER_SESSION"
proof -
  have c: "LEASE_LIST_MAX_RETAINED_BYTES_PER_SESSION \<le> LEASE_LIST_MAX_RETAINED_BYTES_TOTAL"
    by (simp add: LEASE_LIST_MAX_RETAINED_BYTES_PER_SESSION_def LEASE_LIST_MAX_RETAINED_BYTES_TOTAL_def)
  have "snapshots_ok m' \<and> (admitted \<longrightarrow> snapshot_fits m' sess n b)
    \<and> (admitted \<longleftrightarrow> n \<le> LEASE_LIST_MAX_RETAINED_ITEMS_TOTAL \<and> b \<le> LEASE_LIST_MAX_RETAINED_BYTES_PER_SESSION)"
  proof (cases "n \<le> LEASE_LIST_MAX_RETAINED_ITEMS_TOTAL \<and> b \<le> LEASE_LIST_MAX_RETAINED_BYTES_PER_SESSION")
    case True
    then have "admit_loop m sess n b = (admitted, m', evicted)" using assms(1) c by (auto simp: admit_snapshot_def)
    from admit_loop_ok [OF this assms(2)] True show ?thesis by blast
  next
    case False
    show ?thesis
    proof (cases "b > LEASE_LIST_MAX_RETAINED_BYTES_PER_SESSION \<or> b > LEASE_LIST_MAX_RETAINED_BYTES_TOTAL \<or> n > LEASE_LIST_MAX_RETAINED_ITEMS_TOTAL")
      case True
      with assms False show ?thesis by (auto simp: admit_snapshot_def)
    next
      case nf: False
      with False show ?thesis by auto
    qed
  qed
  then show "snapshots_ok m'" "admitted \<Longrightarrow> snapshot_fits m' sess n b"
    "admitted \<longleftrightarrow> n \<le> LEASE_LIST_MAX_RETAINED_ITEMS_TOTAL \<and> b \<le> LEASE_LIST_MAX_RETAINED_BYTES_PER_SESSION" by blast+
qed

section \<open>One exchange\<close>

lemma counters_snapshots [simp]:
  "list_snapshots ((counter_inc name ^^ n) s) = list_snapshots s" "readings ((counter_inc name ^^ n) s) = readings s"
  by (induction n) (simp_all add: counter_inc_def)

definition page_size_of :: "u32 option \<Rightarrow> nat" where
  "page_size_of limit = unat (clamp 1 LEASE_LIST_MAX_PAGE_SIZE (case limit of None \<Rightarrow> LEASE_LIST_DEFAULT_PAGE_SIZE | Some n \<Rightarrow> n))"

lemma page_size_bounds: "0 < page_size_of limit" "page_size_of limit \<le> 500"
proof -
  have "1 \<le> clamp 1 LEASE_LIST_MAX_PAGE_SIZE x \<and> clamp 1 LEASE_LIST_MAX_PAGE_SIZE x \<le> 500" for x
    by (auto simp: clamp_def LEASE_LIST_MAX_PAGE_SIZE_def word_le_nat_alt word_less_nat_alt Suc_le_eq unat_gt_0)
  then show "0 < page_size_of limit" "page_size_of limit \<le> 500"
    unfolding page_size_of_def by (simp_all add: word_le_nat_alt Suc_le_eq unat_gt_0 word_gt_0)
qed

lemma handle_list_size:
  "handle_list E fam pattern cursor limit sess s =
     (case cursor of Some c \<Rightarrow> continue_list_scan E fam pattern c (page_size_of limit) sess s
      | None \<Rightarrow> start_list_scan E fam pattern (page_size_of limit) sess s)"
  unfolding handle_list_def page_size_of_def Let_def by (rule refl)

definition page_ok :: "nat \<Rightarrow> lease_list_item list \<Rightarrow> bool" where
  "page_ok page_size page \<longleftrightarrow> length page \<le> page_size \<and> (items_bytes page \<le> LEASE_LIST_PAGE_BYTE_BUDGET \<or> length page = 1)"

lemma budgeted_page:
  assumes "0 < page_size" and e: "e = budgeted_page_end items page_size"
  shows "e \<le> length items" "page_ok page_size (take e items)" "items \<noteq> [] \<Longrightarrow> 0 < e"
  using budgeted_page_good [of items page_size] assms(1) unfolding e [symmetric] good_page_def page_ok_def
  by (cases e; auto)+

lemma store_and_serve_ok:
  assumes r: "store_and_serve E fam pattern items page_size sess s = (r, s')" and ok: "snapshots_ok (list_snapshots s)" and size: "0 < page_size"
  shows "snapshots_ok (list_snapshots s')" "r = ListPage page next \<Longrightarrow> page_ok page_size page"
proof -
  let ?e = "budgeted_page_end items page_size"
  note b = budgeted_page [OF size refl, of items]
  have "snapshots_ok (list_snapshots s') \<and> (\<forall>page next. r = ListPage page next \<longrightarrow> page_ok page_size page)"
  proof (cases "?e \<ge> length items")
    case True
    with r ok b show ?thesis by (auto simp: store_and_serve_def)
  next
    case part: False
    show ?thesis
    proof (cases "next_id (next_list_snapshot_id s)")
      case None
      with part r ok b show ?thesis by (auto simp: store_and_serve_def Let_def)
    next
      case (Some p)
      obtain i n where p: "p = (i, n)" by (cases p)
      let ?rest = "drop ?e items"
      obtain a m ev where a: "admit_snapshot (list_snapshots s) sess (length ?rest) (items_bytes ?rest) = (a, m, ev)"
        by (cases "admit_snapshot (list_snapshots s) sess (length ?rest) (items_bytes ?rest)")
      note m = admit_snapshot_ok [OF a ok]
      show ?thesis
      proof (cases a)
        case False
        with r part Some p a m(1) show ?thesis by (auto simp: store_and_serve_def Let_def)
      next
        case True
        have "snapshots_ok (AList.update i x m)" if "snap_session_id x = sess" "snap_items x = ?rest" "retained_bytes x = items_bytes ?rest" for x
          by (rule snapshots_admit [OF m(1)]) (use m(2) [OF True] that in simp_all)
        with r part Some p a True b(2) show ?thesis by (auto simp: store_and_serve_def instant_now_def Let_def)
      qed
    qed
  qed
  then show "snapshots_ok (list_snapshots s')" "r = ListPage page next \<Longrightarrow> page_ok page_size page" by blast+
qed

text \<open>A scan fails with a reason, or captures the live matching leases in key order.\<close>

definition inventory :: "lease_env \<Rightarrow> pattern \<Rightarrow> instant \<Rightarrow> (lease_key \<times> sink_lease_state) list \<Rightarrow> lease_list_item list" where
  "inventory E p now m = map (\<lambda>(key, st). to_list_item E key st now) (filter (\<lambda>(key, st). now < expiry st \<and> matches_str p (to_route key)) m)"

lemma scan_range_Inl: "scan_range E p now examined captured items m = Inl r \<Longrightarrow> \<exists>reason. r = LeaseError reason"
  by (induction E p now examined captured items m rule: scan_range.induct) (auto simp: Let_def split: if_splits)

lemma scan_range_Inr:
  "scan_range E p now examined captured items m = Inr xs \<Longrightarrow> examined \<le> LEASE_LIST_MAX_CANDIDATES_PER_SCAN \<Longrightarrow>
    xs = items @ inventory E p now m \<and> examined + length m \<le> LEASE_LIST_MAX_CANDIDATES_PER_SCAN"
proof (induction E p now examined captured items m rule: scan_range.induct)
  case (1 E p now examined captured items)
  then show ?case by (simp add: inventory_def)
next
  case (2 E p now examined captured items key st rest)
  then show ?case by (auto simp: Let_def inventory_def split: if_splits)
qed

lemma start_list_cases:
  assumes "start_list_scan E fam pattern page_size sess s = (r, s')"
  obtains (exact) key where "from_route fam pattern = Some key" "s' = s\<lparr>readings := readings s + 1\<rparr>"
      "r = ListPage (case map_of (leases s) key of None \<Rightarrow> [] | Some st \<Rightarrow> if clock_now E s < expiry st then [to_list_item E key st (clock_now E s)] else []) None"
  | (pattern) e where "from_route fam pattern = None" "descriptor_compile_registration_pattern (descriptor Lease) pattern = Inl e" "r = InvalidListPattern e" "s' = s"
  | (failed) p reason where "from_route fam pattern = None" "descriptor_compile_registration_pattern (descriptor Lease) pattern = Inr p"
      "r = LeaseError reason" "s' = s\<lparr>readings := readings s + 1\<rparr>"
  | (scanned) p items where "from_route fam pattern = None" "descriptor_compile_registration_pattern (descriptor Lease) pattern = Inr p"
      "scan_range E p (clock_now E s) 0 0 [] (btree_range (family_lower_bound fam) (family_upper_bound fam) (leases s)) = Inr items"
      "store_and_serve E fam pattern items page_size sess (s\<lparr>readings := readings s + 1\<rparr>) = (r, s')"
proof (cases "from_route fam pattern")
  case (Some key)
  with assms show thesis by (intro exact [of key]) (auto simp: start_list_scan_def instant_now_def clock_now_def split: option.splits)
next
  case none: None
  show thesis
  proof (cases "descriptor_compile_registration_pattern (descriptor Lease) pattern")
    case (Inl e)
    with none assms show thesis by (intro pattern [of e]) (auto simp: start_list_scan_def)
  next
    case (Inr p)
    show thesis
    proof (cases "scan_range E p (clock_now E s) 0 0 [] (btree_range (family_lower_bound fam) (family_upper_bound fam) (leases s))")
      case (Inl e)
      with scan_range_Inl obtain reason where "e = LeaseError reason" by blast
      with Inl \<open>descriptor_compile_registration_pattern (descriptor Lease) pattern = Inr p\<close> none assms show thesis
        by (intro failed [of p reason]) (auto simp: start_list_scan_def instant_now_def clock_now_def)
    next
      case items: (Inr items)
      with Inr none assms show thesis by (intro scanned [of p items]) (auto simp: start_list_scan_def instant_now_def clock_now_def)
    qed
  qed
qed

lemma start_list_ok:
  assumes r: "start_list_scan E fam pattern page_size sess s = (r, s')" and ok: "snapshots_ok (list_snapshots s)" and size: "0 < page_size"
  shows "snapshots_ok (list_snapshots s') \<and> (\<forall>page next. r = ListPage page next \<longrightarrow> page_ok page_size page)"
  using r
proof (cases rule: start_list_cases)
  case (exact key)
  with ok size show ?thesis by (auto simp: page_ok_def split: option.splits)
next
  case (scanned p items)
  with store_and_serve_ok [OF scanned(4) _ size] ok show ?thesis by simp
qed (use ok in simp_all)

text \<open>A continuation is refused and changes nothing, or it takes a page off its snapshot.\<close>

definition matches_cursor :: "u64 \<Rightarrow> route_family \<Rightarrow> route \<Rightarrow> lease_list_cursor \<Rightarrow> lease_list_snapshot \<Rightarrow> bool" where
  "matches_cursor sess fam pattern c x \<longleftrightarrow> snapshot_of sess fam pattern x \<and> cursor_offset c = served_count x"

definition served :: "nat \<Rightarrow> instant \<Rightarrow> lease_list_snapshot \<Rightarrow> lease_list_snapshot" where
  "served n now x = x\<lparr>last_touched_at := now, snap_items := drop n (snap_items x),
     retained_bytes := retained_bytes x - items_bytes (take n (snap_items x)),
     served_count := u32_add (served_count x) (usize_to_u32_saturating n)\<rparr>"

lemma continue_refused:
  assumes "\<And>x. map_of (list_snapshots s) (snapshot_id c) = Some x \<Longrightarrow> \<not> matches_cursor sess fam pattern c x"
  shows "continue_list_scan E fam pattern c page_size sess s = (InvalidListCursor, s)"
  using assms by (auto simp: continue_list_scan_def matches_cursor_def snapshot_of_def split: option.splits)

lemma continue_served:
  assumes "map_of (list_snapshots s) (snapshot_id c) = Some x" "matches_cursor sess fam pattern c x"
    and e: "e = budgeted_page_end (snap_items x) page_size"
  shows "continue_list_scan E fam pattern c page_size sess s =
    (ListPage (take e (snap_items x)) (if drop e (snap_items x) = [] then None
       else Some \<lparr>snapshot_id = snapshot_id c, cursor_offset = served_count (served e (clock_now E s) x)\<rparr>),
     s\<lparr>readings := readings s + 1, list_snapshots := AList.update (snapshot_id c) (served e (clock_now E s) x) (list_snapshots s)\<rparr>)"
  using assms(1,2) unfolding e
  by (simp add: continue_list_scan_def matches_cursor_def snapshot_of_def instant_now_def clock_now_def served_def Let_def)

lemma served_fits:
  assumes "snapshots_ok m" "map_of m i = Some x" "n \<le> length (snap_items x)"
  shows "retained_bytes x = items_bytes (snap_items x)" "retained_bytes (served n now x) = items_bytes (drop n (snap_items x))"
    "snapshots_ok (AList.update i (served n now x) m)"
proof -
  show x: "retained_bytes x = items_bytes (snap_items x)" using assms(1) map_of_SomeD [OF assms(2)] by (auto simp: snapshots_ok_def)
  then show y: "retained_bytes (served n now x) = items_bytes (drop n (snap_items x))"
    using items_bytes_split [of n "snap_items x"] by (simp add: served_def)
  show "snapshots_ok (AList.update i (served n now x) m)"
    by (rule snapshots_replace [OF assms(1,2)]) (use x y items_bytes_split [of n "snap_items x"] in \<open>simp_all add: served_def\<close>)
qed

text \<open>Putting an undelivered page back restores the snapshot up to the time it was touched.\<close>

lemma restore_served:
  assumes "snapshots_ok m" "map_of m (snapshot_id c) = Some x" "matches_cursor sess fam pattern c x" "n \<le> length (snap_items x)"
    and s: "list_snapshots s = AList.update (snapshot_id c) (served n now x) m"
  shows "finish_list_response_delivery E fam pattern (Some c) sess (ListPage (take n (snap_items x)) next) False s =
    s\<lparr>readings := readings s + 1, list_snapshots := AList.update (snapshot_id c) (x\<lparr>last_touched_at := clock_now E s\<rparr>) m\<rparr>"
proof -
  note f = served_fits [OF assms(1,2,4)]
  have "items_bytes (snap_items x) \<le> total_bytes m"
  proof -
    have "retained_bytes x \<le> weigh retained_bytes m" using map_of_SomeD [OF assms(2)] unfolding weigh_def by (fastforce intro: member_le_sum_list)
    then show ?thesis using f(1) by (simp add: totals_weigh)
  qed
  moreover have "total_bytes m \<le> LEASE_LIST_MAX_RETAINED_BYTES_TOTAL" using assms(1) by (simp add: snapshots_ok_def)
  ultimately have "items_bytes (snap_items x) \<le> 2 ^ 64 - 1" by (simp add: LEASE_LIST_MAX_RETAINED_BYTES_TOTAL_def)
  then have b: "usize_add (retained_bytes (served n now x)) (items_bytes (take n (snap_items x))) = retained_bytes x"
    using items_bytes_split [of n "snap_items x"] f(1,2) by (simp add: usize_add_def)
  have n: "min (length (snap_items x)) n = n" using assms(4) by simp
  have "map_of (list_snapshots s) (snapshot_id c) = Some (served n now x)" by (simp add: s update_conv')
  moreover have "snapshot_of sess fam pattern (served n now x)" "served_count (served n now x) = u32_add (cursor_offset c) (usize_to_u32_saturating n)"
    using assms(3) by (simp_all add: matches_cursor_def snapshot_of_def served_def)
  moreover have "(served n now x)\<lparr>snap_items := take n (snap_items x) @ snap_items (served n now x), retained_bytes := retained_bytes x,
      served_count := cursor_offset c, last_touched_at := clock_now E s\<rparr> = x\<lparr>last_touched_at := clock_now E s\<rparr>"
    using assms(3) by (simp add: served_def matches_cursor_def)
  moreover have "AList.update (snapshot_id c) y (list_snapshots s) = AList.update (snapshot_id c) y m" for y unfolding s by (induction m) auto
  ultimately show ?thesis using b n by (simp add: finish_list_response_delivery_def instant_now_def clock_now_def Let_def)
qed

lemma handle_list_ok:
  assumes r: "handle_list E fam pattern cursor limit sess s = (r, s')" and ok: "snapshots_ok (list_snapshots s)"
  shows "snapshots_ok (list_snapshots s') \<and> (\<forall>page next. r = ListPage page next \<longrightarrow> page_ok (page_size_of limit) page)"
proof (cases cursor)
  case None
  with r start_list_ok [OF _ ok page_size_bounds(1)] show ?thesis by (simp add: handle_list_size)
next
  case (Some c)
  show ?thesis
  proof (cases "\<exists>x. map_of (list_snapshots s) (snapshot_id c) = Some x \<and> matches_cursor sess fam pattern c x")
    case True
    then obtain x where x: "map_of (list_snapshots s) (snapshot_id c) = Some x" "matches_cursor sess fam pattern c x" by blast
    note b = budgeted_page [OF page_size_bounds(1) [of limit] refl, of "snap_items x"]
    have "handle_list E fam pattern cursor limit sess s = continue_list_scan E fam pattern c (page_size_of limit) sess s" by (simp add: handle_list_size Some)
    with r continue_served [OF x refl] b(2) served_fits(3) [OF ok x(1) b(1)] show ?thesis by auto
  next
    case False
    with r ok Some continue_refused [of s c sess fam pattern] show ?thesis by (auto simp: handle_list_size)
  qed
qed


section \<open>Following the cursors\<close>

text \<open>A client that asks for the next page as long as it gets a cursor.\<close>

fun follow_list :: "lease_env \<Rightarrow> route_family \<Rightarrow> route \<Rightarrow> u32 option \<Rightarrow> u64 \<Rightarrow> nat \<Rightarrow> lease_list_item list \<Rightarrow> lease_list_cursor option
    \<Rightarrow> lease_state \<Rightarrow> (lease_list_item list \<times> lease_state) option" where
  "follow_list E fam pattern limit sess n got None s = Some (got, s)"
| "follow_list E fam pattern limit sess 0 got (Some c) s = None"
| "follow_list E fam pattern limit sess (Suc n) got (Some c) s =
     (case handle_list E fam pattern (Some c) limit sess s of
        (ListPage page next, s) \<Rightarrow> follow_list E fam pattern limit sess n (got @ page) next
          (finish_list_response_delivery E fam pattern (Some c) sess (ListPage page next) True s)
      | _ \<Rightarrow> None)"

lemma follow_list_all:
  assumes "map_of (list_snapshots s) (snapshot_id c) = Some x" "matches_cursor sess fam pattern c x"
    and "snap_items x \<noteq> []" "length (snap_items x) \<le> n"
  shows "\<exists>s'. follow_list E fam pattern limit sess n got (Some c) s = Some (got @ snap_items x, s') \<and>
    map_of (list_snapshots s') = (map_of (list_snapshots s))(snapshot_id c := None)"
  using assms
proof (induction n arbitrary: got c x s)
  case (Suc n)
  let ?e = "budgeted_page_end (snap_items x) (page_size_of limit)" and ?i = "snapshot_id c"
  have e: "?e \<le> length (snap_items x)" "0 < ?e" using budgeted_page [OF page_size_bounds(1) refl] Suc.prems(3) by blast+
  let ?y = "served ?e (clock_now E s) x"
  define s1 where "s1 = s\<lparr>readings := readings s + 1, list_snapshots := AList.update ?i ?y (list_snapshots s)\<rparr>"
  have h: "handle_list E fam pattern (Some c) limit sess s = (ListPage (take ?e (snap_items x)) (if drop ?e (snap_items x) = [] then None
       else Some \<lparr>snapshot_id = ?i, cursor_offset = served_count ?y\<rparr>), s1)"
    using continue_served [OF Suc.prems(1,2) refl] by (simp add: handle_list_size s1_def)
  have m1: "map_of (list_snapshots s1) ?i = Some ?y" "map_of (list_snapshots s1) = (map_of (list_snapshots s))(?i \<mapsto> ?y)" by (simp_all add: s1_def update_conv')
  have y: "snapshot_of sess fam pattern ?y" using Suc.prems(2) by (simp add: matches_cursor_def snapshot_of_def served_def)
  show ?case
  proof (cases "drop ?e (snap_items x) = []")
    case True
    then have "take ?e (snap_items x) = snap_items x" by simp
    with True h m1 y show ?thesis by (auto simp: finish_list_response_delivery_def delete_conv' fun_eq_iff)
  next
    case False
    let ?c = "\<lparr>snapshot_id = ?i, cursor_offset = served_count ?y\<rparr>"
    have "\<exists>s'. follow_list E fam pattern limit sess n (got @ take ?e (snap_items x)) (Some ?c) s1 = Some ((got @ take ?e (snap_items x)) @ snap_items ?y, s') \<and>
        map_of (list_snapshots s') = (map_of (list_snapshots s1))(snapshot_id ?c := None)"
      by (rule Suc.IH) (use m1(1) y False e Suc.prems(4) in \<open>auto simp: matches_cursor_def served_def\<close>)
    then obtain s' where s': "follow_list E fam pattern limit sess n (got @ take ?e (snap_items x)) (Some ?c) s1 = Some (got @ snap_items x, s')"
      "map_of (list_snapshots s') = (map_of (list_snapshots s1))(?i := None)" by (auto simp: served_def)
    have "finish_list_response_delivery E fam pattern (Some c) sess (ListPage (take ?e (snap_items x)) (Some ?c)) True s1 = s1"
      using m1(1) by (simp add: finish_list_response_delivery_def)
    with False h s'(1) have "follow_list E fam pattern limit sess (Suc n) got (Some c) s = Some (got @ snap_items x, s')" by simp
    moreover have "map_of (list_snapshots s') = (map_of (list_snapshots s))(?i := None)" unfolding s'(2) m1(2) by (rule fun_upd_upd)
    ultimately show ?thesis by blast
  qed
qed simp

lemma store_and_serve_split:
  assumes r: "store_and_serve E fam pattern items page_size sess s = (ListPage page next, s')" and n: "next_list_snapshot_id s \<noteq> - 1" and size: "0 < page_size"
  obtains (all) "next = None" "page = items"
  | (part) c x where "next = Some c" "map_of (list_snapshots s') (snapshot_id c) = Some x" "matches_cursor sess fam pattern c x"
      "snap_items x \<noteq> []" "page @ snap_items x = items"
proof -
  let ?e = "budgeted_page_end items page_size" and ?i = "next_list_snapshot_id s"
  show thesis
  proof (cases "?e \<ge> length items")
    case True
    with r show thesis by (intro all) (auto simp: store_and_serve_def)
  next
    case False
    obtain a m ev where a: "admit_snapshot (list_snapshots s) sess (length (drop ?e items)) (items_bytes (drop ?e items)) = (a, m, ev)"
      by (cases "admit_snapshot (list_snapshots s) sess (length (drop ?e items)) (items_bytes (drop ?e items))")
    define x where "x = \<lparr>snap_session_id = sess, snap_family_id = fam, pattern_route = pattern, snap_items = drop ?e items,
      retained_bytes = items_bytes (drop ?e items), served_count = usize_to_u32_saturating (length (take ?e items)), last_touched_at = clock_now E s\<rparr>"
    have a': a using r False n a by (auto simp: store_and_serve_def next_id_def Let_def split: if_splits)
    with r False n a have "next = Some \<lparr>snapshot_id = ?i, cursor_offset = served_count x\<rparr>" "page = take ?e items" "map_of (list_snapshots s') ?i = Some x"
      by (auto simp: store_and_serve_def next_id_def instant_now_def Let_def x_def clock_now_def update_conv')
    with False show thesis by (intro part [of "\<lparr>snapshot_id = ?i, cursor_offset = served_count x\<rparr>" x]) (auto simp: x_def matches_cursor_def snapshot_of_def)
  qed
qed

text \<open>The range of a family contains the leases of a family actor.\<close>

lemma family_range:
  assumes "\<And>key. key \<in> fst ` set m \<Longrightarrow> key_family key = fam"
  shows "btree_range (family_lower_bound fam) (family_upper_bound fam) m = m"
proof -
  have "family_lower_bound fam \<le> key" if "key_family key = fam" for key
    using that by (cases key) (auto simp: family_lower_bound_def less_eq_lease_key_def key_tuple_def)
  moreover have "key < u" if "key_family key = fam" "family_upper_bound fam = Some u" for key u
  proof -
    have "fam < fam + 1" if "fam \<noteq> - 1"
    proof -
      have "unat (1 + fam) = Suc (unat fam)" using that max_word_wrap [of fam] by (intro unatSuc) (auto simp: add.commute)
      then show ?thesis by (simp add: word_less_nat_alt add.commute)
    qed
    with that show ?thesis by (cases key) (auto simp: family_upper_bound_def less_lease_key_def key_tuple_def split: if_splits)
  qed
  ultimately show ?thesis unfolding btree_range_def using assms by (intro filter_True) (force split: option.splits)
qed

lemma actor_inventory: "book_ok s \<Longrightarrow> btree_range (family_lower_bound (own_family s)) (family_upper_bound (own_family s)) (leases s) = leases s"
  using book_onD(6) [of "map_of (leases s)" s] by (intro family_range) (auto simp: keys_ok_def weak_map_of_SomeI dest!: weak_map_of_SomeI)

section \<open>A list in two pages\<close>

definition sample_key2 :: lease_key where "sample_key2 = LeaseKey 1 ''acme'' ''jobs'' ''weekly''"

definition sample_second :: lease_domain_command where
  "sample_second = Deliver (sample_envelope 9 (PrepAcquire sample_key2 ''session:9:c'' 10 0))"

definition sample_pair :: lease_state where "sample_pair = the (receive sample_env True sample_second sample_held)"

definition sample_pattern :: route where "sample_pattern = ''lease://acme/jobs/*''"

definition sample_compiled :: pattern where
  "sample_compiled = \<lparr>pat_route = sample_pattern, pat_scheme = Some ''lease'', pat_segments = [Literal ''acme'', Literal ''jobs'', Star]\<rparr>"

lemma sample_selector: "from_route 1 sample_pattern = None"
  "descriptor_compile_registration_pattern (descriptor Lease) sample_pattern = Inr sample_compiled"
  "matches_str sample_compiled (to_route sample_key)" "matches_str sample_compiled (to_route sample_key2)"
  by code_simp+

lemma sample_keys: "\<not> sample_key2 < sample_key" "sample_key \<noteq> sample_key2" by code_simp+

lemma sample_pair_fields:
  "receive sample_env True sample_second sample_held = Some sample_pair"
  "leases sample_pair = [(sample_key, sample_lease), (sample_key2, sample_lease\<lparr>owner_id := ''session:9:c'', owner_session_id := 9, fencing_token := 2\<rparr>)]"
  "own_family sample_pair = 1" "list_snapshots sample_pair = []" "next_list_snapshot_id sample_pair = 0"
  using sample_keys
  by (simp_all add: sample_pair_def sample_held_def sample_second_def sample_key2_def sample_lease_def run_defs release_defs)

lemma sample_items:
  "encoded_item_bytes (to_list_item sample_env sample_key sample_lease now) = 77"
  "encoded_item_bytes (to_list_item sample_env sample_key2 (sample_lease\<lparr>owner_id := ''session:9:c'', owner_session_id := 9, fencing_token := 2\<rparr>) now) = 77"
  by (simp_all add: encoded_item_bytes_def to_list_item_def to_route_def sample_key_def sample_key2_def sample_lease_def logical_owner_id_def strip_prefix_def)

lemma sample_list:
  "\<exists>page s1. handle_list sample_env 1 sample_pattern None (Some 1) 7 sample_pair = (ListPage page (Some \<lparr>snapshot_id = 0, cursor_offset = 1\<rparr>), s1)"
proof -
  have size: "page_size_of (Some 1) = 1" by (simp add: page_size_of_def clamp_def LEASE_LIST_MAX_PAGE_SIZE_def)
  have range: "btree_range (family_lower_bound 1) (family_upper_bound 1) (leases sample_pair) = leases sample_pair"
    by (rule family_range) (auto simp: sample_pair_fields sample_key_def sample_key2_def)
  have clk: "clock sample_env i = 0" for i by (simp add: sample_env_def)
  have "\<exists>x y. scan_range sample_env sample_compiled 0 0 0 [] (leases sample_pair) = Inr [x, y] \<and> encoded_item_bytes y = 77"
    by (simp add: sample_pair_fields sample_selector sample_items LEASE_LIST_MAX_CANDIDATES_PER_SCAN_def LEASE_LIST_MAX_RETAINED_BYTES_PER_SESSION_def
       LEASE_LIST_PAGE_BYTE_BUDGET_def usize_add_def Let_def) (simp add: sample_lease_def)
  then obtain x y where i: "scan_range sample_env sample_compiled 0 0 0 [] (leases sample_pair) = Inr [x, y]" "encoded_item_bytes y = 77" by blast
  have pe: "budgeted_page_end [x, y] (Suc 0) = Suc 0" by (simp add: budgeted_page_end_def page_end_loop.simps)
  have a: "fst (admit_snapshot [] 7 1 77)" "admit_snapshot [] 7 1 77 = (True, [], 0)"
    by (simp_all add: admit_snapshot_def admit_loop.simps snapshot_fits_iff total_items_def total_bytes_def session_bytes_def LEASE_LIST_MAX_SNAPSHOTS_def
      LEASE_LIST_MAX_RETAINED_ITEMS_TOTAL_def LEASE_LIST_MAX_RETAINED_BYTES_TOTAL_def LEASE_LIST_MAX_RETAINED_BYTES_PER_SESSION_def)
  show ?thesis using i a
    by (simp add: handle_list_size size start_list_scan_def sample_selector instant_now_def range clk store_and_serve_def pe next_id_def sample_pair_fields(4,5)
      usize_to_u32_saturating_def try_from_usize_def items_bytes_def Let_def)
qed

lemma sample_pair_reachable: "lease_reachable sample_env {10} 0 sample_pair"
proof -
  have "lease_run sample_env {10} 0 sample_start (0 + command_cost sample_second) sample_pair"
    by (rule lease_run.command [OF sample_held_run(1) _ _ _ sample_pair_fields(1)])
      (simp_all add: sample_held_run(2) sample_second_def sample_envelope_def command_cost_def payload_cost_def command_ttls_def payload_ttls_def
        prepared_ttls_def command_for_def session_inbox_address_def)
  then show ?thesis unfolding lease_reachable_def sample_start_def
    by (auto simp: sample_second_def sample_envelope_def command_cost_def payload_cost_def)
qed

lemma snapshots_ok_Nil: "snapshots_ok []"
  by (simp add: snapshots_ok_def total_items_def total_bytes_def session_bytes_def)

lemma sample_continue:
  assumes "handle_list sample_env 1 sample_pattern None (Some 1) 7 sample_pair = (ListPage page (Some c), s)"
  shows "\<exists>page' nxt s1. handle_list sample_env 1 sample_pattern (Some c) (Some 1) 7 s = (ListPage page' nxt, s1)"
proof -
  obtain items where i: "store_and_serve sample_env 1 sample_pattern items (page_size_of (Some 1)) 7 (sample_pair\<lparr>readings := readings sample_pair + 1\<rparr>)
      = (ListPage page (Some c), s)"
    using assms sample_selector(1,2) unfolding handle_list_size by (auto elim: start_list_cases)
  have n: "next_list_snapshot_id (sample_pair\<lparr>readings := readings sample_pair + 1\<rparr>) \<noteq> - 1" by (simp add: sample_pair_fields)
  from store_and_serve_split [OF i n page_size_bounds(1)] obtain x
    where x: "map_of (list_snapshots s) (snapshot_id c) = Some x" "matches_cursor 7 1 sample_pattern c x" by auto
  from continue_served [OF x refl, of sample_env "page_size_of (Some 1)"] show ?thesis by (auto simp: handle_list_size)
qed

section \<open>Properties\<close>

text \<open>
  \<^bold>\<open>C36.\<close> A wildcard \<^verbatim>\<open>LIST\<close> is a point-in-time snapshot: when the first request of a scan gets a page,
  following the cursors ends after at most 50000 further pages, and the pages together are exactly the
  leases of the family that were live and matched the selector when the scan began, in key order. The
  snapshot is gone afterwards. Snapshot identifiers must not be exhausted.
\<close>

theorem lease_list_complete:
  assumes "lease_reachable E T k s" "clock_fits E" "next_list_snapshot_id s \<noteq> - 1"
    and "from_route (own_family s) pattern = None" "descriptor_compile_registration_pattern (descriptor Lease) pattern = Inr p"
    and "handle_list E (own_family s) pattern None limit sess s = (ListPage page next, s1)"
  shows "\<exists>s2. follow_list E (own_family s) pattern limit sess 50000 page next s1 =
      Some (map (\<lambda>(key, st). to_list_item E key st (clock_now E s))
        (filter (\<lambda>(key, st). clock_now E s < expiry st \<and> matches_str p (to_route key)) (leases s)), s2) \<and>
    (\<forall>c. next = Some c \<longrightarrow> map_of (list_snapshots s2) (snapshot_id c) = None)"
proof -
  have "start_list_scan E (own_family s) pattern (page_size_of limit) sess s = (ListPage page next, s1)"
    using assms(6) by (simp add: handle_list_size)
  then obtain items where i: "scan_range E p (clock_now E s) 0 0 [] (leases s) = Inr items"
    "store_and_serve E (own_family s) pattern items (page_size_of limit) sess (s\<lparr>readings := readings s + 1\<rparr>) = (ListPage page next, s1)"
    using assms(4,5) actor_inventory [OF reachable_book [OF assms(1,2)]] by (cases rule: start_list_cases) auto
  from scan_range_Inr [OF i(1)] have items: "items = inventory E p (clock_now E s) (leases s)" "length items \<le> 50000"
    by (auto simp: LEASE_LIST_MAX_CANDIDATES_PER_SCAN_def inventory_def intro: le_trans [OF length_filter_le])
  have n: "next_list_snapshot_id (s\<lparr>readings := readings s + 1\<rparr>) \<noteq> - 1" using assms(3) by simp
  show ?thesis
  proof (cases rule: store_and_serve_split [OF i(2) n page_size_bounds(1)])
    case 1
    then show ?thesis by (auto simp: items(1) inventory_def)
  next
    case (2 c x)
    then have "length (snap_items x) \<le> 50000" using items(2) by auto
    from follow_list_all [OF 2(2-4) this, of E limit page] 2(1,5) show ?thesis by (auto simp: items(1) inventory_def)
  qed
qed

theorem lease_list_complete_witness:
  "\<exists>page nxt s1 s2. handle_list sample_env 1 sample_pattern None (Some 1) 7 sample_pair = (ListPage page nxt, s1) \<and>
     follow_list sample_env 1 sample_pattern (Some 1) 7 50000 page nxt s1 =
       Some (map (\<lambda>(key, st). to_list_item sample_env key st 0) (leases sample_pair), s2)"
proof -
  obtain page nxt s1 where h: "handle_list sample_env 1 sample_pattern None (Some 1) 7 sample_pair = (ListPage page nxt, s1)" using sample_list by blast
  have live: "filter (\<lambda>(key, st). 0 < expiry st \<and> matches_str sample_compiled (to_route key)) (leases sample_pair) = leases sample_pair"
    by (simp add: sample_pair_fields sample_selector) (simp add: sample_lease_def)
  from lease_list_complete [OF sample_pair_reachable sample_clock(1), of sample_pattern sample_compiled "Some 1" 7 page nxt s1] h live show ?thesis
    by (auto simp: sample_pair_fields(3,5) sample_selector sample_clock)
qed



text \<open>
  \<^bold>\<open>C38.\<close> A page that could not be delivered is not lost: after a continuation whose reply was not
  accepted, the same cursor returns the same page and the same next cursor.
\<close>

theorem lease_list_retry:
  assumes "snapshots_ok (list_snapshots s)" "handle_list E fam pattern (Some c) limit sess s = (ListPage page next, s1)"
  shows "\<exists>s2. handle_list E fam pattern (Some c) limit sess
      (finish_list_response_delivery E fam pattern (Some c) sess (ListPage page next) False s1) = (ListPage page next, s2)"
proof -
  have h: "continue_list_scan E fam pattern c (page_size_of limit) sess s = (ListPage page next, s1)" using assms(2) by (simp add: handle_list_size)
  then obtain x where x: "map_of (list_snapshots s) (snapshot_id c) = Some x" "matches_cursor sess fam pattern c x"
    using continue_refused [of s c sess fam pattern E "page_size_of limit"] by fastforce
  let ?e = "budgeted_page_end (snap_items x) (page_size_of limit)"
  have e: "?e \<le> length (snap_items x)" by (rule budgeted_page(1) [OF page_size_bounds(1) refl])
  define s2 where "s2 = finish_list_response_delivery E fam pattern (Some c) sess (ListPage page next) False s1"
  define y where "y = x\<lparr>last_touched_at := clock_now E s1\<rparr>"
  from h continue_served [OF x refl] have page: "page = take ?e (snap_items x)"
    and s1: "list_snapshots s1 = AList.update (snapshot_id c) (served ?e (clock_now E s) x) (list_snapshots s)" by auto
  from restore_served [OF assms(1) x e s1, of E "next"] page have "list_snapshots s2 = AList.update (snapshot_id c) y (list_snapshots s)"
    by (simp add: s2_def y_def)
  then have y: "map_of (list_snapshots s2) (snapshot_id c) = Some y" "matches_cursor sess fam pattern c y" "snap_items y = snap_items x" "served_count y = served_count x"
    using x(2) by (simp_all add: update_conv' y_def matches_cursor_def snapshot_of_def)
  have "fst (continue_list_scan E fam pattern c (page_size_of limit) sess s2) = ListPage page next"
    using h continue_served [OF x refl, of E "page_size_of limit"] continue_served [OF y(1,2) refl, of E "page_size_of limit"] y(3,4)
    by (simp add: served_def split: if_splits)
  then show ?thesis unfolding s2_def [symmetric] handle_list_size by (cases "continue_list_scan E fam pattern c (page_size_of limit) sess s2") simp
qed

theorem lease_list_retry_witness:
  "\<exists>c s page nxt s1 s2. handle_list sample_env 1 sample_pattern (Some c) (Some 1) 7 s = (ListPage page nxt, s1) \<and>
     handle_list sample_env 1 sample_pattern (Some c) (Some 1) 7
       (finish_list_response_delivery sample_env 1 sample_pattern (Some c) 7 (ListPage page nxt) False s1) = (ListPage page nxt, s2)"
proof -
  obtain page c s where h: "handle_list sample_env 1 sample_pattern None (Some 1) 7 sample_pair = (ListPage page (Some c), s)" using sample_list by blast
  have ok: "snapshots_ok (list_snapshots s)" using handle_list_ok [OF h] by (simp add: sample_pair_fields snapshots_ok_Nil)
  from sample_continue [OF h] obtain page' nxt s1 where c: "handle_list sample_env 1 sample_pattern (Some c) (Some 1) 7 s = (ListPage page' nxt, s1)" by blast
  from lease_list_retry [OF ok c] c show ?thesis by blast
qed

text \<open>
  \<^bold>\<open>C39.\<close> Names are exact: a key that was parsed from a route is parsed again from the route printed for
  it, so that keys and printed routes correspond one to one; and scoping an owner to its session can be
  undone and never makes owners of two sessions, or two owners of one session, equal.
\<close>

theorem lease_names_roundtrip:
  assumes "from_route fam route = Some key"
  shows "from_route fam (to_route key) = Some key \<and> logical_owner_id (session_scoped_owner_id sess owner) = owner \<and>
    (session_scoped_owner_id sess owner = session_scoped_owner_id sess' owner' \<longleftrightarrow> sess = sess' \<and> owner = owner')"
  using from_to_route [OF assms] logical_scoped scoped_inject by blast

theorem lease_names_roundtrip_witness:
  "from_route 1 (to_route (LeaseKey 1 ''acme'' ''jobs'' ''nightly'')) = Some (LeaseKey 1 ''acme'' ''jobs'' ''nightly'') \<and>
   logical_owner_id (session_scoped_owner_id 7 ''a:b'') = ''a:b''"
proof -
  have "from_route 1 ''lease:///acme/jobs/nightly'' = Some (LeaseKey 1 ''acme'' ''jobs'' ''nightly'')" by code_simp
  from lease_names_roundtrip [OF this, of 7 "''a:b''"] show ?thesis by simp
qed

end
