(* ===== verification/Spec2Isabelle.thy ===== *)
theory Spec2Isabelle
  imports Payload_Codec Wire_Header Wire_Envelope Wire_Handshake Wire3_Extensions Routing Coverage Subscription_State
    Domain_Manifest Lease_Inventory
begin

text \<open>
  \<^bold>\<open>Fitz\<close> is a message broker: sessions connect over TCP or WebSocket, negotiate a version of a
  binary protocol, and talk to domains (notice, rpc, queue, kv, lease, schedule, stream) whose
  resources are named by routes \<open>scheme://realm/area/resource\<close> and selected by patterns with
  \<^verbatim>\<open>*\<close> and \<^verbatim>\<open>**\<close>. This development models the parts of it that decide what a frame means, who
  may see what, and which registrations a message reaches. Paths below are relative to
  \<^verbatim>\<open>src/src\<close>.

  \<^bold>\<open>Conventions.\<close> A \<^verbatim>\<open>&str\<close> is a \<^typ>\<open>string\<close> with one \<^typ>\<open>char\<close> per UTF-8 byte, bytes are
  8-bit words, \<^verbatim>\<open>u8\<close> to \<^verbatim>\<open>u128\<close> are words of that width, \<^verbatim>\<open>usize\<close> is \<^typ>\<open>nat\<close> with
  saturation and narrowing written out. \<^verbatim>\<open>Result\<close> is a sum with the error on the left; an
  operation that could panic returns an option, and its theorem says that it does not. Hash maps are
  association lists and hash sets lists without duplicates; no theorem depends on their order.

  \<^bold>\<open>Wire format.\<close>
  \<^item> \<open>Payload_Codec\<close>: \<^verbatim>\<open>protocol/payload_codec.rs\<close>, the field readers and writers. Layouts of fields
    decode to what was encoded and accept nothing else; borrowing and skipping readers advance as the
    owning ones do.
  \<^item> \<open>Wire_Header\<close>: \<^verbatim>\<open>protocol/wire2/header.rs\<close> and \<^verbatim>\<open>protocol/wire3/header.rs\<close>, the 15-byte header
    and the framing checks under the negotiated limit.
  \<^item> \<open>Wire_Envelope\<close>: \<^verbatim>\<open>protocol/wire2/envelope.rs\<close> and \<^verbatim>\<open>protocol/wire2/catalog.rs\<close>, responses and
    the error catalog. \<open>Wire_Handshake\<close>: \<^verbatim>\<open>protocol/wire2/handshake.rs\<close>.
  \<^item> \<open>Wire3_Extensions\<close>: \<^verbatim>\<open>protocol/wire3/extensions.rs\<close>, extension fields and capability lists.

  \<^bold>\<open>Routes and patterns.\<close>
  \<^item> \<open>Routing\<close>: \<^verbatim>\<open>runtime/routing.rs\<close> and \<^verbatim>\<open>utils/route_shape.rs\<close>.
  \<^item> \<open>Matcher\<close> and \<open>Coverage\<close>: \<^verbatim>\<open>runtime/matcher.rs\<close> and
    \<^verbatim>\<open>runtime/matcher/resource_registration.rs\<close>. The matcher equals the declarative meaning \<open>pmatch\<close>
    of a pattern; the coverage test that authorises a wildcard registration is sound, and complete up
    to its budget of 16384 product states.

  \<^bold>\<open>Registrations.\<close>
  \<^item> \<open>Subscriptions\<close>, \<open>Subscription_Trie\<close>, \<open>Subscription_Match\<close>: \<^verbatim>\<open>runtime/subscriptions.rs\<close> and
    \<^verbatim>\<open>runtime/subscriptions/suffix.rs\<close>. The trie lives in a flat pool with a free list; its invariant
    gives every node at most one incoming edge, so insertion and removal change one entry. The locale
    \<open>route_index\<close> is the contract of an index, interpreted on the model. Identifiers of nodes and
    segments are 32 bits wide and saturate, which the theorems exclude by bounding the number of
    inserted segments by \<open>2 ^ 32\<close>.
  \<^item> \<open>Subscription_State\<close>: \<^verbatim>\<open>domains/subscription_state.rs\<close>, the registrations of one family with
    their derived indexes, limits and telemetry, on top of the index contract.

  \<^bold>\<open>Domains.\<close>
  \<^item> \<open>Domain_Manifest\<close>: \<^verbatim>\<open>runtime/domain_manifest.rs\<close>, the kinds of domains, their descriptors, the order of
    cleanup and the compilation of registration patterns.
  \<^item> \<open>Session_Scope\<close>: \<^verbatim>\<open>runtime/cleanup_guard.rs\<close>, the bounded memory of cleaned-up sessions and the locale
    \<open>session_scoped\<close>, the contract of a domain that releases the resources of a session after marking it.

  \<^bold>\<open>Leases.\<close> The lease domain (\<^verbatim>\<open>domains/lease\<close>) runs one actor per route family. Its state is the record
  \<open>lease_state\<close>: leases in key order, waiting queues, indexes by session, watches, retained list snapshots, and
  what it shares with the other families (token and snapshot counters, admin rows). The record \<open>lease_env\<close>
  holds what is outside: the outcome of routing the n-th envelope, whether a sink resolves, the n-th reading
  of the monotonic clock in nanoseconds, UTC texts and the session hash.
  \<^item> \<open>Lease_Model\<close>: \<^verbatim>\<open>protocol.rs\<close>, \<^verbatim>\<open>sink/model.rs\<close> and the lease rows of \<^verbatim>\<open>control/admin/read_model.rs\<close>.
    \<open>Lease_Sink\<close>: \<^verbatim>\<open>sink/acquire.rs\<close>, \<^verbatim>\<open>expiry.rs\<close>, \<^verbatim>\<open>cleanup.rs\<close>, \<^verbatim>\<open>waiter_tracking.rs\<close>, \<^verbatim>\<open>observability.rs\<close>.
    \<open>Lease_List\<close>: \<^verbatim>\<open>sink/list.rs\<close>. \<open>Lease_Ingress\<close>: \<^verbatim>\<open>sink/ingress.rs\<close>, \<^verbatim>\<open>subscriptions.rs\<close>, \<^verbatim>\<open>responses.rs\<close>
    and the command loop of \<^verbatim>\<open>mailbox.rs\<close>. The loops terminate by the length of the queue or of the snapshot map.
  \<^item> \<open>Lease_Book\<close> is the invariant: indexes, queues, tokens and admin rows agree with the leases.
    \<open>Lease_Advance\<close>, \<open>Lease_Sweep\<close>, \<open>Lease_Cleanup\<close>, \<open>Lease_Requests\<close> and \<open>Lease_Watch\<close> say what the operations
    do and that they keep it.
  \<^item> \<open>Lease_Reach\<close> is the transition system of an actor: every command of the mailbox, interleaved with what
    the actors of other families do to the shared part. It interprets \<open>session_scoped\<close> on the lease domain.
  \<^item> \<open>Lease_Safety\<close> has the promises on reachable states: the exact book, totality, answers to acquires,
    ownership, sweeps, cleanup, closed sessions, and fencing. \<open>Lease_Inventory\<close> has names and \<^verbatim>\<open>LIST\<close>.
  \<^item> Bounds: \<open>clock_fits\<close> says that the clock has room for the longest wait of 30 seconds, without which the
    code panics; the watches of an actor fit the 32-bit slots of the index; fencing tokens of a key grow as
    long as queued times to live fit the clock (\<open>ttl_calm\<close>), and \<open>lease_fencing_regresses\<close> shows that they can go
    back otherwise.

  \<^bold>\<open>Not modelled.\<close> Sockets, HTTP, threads, channels, timers and metrics exporters; the persistent
  domains over a third-party column-family store; token verification by a third-party library; the
  admin console. Of the lease domain, the handles that enqueue commands on actor lanes, the read-only
  listing of waiters and the projection reset after a panic are left out, since no reachable state panics
  under the bounds above. The notice, rpc and schedule domains share the modelled registration sets and routes; their own
  state machines run on timers and worker channels and are left out, as are the bodies of the domains'
  codecs beyond the payload codec. Text rendered for people (\<^verbatim>\<open>Display\<close>, log lines) is left out everywhere.
\<close>

end
